(* ===== verification/Prelude.thy ===== *)
theory Prelude
  imports Main "HOL-Library.Word" "HOL-Library.Monad_Syntax"
begin

text \<open>
  Shared vocabulary of the development: the widths of the program's integers, the outcome
  type of code that may abort, and generic facts on digit lists, maps and finite sums that
  the component theories use.
\<close>

unbundle bit_operations_syntax

section \<open>Types\<close>

type_synonym byte = "8 word"
type_synonym uint16 = "16 word"
type_synonym uint32 = "32 word"
type_synonym uint64 = "64 word"
type_synonym uint128 = "128 word"
type_synonym uint256 = "256 word"
type_synonym uint512 = "512 word"

text \<open>
  \<open>assert\<close> and \<open>release_assert\<close> of the source: \<open>None\<close> is the abort of the process.
\<close>

definition assert :: "bool \<Rightarrow> unit option" where
  "assert c = (if c then Some () else None)"

lemma assert_True [simp]: "assert True = Some ()"
  by (simp add: assert_def)

lemma assert_False [simp]: "assert False = None"
  by (simp add: assert_def)

lemma assert_eq_Some [simp]: "assert c = Some u \<longleftrightarrow> c"
  by (simp add: assert_def)

lemma bind_assert_Some [simp]:
  "(assert c \<bind> f) = Some x \<longleftrightarrow> c \<and> f () = Some x"
  by (simp add: assert_def)

lemma assert_bind_True: "c \<Longrightarrow> (assert c \<bind> f) = f ()"
  by simp

text \<open>The computation returns, and what it returns satisfies \<open>Q\<close>.\<close>

definition succeeds :: "'a option \<Rightarrow> ('a \<Rightarrow> bool) \<Rightarrow> bool" where
  "succeeds m Q \<longleftrightarrow> (\<exists>x. m = Some x \<and> Q x)"

lemma succeedsI: "m = Some x \<Longrightarrow> Q x \<Longrightarrow> succeeds m Q"
  by (simp add: succeeds_def)

lemma succeedsE:
  assumes "succeeds m Q"
  obtains x where "m = Some x" "Q x"
  using assms by (auto simp: succeeds_def)

lemma succeeds_Some [simp]: "succeeds (Some x) Q \<longleftrightarrow> Q x"
  by (simp add: succeeds_def)

lemma succeeds_bind: "succeeds m P \<Longrightarrow> (\<And>x. P x \<Longrightarrow> succeeds (f x) Q) \<Longrightarrow> succeeds (m \<bind> f) Q"
  by (auto simp: succeeds_def)

lemma succeeds_None [simp]: "\<not> succeeds None Q"
  by (simp add: succeeds_def)

named_theorems codec_simps \<open>round trips and lengths of the byte codecs\<close>
named_theorems store_simps \<open>what the tables of the block store hold after an operation\<close>

section \<open>Numbers as lists of base 256 digits\<close>

fun le_digits :: "nat \<Rightarrow> nat \<Rightarrow> byte list" where
  "le_digits 0 n = []"
| "le_digits (Suc k) n = word_of_nat n # le_digits k (n div 256)"

fun le_value :: "byte list \<Rightarrow> nat" where
  "le_value [] = 0"
| "le_value (b # bs) = unat b + 256 * le_value bs"

lemma length_le_digits [simp]: "length (le_digits k n) = k"
  by (induction k arbitrary: n) auto

lemma unat_bound: "unat (w :: 'a::len word) < 2 ^ LENGTH('a)"
  by (rule unsigned_less)

lemma unat_byte_of_nat [simp]: "unat (word_of_nat n :: byte) = n mod 256"
  by (simp add: unat_of_nat)

lemma le_value_digits: "le_value (le_digits k n) = n mod 256 ^ k"
proof (induction k arbitrary: n)
  case 0
  show ?case by simp
next
  case (Suc k)
  have "n mod 256 + 256 * (n div 256 mod 256 ^ k) = n mod (256 * 256 ^ k)"
    by (simp add: mod_mult2_eq)
  with Suc show ?case by simp
qed

lemma le_value_bound: "le_value bs < 256 ^ length bs"
proof (induction bs)
  case Nil
  show ?case by simp
next
  case (Cons b bs)
  have "unat b < 256"
    using unat_bound [of b] by simp
  with Cons have "unat b + 256 * le_value bs < 256 + 256 * (256 ^ length bs - 1)"
    by (metis Suc_leI add_less_le_mono diff_Suc_1 less_eq_Suc_le diff_le_mono mult_le_mono2)
  also have "\<dots> = 256 * 256 ^ length bs"
    by (simp add: algebra_simps)
  finally show ?case by simp
qed

lemma byte_256 [simp]: "(256 :: byte) = 0"
  by (rule word_unat_eq_iff [THEN iffD2]) simp

lemma le_digits_value: "le_digits (length bs) (le_value bs) = bs"
proof (induction bs)
  case Nil
  show ?case by simp
next
  case (Cons b bs)
  have "(unat b + 256 * le_value bs) div 256 = le_value bs"
    using unat_bound [of b] by simp
  with Cons show ?case by simp
qed

section \<open>Words as byte lists\<close>

text \<open>
  \<open>le_bytes\<close> is the memory image of an integer on the little-endian hosts the program
  supports; \<open>be_bytes\<close> is the image of the byte arrays of \<open>uint128_union\<close>,
  \<open>uint256_union\<close> and \<open>uint512_union\<close>, whose \<open>number ()\<close> reads the first byte as the
  most significant one.
\<close>

definition le_bytes :: "'a::len word \<Rightarrow> byte list" where
  "le_bytes w = le_digits (LENGTH('a) div 8) (unat w)"

definition be_bytes :: "'a::len word \<Rightarrow> byte list" where
  "be_bytes w = rev (le_bytes w)"

definition of_le_bytes :: "byte list \<Rightarrow> 'a::len word" where
  "of_le_bytes bs = word_of_nat (le_value bs)"

definition of_be_bytes :: "byte list \<Rightarrow> 'a::len word" where
  "of_be_bytes bs = of_le_bytes (rev bs)"

lemma length_le_bytes [simp]: "length (le_bytes (w :: 'a::len word)) = LENGTH('a) div 8"
  by (simp add: le_bytes_def)

lemma length_be_bytes [simp]: "length (be_bytes (w :: 'a::len word)) = LENGTH('a) div 8"
  by (simp add: be_bytes_def)

lemma le_bytes_byte: "le_bytes (b :: byte) = [b]"
  by (simp add: le_bytes_def)

lemma pow_256_bytes: "8 dvd n \<Longrightarrow> (256::nat) ^ (n div 8) = 2 ^ n"
proof -
  assume "8 dvd n"
  then have "(256::nat) ^ (n div 8) = (2 ^ 8) ^ (n div 8)" by simp
  also have "\<dots> = 2 ^ n"
    using \<open>8 dvd n\<close> by (simp only: power_mult [symmetric] dvd_mult_div_cancel)
  finally show ?thesis .
qed

lemma of_le_bytes_le_bytes:
  assumes "8 dvd LENGTH('a::len)"
  shows "of_le_bytes (le_bytes (w :: 'a word)) = w"
proof -
  have "unat w mod 256 ^ (LENGTH('a) div 8) = unat w"
    using unat_bound [of w] by (simp add: pow_256_bytes [OF assms])
  then show ?thesis
    by (simp add: of_le_bytes_def le_bytes_def le_value_digits)
qed

lemma le_bytes_of_le_bytes:
  assumes "8 dvd LENGTH('a::len)" and "length bs = LENGTH('a) div 8"
  shows "le_bytes (of_le_bytes bs :: 'a word) = bs"
proof -
  have "le_value bs < 2 ^ LENGTH('a)"
    using le_value_bound [of bs] assms by (simp add: pow_256_bytes)
  then have "unat (of_le_bytes bs :: 'a word) = le_value bs"
    by (simp add: of_le_bytes_def unat_of_nat)
  then show ?thesis
    by (simp add: le_bytes_def assms(2) [symmetric] le_digits_value)
qed

lemma of_be_bytes_be_bytes:
  assumes "8 dvd LENGTH('a::len)"
  shows "of_be_bytes (be_bytes (w :: 'a word)) = w"
  by (simp add: of_be_bytes_def be_bytes_def of_le_bytes_le_bytes [OF assms])

lemma be_bytes_of_be_bytes:
  assumes "8 dvd LENGTH('a::len)" and "length bs = LENGTH('a) div 8"
  shows "be_bytes (of_be_bytes bs :: 'a word) = bs"
  by (simp add: of_be_bytes_def be_bytes_def le_bytes_of_le_bytes assms)

section \<open>Sums over the entries of a finite map\<close>

definition table_sum :: "('v \<Rightarrow> 'n::comm_monoid_add) \<Rightarrow> ('k \<rightharpoonup> 'v) \<Rightarrow> 'n" where
  "table_sum f m = (\<Sum>k\<in>dom m. f (the (m k)))"

lemma table_sum_empty [simp]: "table_sum f Map.empty = 0"
  by (simp add: table_sum_def)

lemma table_sum_insert:
  assumes "finite (dom m)" and "m k = None"
  shows "table_sum f (m(k \<mapsto> v)) = f v + table_sum f m"
proof -
  have "k \<notin> dom m" using assms(2) by auto
  moreover from this have "(\<Sum>j\<in>dom m. f (the ((m(k \<mapsto> v)) j))) = table_sum f m"
    unfolding table_sum_def by (intro sum.cong) auto
  ultimately show ?thesis
    using assms(1) by (simp add: table_sum_def)
qed

lemma table_sum_delete:
  assumes "finite (dom m)" and "m k = Some v"
  shows "table_sum f m = f v + table_sum f (m(k := None))"
proof -
  have "table_sum f ((m(k := None))(k \<mapsto> v)) = f v + table_sum f (m(k := None))"
    using assms(1) by (intro table_sum_insert) auto
  moreover have "(m(k := None))(k \<mapsto> v) = m"
    using assms(2) by auto
  ultimately show ?thesis by simp
qed

lemma table_sum_update:
  assumes "finite (dom m)" and "m k = Some u"
  shows "f u + table_sum f (m(k \<mapsto> v)) = f v + table_sum f m"
proof -
  have "table_sum f (m(k \<mapsto> v)) = f v + table_sum f ((m(k \<mapsto> v))(k := None))"
    using assms(1) by (intro table_sum_delete) auto
  moreover have "(m(k \<mapsto> v))(k := None) = m(k := None)" by auto
  ultimately show ?thesis
    using table_sum_delete [OF assms, of f] by (simp add: ac_simps)
qed

lemma table_sum_ge:
  assumes "finite (dom m)" and "m k = Some v"
  shows "f v \<le> (table_sum f m :: nat)"
  using table_sum_delete [OF assms, of f] by simp

end
