(* ===== verification/Streams.thy ===== *)
theory Streams
  imports Prelude
begin

text \<open>
  The byte streams of \<open>nano/lib/blocks.hpp\<close>: \<open>try_read\<close>, \<open>read\<close> and \<open>write\<close>, and the
  contract every serialiser of the program is held to. A stream is the list of the bytes
  that are left to read; writing appends. A \<open>read\<close> that throws is \<open>None\<close>.
\<close>

section \<open>Reading and writing values\<close>

type_synonym stream = "byte list"

text \<open>\<open>sgetn\<close> on a buffer: the read is an error unless all the bytes asked for are there.\<close>

definition try_read :: "nat \<Rightarrow> stream \<Rightarrow> (byte list \<times> stream) option" where
  "try_read n s = (if n \<le> length s then Some (take n s, drop n s) else None)"

text \<open>An integer is read into its memory image, a 128, 256 or 512 bit union into its byte array.\<close>

definition read_int :: "stream \<Rightarrow> ('a::len word \<times> stream) option" where
  "read_int s = do { (bs, r) \<leftarrow> try_read (LENGTH('a) div 8) s; Some (of_le_bytes bs, r) }"

definition read_union :: "stream \<Rightarrow> ('a::len word \<times> stream) option" where
  "read_union s = do { (bs, r) \<leftarrow> try_read (LENGTH('a) div 8) s; Some (of_be_bytes bs, r) }"

lemma try_read_Some: "try_read n s = Some (bs, r) \<longleftrightarrow> s = bs @ r \<and> length bs = n"
  by (auto simp: try_read_def append_eq_conv_conj min_def)

lemma read_int_Some:
  assumes "8 dvd LENGTH('a::len)"
  shows "read_int s = Some (w :: 'a word, r) \<longleftrightarrow> s = le_bytes w @ r"
  using assms
  by (auto simp: read_int_def bind_eq_Some_conv try_read_Some le_bytes_of_le_bytes
      of_le_bytes_le_bytes)

lemma read_union_Some:
  assumes "8 dvd LENGTH('a::len)"
  shows "read_union s = Some (w :: 'a word, r) \<longleftrightarrow> s = be_bytes w @ r"
  using assms
  by (auto simp: read_union_def bind_eq_Some_conv try_read_Some be_bytes_of_be_bytes
      of_be_bytes_be_bytes)

lemma read_int_total: "LENGTH('a::len) div 8 \<le> length s \<Longrightarrow> \<exists>w r. read_int s = Some (w :: 'a word, r)"
  by (simp add: read_int_def try_read_def)

lemma read_union_total: "LENGTH('a::len) div 8 \<le> length s \<Longrightarrow> \<exists>w r. read_union s = Some (w :: 'a word, r)"
  by (simp add: read_union_def try_read_def)

section \<open>The contract of a serialiser\<close>

text \<open>
  \<open>enc\<close> writes a value and \<open>dec\<close> reads one and hands back the rest of the stream: \<open>dec\<close>
  succeeds exactly on the streams that start with the image of a value, and returns that
  value. This is both round trips at once.
\<close>

locale codec =
  fixes enc :: "'a \<Rightarrow> stream"
    and dec :: "stream \<Rightarrow> ('a \<times> stream) option"
  assumes dec_iff: "dec s = Some (x, r) \<longleftrightarrow> s = enc x @ r"
begin

lemma dec_enc: "dec (enc x @ r) = Some (x, r)"
  by (simp add: dec_iff)

lemma dec_enc_all: "dec (enc x) = Some (x, [])"
  by (simp add: dec_iff)

lemma enc_prefix_free: "enc x @ r = enc y @ s \<Longrightarrow> x = y \<and> r = s"
  using dec_enc by (metis option.inject prod.inject)

lemma enc_inject: "enc x = enc y \<longleftrightarrow> x = y"
  using dec_enc_all by (metis option.inject prod.inject)

lemma dec_consumes: "dec s = Some (x, r) \<Longrightarrow> length s = length (enc x) + length r"
  by (simp add: dec_iff)

end

text \<open>A serialiser whose images all have one length fails only on streams that are too short.\<close>

locale fixed_codec = codec +
  fixes width :: nat
  assumes length_enc: "length (enc x) = width"
    and dec_total: "width \<le> length s \<Longrightarrow> \<exists>x r. dec s = Some (x, r)"
begin

lemma dec_None_iff: "dec s = None \<longleftrightarrow> length s < width"
proof
  assume "dec s = None"
  then show "length s < width"
    using dec_total [of s] by (cases "width \<le> length s") auto
next
  assume "length s < width"
  then show "dec s = None"
    using dec_consumes [of s] length_enc by (cases "dec s") auto
qed

lemma width_image: "length s = width \<Longrightarrow> \<exists>x. s = enc x"
proof -
  assume len: "length s = width"
  then obtain x r where "dec s = Some (x, r)"
    using dec_total by fastforce
  with len have "s = enc x"
    using length_enc [of x] by (simp add: dec_iff)
  then show ?thesis ..
qed

end

lemma int_codec:
  assumes "8 dvd LENGTH('a::len)"
  shows "fixed_codec (le_bytes :: 'a word \<Rightarrow> stream) read_int (LENGTH('a) div 8)"
proof
  fix s :: stream
  assume "LENGTH('a) div 8 \<le> length s"
  then show "\<exists>(x :: 'a word) r. read_int s = Some (x, r)" by (rule read_int_total)
qed (use assms in \<open>simp_all add: read_int_Some\<close>)

lemma union_codec:
  assumes "8 dvd LENGTH('a::len)"
  shows "fixed_codec (be_bytes :: 'a word \<Rightarrow> stream) read_union (LENGTH('a) div 8)"
proof
  fix s :: stream
  assume "LENGTH('a) div 8 \<le> length s"
  then show "\<exists>(x :: 'a word) r. read_union s = Some (x, r)" by (rule read_union_total)
qed (use assms in \<open>simp_all add: read_union_Some\<close>)

interpretation u8: fixed_codec "le_bytes :: byte \<Rightarrow> stream" read_int 1
  using int_codec [where 'a = 8] by simp

interpretation u16: fixed_codec "le_bytes :: uint16 \<Rightarrow> stream" read_int 2
  using int_codec [where 'a = 16] by simp

interpretation u32: fixed_codec "le_bytes :: uint32 \<Rightarrow> stream" read_int 4
  using int_codec [where 'a = 32] by simp

interpretation u64: fixed_codec "le_bytes :: uint64 \<Rightarrow> stream" read_int 8
  using int_codec [where 'a = 64] by simp

interpretation u64_be: fixed_codec "be_bytes :: uint64 \<Rightarrow> stream" read_union 8
  using union_codec [where 'a = 64] by simp

interpretation u128: fixed_codec "be_bytes :: uint128 \<Rightarrow> stream" read_union 16
  using union_codec [where 'a = 128] by simp

interpretation u256: fixed_codec "be_bytes :: uint256 \<Rightarrow> stream" read_union 32
  using union_codec [where 'a = 256] by simp

interpretation u512: fixed_codec "be_bytes :: uint512 \<Rightarrow> stream" read_union 64
  using union_codec [where 'a = 512] by simp

lemmas read_iff [codec_simps] =
  u8.dec_iff u16.dec_iff u32.dec_iff u64.dec_iff u64_be.dec_iff u128.dec_iff u256.dec_iff
  u512.dec_iff

lemmas read_None_iff [codec_simps] =
  u8.dec_None_iff u16.dec_None_iff u32.dec_None_iff u64.dec_None_iff u64_be.dec_None_iff
  u128.dec_None_iff u256.dec_None_iff u512.dec_None_iff

lemmas enc_inject [codec_simps] =
  u8.enc_inject u16.enc_inject u32.enc_inject u64.enc_inject u64_be.enc_inject
  u128.enc_inject u256.enc_inject u512.enc_inject

section \<open>Repeated reads\<close>

text \<open>A loop that reads a given number of values.\<close>

fun read_times :: "(stream \<Rightarrow> ('a \<times> stream) option) \<Rightarrow> nat \<Rightarrow> stream \<Rightarrow> ('a list \<times> stream) option" where
  "read_times d 0 s = Some ([], s)"
| "read_times d (Suc n) s = do { (x, s) \<leftarrow> d s; (xs, s) \<leftarrow> read_times d n s; Some (x # xs, s) }"

context codec
begin

lemma read_times_Some:
  "read_times dec n s = Some (xs, r) \<longleftrightarrow> length xs = n \<and> s = concat (map enc xs) @ r"
proof (induction n arbitrary: s xs)
  case 0
  show ?case by auto
next
  case (Suc n)
  show ?case
    by (cases xs) (auto simp: bind_eq_Some_conv Suc.IH dec_iff)
qed

end

end
