(* ===== verification/Blocks.thy ===== *)
theory Blocks
  imports Streams
begin

text \<open>
  The blocks of \<open>nano/lib/blocks.hpp\<close> and \<open>nano/lib/blocks.cpp\<close>: the five block classes,
  their accessors, the bytes each class feeds to the hash function, and the binary
  serialisation. A \<open>std::shared_ptr<nano::block>\<close> is a value of \<open>block\<close>; a null pointer is
  \<open>None\<close> of the option type.
\<close>

section \<open>Block types\<close>

text \<open>
  \<open>block_type\<close> is an enumeration with an eight bit representation that is also read from
  the network, so it has the values that no enumerator names.
\<close>

datatype block_type =
    Bt_invalid | Bt_not_a_block | Bt_send | Bt_receive | Bt_open | Bt_change | Bt_state
  | Bt_other byte

definition block_type_of_byte :: "byte \<Rightarrow> block_type" where
  "block_type_of_byte b =
     (if b = 0 then Bt_invalid else if b = 1 then Bt_not_a_block else if b = 2 then Bt_send
      else if b = 3 then Bt_receive else if b = 4 then Bt_open else if b = 5 then Bt_change
      else if b = 6 then Bt_state else Bt_other b)"

fun byte_of_block_type :: "block_type \<Rightarrow> byte" where
  "byte_of_block_type Bt_invalid = 0"
| "byte_of_block_type Bt_not_a_block = 1"
| "byte_of_block_type Bt_send = 2"
| "byte_of_block_type Bt_receive = 3"
| "byte_of_block_type Bt_open = 4"
| "byte_of_block_type Bt_change = 5"
| "byte_of_block_type Bt_state = 6"
| "byte_of_block_type (Bt_other b) = b"

lemma byte_of_block_type_of_byte [simp]: "byte_of_block_type (block_type_of_byte b) = b"
  by (simp add: block_type_of_byte_def)

section \<open>Block classes\<close>

text \<open>
  Every block class is its hashables with a signature and a work value; the hashables
  differ. The five classes share the record \<open>signed\<close>.
\<close>

record send_hashables =
  send_previous :: uint256
  send_destination :: uint256
  send_balance :: uint128

record receive_hashables =
  receive_previous :: uint256
  receive_source :: uint256

record open_hashables =
  open_source :: uint256
  open_representative :: uint256
  open_account :: uint256

record change_hashables =
  change_previous :: uint256
  change_representative :: uint256

record state_hashables =
  state_account :: uint256
  state_previous :: uint256
  state_representative :: uint256
  state_balance :: uint128
  state_link :: uint256

record 'h signed =
  hashables :: 'h
  signature :: uint512
  work :: uint64

type_synonym send_block = "send_hashables signed"
type_synonym receive_block = "receive_hashables signed"
type_synonym open_block = "open_hashables signed"
type_synonym change_block = "change_hashables signed"
type_synonym state_block = "state_hashables signed"

datatype block =
    Send_block send_block
  | Receive_block receive_block
  | Open_block open_block
  | Change_block change_block
  | State_block state_block

subsection \<open>Accessors\<close>

text \<open>The virtual functions of \<open>nano::block\<close>; where a class does not override one, the base returns zero.\<close>

fun type_of :: "block \<Rightarrow> block_type" where
  "type_of (Send_block b) = Bt_send"
| "type_of (Receive_block b) = Bt_receive"
| "type_of (Open_block b) = Bt_open"
| "type_of (Change_block b) = Bt_change"
| "type_of (State_block b) = Bt_state"

fun previous :: "block \<Rightarrow> uint256" where
  "previous (Send_block b) = send_previous (hashables b)"
| "previous (Receive_block b) = receive_previous (hashables b)"
| "previous (Open_block b) = 0"
| "previous (Change_block b) = change_previous (hashables b)"
| "previous (State_block b) = state_previous (hashables b)"

fun source :: "block \<Rightarrow> uint256" where
  "source (Receive_block b) = receive_source (hashables b)"
| "source (Open_block b) = open_source (hashables b)"
| "source _ = 0"

fun root :: "block \<Rightarrow> uint256" where
  "root (Send_block b) = send_previous (hashables b)"
| "root (Receive_block b) = receive_previous (hashables b)"
| "root (Open_block b) = open_account (hashables b)"
| "root (Change_block b) = change_previous (hashables b)"
| "root (State_block b) =
     (if state_previous (hashables b) \<noteq> 0 then state_previous (hashables b)
      else state_account (hashables b))"

fun link :: "block \<Rightarrow> uint256" where
  "link (State_block b) = state_link (hashables b)"
| "link _ = 0"

fun account :: "block \<Rightarrow> uint256" where
  "account (Open_block b) = open_account (hashables b)"
| "account (State_block b) = state_account (hashables b)"
| "account _ = 0"

fun representative :: "block \<Rightarrow> uint256" where
  "representative (Open_block b) = open_representative (hashables b)"
| "representative (Change_block b) = change_representative (hashables b)"
| "representative (State_block b) = state_representative (hashables b)"
| "representative _ = 0"

fun block_work :: "block \<Rightarrow> uint64" where
  "block_work (Send_block b) = work b"
| "block_work (Receive_block b) = work b"
| "block_work (Open_block b) = work b"
| "block_work (Change_block b) = work b"
| "block_work (State_block b) = work b"

fun block_work_set :: "uint64 \<Rightarrow> block \<Rightarrow> block" where
  "block_work_set w (Send_block b) = Send_block (b\<lparr>work := w\<rparr>)"
| "block_work_set w (Receive_block b) = Receive_block (b\<lparr>work := w\<rparr>)"
| "block_work_set w (Open_block b) = Open_block (b\<lparr>work := w\<rparr>)"
| "block_work_set w (Change_block b) = Change_block (b\<lparr>work := w\<rparr>)"
| "block_work_set w (State_block b) = State_block (b\<lparr>work := w\<rparr>)"

fun block_signature :: "block \<Rightarrow> uint512" where
  "block_signature (Send_block b) = signature b"
| "block_signature (Receive_block b) = signature b"
| "block_signature (Open_block b) = signature b"
| "block_signature (Change_block b) = signature b"
| "block_signature (State_block b) = signature b"

fun signature_set :: "uint512 \<Rightarrow> block \<Rightarrow> block" where
  "signature_set g (Send_block b) = Send_block (b\<lparr>signature := g\<rparr>)"
| "signature_set g (Receive_block b) = Receive_block (b\<lparr>signature := g\<rparr>)"
| "signature_set g (Open_block b) = Open_block (b\<lparr>signature := g\<rparr>)"
| "signature_set g (Change_block b) = Change_block (b\<lparr>signature := g\<rparr>)"
| "signature_set g (State_block b) = State_block (b\<lparr>signature := g\<rparr>)"

text \<open>Which block may directly follow which: \<open>b\<close> is the new block, \<open>p\<close> its predecessor.\<close>

fun valid_predecessor :: "block \<Rightarrow> block \<Rightarrow> bool" where
  "valid_predecessor (Send_block b) p = (type_of p \<in> {Bt_send, Bt_receive, Bt_open, Bt_change})"
| "valid_predecessor (Receive_block b) p = (type_of p \<in> {Bt_send, Bt_receive, Bt_open, Bt_change})"
| "valid_predecessor (Open_block b) p = False"
| "valid_predecessor (Change_block b) p = (type_of p \<in> {Bt_send, Bt_receive, Bt_open, Bt_change})"
| "valid_predecessor (State_block b) p = True"

lemma valid_predecessor_legacy:
  "type_of b \<noteq> Bt_state \<Longrightarrow> valid_predecessor b p \<Longrightarrow> type_of p \<noteq> Bt_state"
  by (cases b) auto

subsection \<open>Equality\<close>

text \<open>
  \<open>operator==\<close> of the five classes, field by field as written, and \<open>blocks_equal\<close>, which
  compares the types before the contents.
\<close>

definition send_block_eq :: "send_block \<Rightarrow> send_block \<Rightarrow> bool" where
  "send_block_eq a b \<longleftrightarrow>
     send_destination (hashables a) = send_destination (hashables b) \<and>
     send_previous (hashables a) = send_previous (hashables b) \<and>
     send_balance (hashables a) = send_balance (hashables b) \<and>
     work a = work b \<and> signature a = signature b"

definition receive_block_eq :: "receive_block \<Rightarrow> receive_block \<Rightarrow> bool" where
  "receive_block_eq a b \<longleftrightarrow>
     receive_previous (hashables a) = receive_previous (hashables b) \<and>
     receive_source (hashables a) = receive_source (hashables b) \<and>
     work a = work b \<and> signature a = signature b"

definition open_block_eq :: "open_block \<Rightarrow> open_block \<Rightarrow> bool" where
  "open_block_eq a b \<longleftrightarrow>
     open_source (hashables a) = open_source (hashables b) \<and>
     open_representative (hashables a) = open_representative (hashables b) \<and>
     open_account (hashables a) = open_account (hashables b) \<and>
     work a = work b \<and> signature a = signature b"

definition change_block_eq :: "change_block \<Rightarrow> change_block \<Rightarrow> bool" where
  "change_block_eq a b \<longleftrightarrow>
     change_previous (hashables a) = change_previous (hashables b) \<and>
     change_representative (hashables a) = change_representative (hashables b) \<and>
     work a = work b \<and> signature a = signature b"

definition state_block_eq :: "state_block \<Rightarrow> state_block \<Rightarrow> bool" where
  "state_block_eq a b \<longleftrightarrow>
     state_account (hashables a) = state_account (hashables b) \<and>
     state_previous (hashables a) = state_previous (hashables b) \<and>
     state_representative (hashables a) = state_representative (hashables b) \<and>
     state_balance (hashables a) = state_balance (hashables b) \<and>
     state_link (hashables a) = state_link (hashables b) \<and>
     signature a = signature b \<and> work a = work b"

fun blocks_equal :: "block \<Rightarrow> block \<Rightarrow> bool" where
  "blocks_equal (Send_block a) (Send_block b) = send_block_eq b a"
| "blocks_equal (Receive_block a) (Receive_block b) = receive_block_eq b a"
| "blocks_equal (Open_block a) (Open_block b) = open_block_eq b a"
| "blocks_equal (Change_block a) (Change_block b) = change_block_eq b a"
| "blocks_equal (State_block a) (State_block b) = state_block_eq b a"
| "blocks_equal _ _ = False"

section \<open>Hashing\<close>

text \<open>
  The bytes each class feeds to BLAKE2b with successive calls of \<open>blake2b_update\<close>. The
  digest itself, of 32 bytes, is the argument \<open>H\<close>: everything below holds for any digest
  function.
\<close>

definition send_hashables_hash :: "send_hashables \<Rightarrow> byte list" where
  "send_hashables_hash h =
     be_bytes (send_previous h) @ be_bytes (send_destination h) @ be_bytes (send_balance h)"

definition receive_hashables_hash :: "receive_hashables \<Rightarrow> byte list" where
  "receive_hashables_hash h = be_bytes (receive_previous h) @ be_bytes (receive_source h)"

definition open_hashables_hash :: "open_hashables \<Rightarrow> byte list" where
  "open_hashables_hash h =
     be_bytes (open_source h) @ be_bytes (open_representative h) @ be_bytes (open_account h)"

definition change_hashables_hash :: "change_hashables \<Rightarrow> byte list" where
  "change_hashables_hash h = be_bytes (change_previous h) @ be_bytes (change_representative h)"

definition state_hashables_hash :: "state_hashables \<Rightarrow> byte list" where
  "state_hashables_hash h =
     be_bytes (state_account h) @ be_bytes (state_previous h) @
     be_bytes (state_representative h) @ be_bytes (state_balance h) @ be_bytes (state_link h)"

definition state_preamble :: uint256 where
  "state_preamble = 6"

fun hash_input :: "block \<Rightarrow> byte list" where
  "hash_input (Send_block b) = send_hashables_hash (hashables b)"
| "hash_input (Receive_block b) = receive_hashables_hash (hashables b)"
| "hash_input (Open_block b) = open_hashables_hash (hashables b)"
| "hash_input (Change_block b) = change_hashables_hash (hashables b)"
| "hash_input (State_block b) = be_bytes state_preamble @ state_hashables_hash (hashables b)"

definition block_hash :: "(byte list \<Rightarrow> uint256) \<Rightarrow> block \<Rightarrow> uint256" where
  "block_hash H b = H (hash_input b)"

definition full_hash :: "(byte list \<Rightarrow> uint256) \<Rightarrow> block \<Rightarrow> uint256" where
  "full_hash H b =
     H (be_bytes (block_hash H b) @ be_bytes (block_signature b) @ le_bytes (block_work b))"

section \<open>Binary serialisation\<close>

fun block_size :: "block_type \<Rightarrow> nat option" where
  "block_size Bt_invalid = None"
| "block_size Bt_not_a_block = None"
| "block_size Bt_send = Some (32 + 32 + 16 + 64 + 8)"
| "block_size Bt_receive = Some (32 + 32 + 64 + 8)"
| "block_size Bt_open = Some (32 + 32 + 32 + 64 + 8)"
| "block_size Bt_change = Some (32 + 32 + 64 + 8)"
| "block_size Bt_state = Some (32 + 32 + 32 + 16 + 32 + 64 + 8)"
| "block_size (Bt_other b) = Some 0"

definition send_block_serialize :: "send_block \<Rightarrow> stream" where
  "send_block_serialize b =
     be_bytes (send_previous (hashables b)) @ be_bytes (send_destination (hashables b)) @
     be_bytes (send_balance (hashables b)) @ be_bytes (signature b) @ le_bytes (work b)"

definition receive_block_serialize :: "receive_block \<Rightarrow> stream" where
  "receive_block_serialize b =
     be_bytes (receive_previous (hashables b)) @ be_bytes (receive_source (hashables b)) @
     be_bytes (signature b) @ le_bytes (work b)"

definition open_block_serialize :: "open_block \<Rightarrow> stream" where
  "open_block_serialize b =
     be_bytes (open_source (hashables b)) @ be_bytes (open_representative (hashables b)) @
     be_bytes (open_account (hashables b)) @ be_bytes (signature b) @ le_bytes (work b)"

definition change_block_serialize :: "change_block \<Rightarrow> stream" where
  "change_block_serialize b =
     be_bytes (change_previous (hashables b)) @ be_bytes (change_representative (hashables b)) @
     be_bytes (signature b) @ le_bytes (work b)"

text \<open>Only state blocks write the work value in network byte order.\<close>

definition state_block_serialize :: "state_block \<Rightarrow> stream" where
  "state_block_serialize b =
     be_bytes (state_account (hashables b)) @ be_bytes (state_previous (hashables b)) @
     be_bytes (state_representative (hashables b)) @ be_bytes (state_balance (hashables b)) @
     be_bytes (state_link (hashables b)) @ be_bytes (signature b) @ be_bytes (work b)"

fun serialize :: "block \<Rightarrow> stream" where
  "serialize (Send_block b) = send_block_serialize b"
| "serialize (Receive_block b) = receive_block_serialize b"
| "serialize (Open_block b) = open_block_serialize b"
| "serialize (Change_block b) = change_block_serialize b"
| "serialize (State_block b) = state_block_serialize b"

definition serialize_block :: "block \<Rightarrow> stream" where
  "serialize_block b = le_bytes (byte_of_block_type (type_of b)) @ serialize b"

subsection \<open>Constructors from a stream\<close>

definition send_hashables_read :: "stream \<Rightarrow> (send_hashables \<times> stream) option" where
  "send_hashables_read s = do {
     (p, s) \<leftarrow> read_union s;
     (d, s) \<leftarrow> read_union s;
     (b, s) \<leftarrow> read_union s;
     Some (\<lparr>send_previous = p, send_destination = d, send_balance = b\<rparr>, s) }"

definition receive_hashables_read :: "stream \<Rightarrow> (receive_hashables \<times> stream) option" where
  "receive_hashables_read s = do {
     (p, s) \<leftarrow> read_union s;
     (r, s) \<leftarrow> read_union s;
     Some (\<lparr>receive_previous = p, receive_source = r\<rparr>, s) }"

definition open_hashables_read :: "stream \<Rightarrow> (open_hashables \<times> stream) option" where
  "open_hashables_read s = do {
     (r, s) \<leftarrow> read_union s;
     (e, s) \<leftarrow> read_union s;
     (a, s) \<leftarrow> read_union s;
     Some (\<lparr>open_source = r, open_representative = e, open_account = a\<rparr>, s) }"

definition change_hashables_read :: "stream \<Rightarrow> (change_hashables \<times> stream) option" where
  "change_hashables_read s = do {
     (p, s) \<leftarrow> read_union s;
     (e, s) \<leftarrow> read_union s;
     Some (\<lparr>change_previous = p, change_representative = e\<rparr>, s) }"

definition state_hashables_read :: "stream \<Rightarrow> (state_hashables \<times> stream) option" where
  "state_hashables_read s = do {
     (a, s) \<leftarrow> read_union s;
     (p, s) \<leftarrow> read_union s;
     (e, s) \<leftarrow> read_union s;
     (b, s) \<leftarrow> read_union s;
     (l, s) \<leftarrow> read_union s;
     Some (\<lparr>state_account = a, state_previous = p, state_representative = e,
            state_balance = b, state_link = l\<rparr>, s) }"

definition send_block_read :: "stream \<Rightarrow> (send_block \<times> stream) option" where
  "send_block_read s = do {
     (h, s) \<leftarrow> send_hashables_read s;
     (g, s) \<leftarrow> read_union s;
     (w, s) \<leftarrow> read_int s;
     Some (\<lparr>hashables = h, signature = g, work = w\<rparr>, s) }"

definition receive_block_read :: "stream \<Rightarrow> (receive_block \<times> stream) option" where
  "receive_block_read s = do {
     (h, s) \<leftarrow> receive_hashables_read s;
     (g, s) \<leftarrow> read_union s;
     (w, s) \<leftarrow> read_int s;
     Some (\<lparr>hashables = h, signature = g, work = w\<rparr>, s) }"

definition open_block_read :: "stream \<Rightarrow> (open_block \<times> stream) option" where
  "open_block_read s = do {
     (h, s) \<leftarrow> open_hashables_read s;
     (g, s) \<leftarrow> read_union s;
     (w, s) \<leftarrow> read_int s;
     Some (\<lparr>hashables = h, signature = g, work = w\<rparr>, s) }"

definition change_block_read :: "stream \<Rightarrow> (change_block \<times> stream) option" where
  "change_block_read s = do {
     (h, s) \<leftarrow> change_hashables_read s;
     (g, s) \<leftarrow> read_union s;
     (w, s) \<leftarrow> read_int s;
     Some (\<lparr>hashables = h, signature = g, work = w\<rparr>, s) }"

definition state_block_read :: "stream \<Rightarrow> (state_block \<times> stream) option" where
  "state_block_read s = do {
     (h, s) \<leftarrow> state_hashables_read s;
     (g, s) \<leftarrow> read_union s;
     (w, s) \<leftarrow> read_union s;
     Some (\<lparr>hashables = h, signature = g, work = w\<rparr>, s) }"

text \<open>
  \<open>deserialize_block\<close> with a given type: the outer \<open>None\<close> is the failed assertion of the
  default case, the inner one the null pointer of a constructor that reported an error.
\<close>

fun deserialize_block :: "block_type \<Rightarrow> stream \<Rightarrow> (block \<times> stream) option option" where
  "deserialize_block Bt_receive s = Some (map_option (apfst Receive_block) (receive_block_read s))"
| "deserialize_block Bt_send s = Some (map_option (apfst Send_block) (send_block_read s))"
| "deserialize_block Bt_open s = Some (map_option (apfst Open_block) (open_block_read s))"
| "deserialize_block Bt_change s = Some (map_option (apfst Change_block) (change_block_read s))"
| "deserialize_block Bt_state s = Some (map_option (apfst State_block) (state_block_read s))"
| "deserialize_block _ s = None"

definition deserialize_block_stream :: "stream \<Rightarrow> (block \<times> stream) option option" where
  "deserialize_block_stream s =
     (case read_int s of
        None \<Rightarrow> Some None
      | Some (t, s) \<Rightarrow> deserialize_block (block_type_of_byte t) s)"

section \<open>Round trips\<close>

lemma send_hashables_read_iff [codec_simps]:
  "send_hashables_read s = Some (h, r) \<longleftrightarrow> s = send_hashables_hash h @ r"
  by (cases h) (auto simp: send_hashables_read_def send_hashables_hash_def bind_eq_Some_conv codec_simps)

lemma receive_hashables_read_iff [codec_simps]:
  "receive_hashables_read s = Some (h, r) \<longleftrightarrow> s = receive_hashables_hash h @ r"
  by (cases h) (auto simp: receive_hashables_read_def receive_hashables_hash_def bind_eq_Some_conv codec_simps)

lemma open_hashables_read_iff [codec_simps]:
  "open_hashables_read s = Some (h, r) \<longleftrightarrow> s = open_hashables_hash h @ r"
  by (cases h) (auto simp: open_hashables_read_def open_hashables_hash_def bind_eq_Some_conv codec_simps)

lemma change_hashables_read_iff [codec_simps]:
  "change_hashables_read s = Some (h, r) \<longleftrightarrow> s = change_hashables_hash h @ r"
  by (cases h) (auto simp: change_hashables_read_def change_hashables_hash_def bind_eq_Some_conv codec_simps)

lemma state_hashables_read_iff [codec_simps]:
  "state_hashables_read s = Some (h, r) \<longleftrightarrow> s = state_hashables_hash h @ r"
  by (cases h) (auto simp: state_hashables_read_def state_hashables_hash_def bind_eq_Some_conv codec_simps)

interpretation send_codec: fixed_codec send_block_serialize send_block_read 152
proof
  fix s r :: stream and x :: send_block
  show "send_block_read s = Some (x, r) \<longleftrightarrow> s = send_block_serialize x @ r"
    by (cases x) (auto simp: send_block_read_def send_block_serialize_def send_hashables_hash_def
        bind_eq_Some_conv codec_simps)
  show "length (send_block_serialize x) = 152"
    by (simp add: send_block_serialize_def)
  show "\<exists>x r. send_block_read s = Some (x, r)" if "152 \<le> length s"
    using that by (auto simp: send_block_read_def send_hashables_read_def read_union_def read_int_def try_read_def)
qed

interpretation receive_codec: fixed_codec receive_block_serialize receive_block_read 136
proof
  fix s r :: stream and x :: receive_block
  show "receive_block_read s = Some (x, r) \<longleftrightarrow> s = receive_block_serialize x @ r"
    by (cases x) (auto simp: receive_block_read_def receive_block_serialize_def receive_hashables_hash_def
        bind_eq_Some_conv codec_simps)
  show "length (receive_block_serialize x) = 136"
    by (simp add: receive_block_serialize_def)
  show "\<exists>x r. receive_block_read s = Some (x, r)" if "136 \<le> length s"
    using that by (auto simp: receive_block_read_def receive_hashables_read_def read_union_def read_int_def try_read_def)
qed

interpretation open_codec: fixed_codec open_block_serialize open_block_read 168
proof
  fix s r :: stream and x :: open_block
  show "open_block_read s = Some (x, r) \<longleftrightarrow> s = open_block_serialize x @ r"
    by (cases x) (auto simp: open_block_read_def open_block_serialize_def open_hashables_hash_def
        bind_eq_Some_conv codec_simps)
  show "length (open_block_serialize x) = 168"
    by (simp add: open_block_serialize_def)
  show "\<exists>x r. open_block_read s = Some (x, r)" if "168 \<le> length s"
    using that by (auto simp: open_block_read_def open_hashables_read_def read_union_def read_int_def try_read_def)
qed

interpretation change_codec: fixed_codec change_block_serialize change_block_read 136
proof
  fix s r :: stream and x :: change_block
  show "change_block_read s = Some (x, r) \<longleftrightarrow> s = change_block_serialize x @ r"
    by (cases x) (auto simp: change_block_read_def change_block_serialize_def change_hashables_hash_def
        bind_eq_Some_conv codec_simps)
  show "length (change_block_serialize x) = 136"
    by (simp add: change_block_serialize_def)
  show "\<exists>x r. change_block_read s = Some (x, r)" if "136 \<le> length s"
    using that by (auto simp: change_block_read_def change_hashables_read_def read_union_def read_int_def try_read_def)
qed

interpretation state_codec: fixed_codec state_block_serialize state_block_read 216
proof
  fix s r :: stream and x :: state_block
  show "state_block_read s = Some (x, r) \<longleftrightarrow> s = state_block_serialize x @ r"
    by (cases x) (auto simp: state_block_read_def state_block_serialize_def state_hashables_hash_def
        bind_eq_Some_conv codec_simps)
  show "length (state_block_serialize x) = 216"
    by (simp add: state_block_serialize_def)
  show "\<exists>x r. state_block_read s = Some (x, r)" if "216 \<le> length s"
    using that by (auto simp: state_block_read_def state_hashables_read_def read_union_def read_int_def try_read_def)
qed

lemmas block_read_iff [codec_simps] =
  send_codec.dec_iff receive_codec.dec_iff open_codec.dec_iff change_codec.dec_iff
  state_codec.dec_iff

lemma deserialize_block_iff:
  "deserialize_block t s = Some (Some (b, r)) \<longleftrightarrow> t = type_of b \<and> s = serialize b @ r"
proof (cases t)
  case Bt_send
  then show ?thesis by (cases b) (auto simp: codec_simps)
next
  case Bt_receive
  then show ?thesis by (cases b) (auto simp: codec_simps)
next
  case Bt_open
  then show ?thesis by (cases b) (auto simp: codec_simps)
next
  case Bt_change
  then show ?thesis by (cases b) (auto simp: codec_simps)
next
  case Bt_state
  then show ?thesis by (cases b) (auto simp: codec_simps)
qed (cases b; simp)+

lemma deserialize_serialize [simp]:
  "deserialize_block (type_of b) (serialize b @ r) = Some (Some (b, r))"
  by (simp add: deserialize_block_iff)

lemma length_serialize: "block_size (type_of b) = Some (length (serialize b))"
  by (cases b) (simp_all add: send_codec.length_enc receive_codec.length_enc
      open_codec.length_enc change_codec.length_enc state_codec.length_enc)

text \<open>Reading a block of a known type fails exactly on a stream shorter than the type's size.\<close>

lemma deserialize_block_null:
  "deserialize_block t s = Some None \<longleftrightarrow>
     t \<in> {Bt_send, Bt_receive, Bt_open, Bt_change, Bt_state} \<and> length s < the (block_size t)"
  by (cases t) (simp_all add: send_codec.dec_None_iff receive_codec.dec_None_iff
      open_codec.dec_None_iff change_codec.dec_None_iff state_codec.dec_None_iff)

lemma serialize_block_typed [simp]:
  "block_type_of_byte (byte_of_block_type (type_of b)) = type_of b"
  by (cases b) (simp_all add: block_type_of_byte_def)

lemma deserialize_block_stream_iff:
  "deserialize_block_stream s = Some (Some (b, r)) \<longleftrightarrow> s = serialize_block b @ r"
proof -
  have "block_type_of_byte t = type_of b \<longleftrightarrow> t = byte_of_block_type (type_of b)" for t
    by (metis byte_of_block_type_of_byte serialize_block_typed)
  then show ?thesis
    by (auto simp: deserialize_block_stream_def serialize_block_def deserialize_block_iff
        codec_simps le_bytes_byte split: option.splits)
qed

lemma serialize_block_inject: "serialize_block b = serialize_block c \<longleftrightarrow> b = c"
  using deserialize_block_stream_iff [of "serialize_block b" b "[]"]
    deserialize_block_stream_iff [of "serialize_block b" c "[]"] by auto

section \<open>Equality and hashing\<close>

lemma blocks_equal_eq: "blocks_equal a b \<longleftrightarrow> a = b"
proof (cases a)
  case (Send_block x)
  then show ?thesis
    by (cases b) (auto simp: send_block_eq_def intro!: signed.equality send_hashables.equality)
next
  case (Receive_block x)
  then show ?thesis
    by (cases b) (auto simp: receive_block_eq_def intro!: signed.equality receive_hashables.equality)
next
  case (Open_block x)
  then show ?thesis
    by (cases b) (auto simp: open_block_eq_def intro!: signed.equality open_hashables.equality)
next
  case (Change_block x)
  then show ?thesis
    by (cases b) (auto simp: change_block_eq_def intro!: signed.equality change_hashables.equality)
next
  case (State_block x)
  then show ?thesis
    by (cases b) (auto simp: state_block_eq_def intro!: signed.equality state_hashables.equality)
qed

lemma hash_input_length:
  "length (hash_input b) =
     (case b of Send_block _ \<Rightarrow> 80 | Receive_block _ \<Rightarrow> 64 | Open_block _ \<Rightarrow> 96
      | Change_block _ \<Rightarrow> 64 | State_block _ \<Rightarrow> 176)"
  by (cases b) (simp_all add: send_hashables_hash_def receive_hashables_hash_def
      open_hashables_hash_def change_hashables_hash_def state_hashables_hash_def)

lemma hashables_hash_inject:
  "send_hashables_hash g1 = send_hashables_hash h1 \<longleftrightarrow> g1 = h1"
  "receive_hashables_hash g2 = receive_hashables_hash h2 \<longleftrightarrow> g2 = h2"
  "open_hashables_hash g3 = open_hashables_hash h3 \<longleftrightarrow> g3 = h3"
  "change_hashables_hash g4 = change_hashables_hash h4 \<longleftrightarrow> g4 = h4"
  "state_hashables_hash g5 = state_hashables_hash h5 \<longleftrightarrow> g5 = h5"
  using send_hashables_read_iff [of "send_hashables_hash g1" _ "[]"]
    receive_hashables_read_iff [of "receive_hashables_hash g2" _ "[]"]
    open_hashables_read_iff [of "open_hashables_hash g3" _ "[]"]
    change_hashables_read_iff [of "change_hashables_hash g4" _ "[]"]
    state_hashables_read_iff [of "state_hashables_hash g5" _ "[]"]
  by (metis append_Nil2 option.inject prod.inject)+

lemma hash_input_type:
  assumes "hash_input a = hash_input b"
  shows "type_of a = type_of b \<or> type_of a \<in> {Bt_receive, Bt_change} \<and> type_of b \<in> {Bt_receive, Bt_change}"
  using arg_cong [OF assms, of length] unfolding hash_input_length by (cases a; cases b) simp_all

lemma receive_change_hash:
  "receive_hashables_hash r = change_hashables_hash c \<longleftrightarrow>
     receive_previous r = change_previous c \<and> receive_source r = change_representative c"
  by (simp add: receive_hashables_hash_def change_hashables_hash_def u256.enc_inject)

lemma hash_input_previous:
  assumes "hash_input a = hash_input b"
  shows "previous a = previous b"
  using assms hash_input_type [OF assms] receive_change_hash
  by (cases a; cases b) (auto simp: hashables_hash_inject dest: sym)

end
