(* ===== verification/Common.thy ===== *)
theory Common
  imports Blocks
begin

text \<open>
  The records of \<open>nano/secure/common.hpp\<close>, \<open>nano/secure/common.cpp\<close> and the sideband of
  \<open>nano/secure/blockstore.cpp\<close>: what the ledger keeps of an account, of an uncollected send
  and of a block, with the serialisers that write them to the database.
\<close>

section \<open>Epochs\<close>

datatype epoch = Epoch_invalid | Epoch_unspecified | Epoch_0 | Epoch_1

fun epoch_value :: "epoch \<Rightarrow> nat" where
  "epoch_value Epoch_invalid = 0"
| "epoch_value Epoch_unspecified = 1"
| "epoch_value Epoch_0 = 2"
| "epoch_value Epoch_1 = 3"

lemma epoch_value_inject: "epoch_value a = epoch_value b \<longleftrightarrow> a = b"
  by (cases a; cases b) simp_all

text \<open>\<open>std::max\<close> on epochs compares the underlying values.\<close>

instantiation epoch :: linorder
begin

definition less_eq_epoch :: "epoch \<Rightarrow> epoch \<Rightarrow> bool" where
  "less_eq_epoch a b \<longleftrightarrow> epoch_value a \<le> epoch_value b"

definition less_epoch :: "epoch \<Rightarrow> epoch \<Rightarrow> bool" where
  "less_epoch a b \<longleftrightarrow> epoch_value a < epoch_value b"

instance
  by standard (auto simp: less_eq_epoch_def less_epoch_def epoch_value_inject)

end

section \<open>Accounts, pending sends, block information\<close>

record account_info =
  head :: uint256
  rep_block :: uint256
  open_block :: uint256
  info_balance :: uint128
  modified :: uint64
  block_count :: uint64
  info_epoch :: epoch

definition account_info_init :: account_info where
  "account_info_init = \<lparr>head = 0, rep_block = 0, open_block = 0, info_balance = 0,
     modified = 0, block_count = 0, info_epoch = Epoch_0\<rparr>"

text \<open>The epoch is not written: the table an account is kept in tells it.\<close>

definition account_info_serialize :: "account_info \<Rightarrow> stream" where
  "account_info_serialize i =
     be_bytes (head i) @ be_bytes (rep_block i) @ be_bytes (open_block i) @
     be_bytes (info_balance i) @ le_bytes (modified i) @ le_bytes (block_count i)"

definition account_info_deserialize :: "epoch \<Rightarrow> stream \<Rightarrow> (account_info \<times> stream) option" where
  "account_info_deserialize e s = do {
     (h, s) \<leftarrow> read_union s;
     (r, s) \<leftarrow> read_union s;
     (p, s) \<leftarrow> read_union s;
     (b, s) \<leftarrow> read_union s;
     (m, s) \<leftarrow> read_int s;
     (c, s) \<leftarrow> read_int s;
     Some (\<lparr>head = h, rep_block = r, open_block = p, info_balance = b, modified = m,
            block_count = c, info_epoch = e\<rparr>, s) }"

definition account_info_db_size :: nat where
  "account_info_db_size = 32 + 32 + 32 + 16 + 8 + 8"

definition account_info_eq :: "account_info \<Rightarrow> account_info \<Rightarrow> bool" where
  "account_info_eq a b \<longleftrightarrow>
     head a = head b \<and> rep_block a = rep_block b \<and> open_block a = open_block b \<and>
     info_balance a = info_balance b \<and> modified a = modified b \<and>
     block_count a = block_count b \<and> info_epoch a = info_epoch b"

record block_counts =
  count_send :: uint64
  count_receive :: uint64
  count_open :: uint64
  count_change :: uint64
  count_state_v0 :: uint64
  count_state_v1 :: uint64

definition block_counts_sum :: "block_counts \<Rightarrow> uint64" where
  "block_counts_sum c = count_send c + count_receive c + count_open c + count_change c +
     count_state_v0 c + count_state_v1 c"

record pending_info =
  pending_source :: uint256
  pending_amount :: uint128
  pending_epoch :: epoch

definition pending_info_serialize :: "pending_info \<Rightarrow> stream" where
  "pending_info_serialize p = be_bytes (pending_source p) @ be_bytes (pending_amount p)"

definition pending_info_deserialize :: "epoch \<Rightarrow> stream \<Rightarrow> (pending_info \<times> stream) option" where
  "pending_info_deserialize e s = do {
     (r, s) \<leftarrow> read_union s;
     (a, s) \<leftarrow> read_union s;
     Some (\<lparr>pending_source = r, pending_amount = a, pending_epoch = e\<rparr>, s) }"

datatype pending_key = Pending_key (key_account: uint256) (key_hash: uint256)

text \<open>The database orders keys by their bytes, the account before the hash.\<close>

instantiation pending_key :: linorder
begin

definition less_eq_pending_key :: "pending_key \<Rightarrow> pending_key \<Rightarrow> bool" where
  "less_eq_pending_key a b \<longleftrightarrow> key_account a < key_account b \<or>
     key_account a = key_account b \<and> key_hash a \<le> key_hash b"

definition less_pending_key :: "pending_key \<Rightarrow> pending_key \<Rightarrow> bool" where
  "less_pending_key a b \<longleftrightarrow> key_account a < key_account b \<or>
     key_account a = key_account b \<and> key_hash a < key_hash b"

instance
  by standard (auto simp: less_eq_pending_key_def less_pending_key_def intro: pending_key.expand)

end

definition pending_key_serialize :: "pending_key \<Rightarrow> stream" where
  "pending_key_serialize k = be_bytes (key_account k) @ be_bytes (key_hash k)"

definition pending_key_deserialize :: "stream \<Rightarrow> (pending_key \<times> stream) option" where
  "pending_key_deserialize s = do {
     (a, s) \<leftarrow> read_union s;
     (h, s) \<leftarrow> read_union s;
     Some (Pending_key a h, s) }"

definition pending_key_key :: "pending_key \<Rightarrow> uint256" where
  "pending_key_key k = key_account k"

datatype signature_verification =
  Sv_unknown | Sv_invalid | Sv_valid | Sv_valid_epoch | Sv_other byte

fun byte_of_verification :: "signature_verification \<Rightarrow> byte" where
  "byte_of_verification Sv_unknown = 0"
| "byte_of_verification Sv_invalid = 1"
| "byte_of_verification Sv_valid = 2"
| "byte_of_verification Sv_valid_epoch = 3"
| "byte_of_verification (Sv_other b) = b"

definition verification_of_byte :: "byte \<Rightarrow> signature_verification" where
  "verification_of_byte b =
     (if b = 0 then Sv_unknown else if b = 1 then Sv_invalid else if b = 2 then Sv_valid
      else if b = 3 then Sv_valid_epoch else Sv_other b)"

record unchecked_info =
  unchecked_block :: block
  unchecked_account :: uint256
  unchecked_modified :: uint64
  verified :: signature_verification

definition unchecked_info_serialize :: "unchecked_info \<Rightarrow> stream" where
  "unchecked_info_serialize u =
     serialize_block (unchecked_block u) @ be_bytes (unchecked_account u) @
     le_bytes (unchecked_modified u) @ le_bytes (byte_of_verification (verified u))"

definition unchecked_info_deserialize :: "stream \<Rightarrow> (unchecked_info \<times> stream) option option" where
  "unchecked_info_deserialize s = do {
     r \<leftarrow> deserialize_block_stream s;
     Some (case r of
       None \<Rightarrow> None
     | Some (b, s) \<Rightarrow> do {
         (a, s) \<leftarrow> read_union s;
         (m, s) \<leftarrow> read_int s;
         (v, s) \<leftarrow> read_int s;
         Some (\<lparr>unchecked_block = b, unchecked_account = a, unchecked_modified = m,
                verified = verification_of_byte v\<rparr>, s) }) }"

record block_info =
  bi_account :: uint256
  bi_balance :: uint128

definition block_info_serialize :: "block_info \<Rightarrow> stream" where
  "block_info_serialize i = be_bytes (bi_account i) @ be_bytes (bi_balance i)"

definition block_info_deserialize :: "stream \<Rightarrow> (block_info \<times> stream) option" where
  "block_info_deserialize s = do {
     (a, s) \<leftarrow> read_union s;
     (b, s) \<leftarrow> read_union s;
     Some (\<lparr>bi_account = a, bi_balance = b\<rparr>, s) }"

record endpoint_key =
  address :: "byte list"
  network_port :: uint16

definition bswap16 :: "uint16 \<Rightarrow> uint16" where
  "bswap16 p = of_le_bytes (rev (le_bytes p))"

definition endpoint_key_make :: "byte list \<Rightarrow> uint16 \<Rightarrow> endpoint_key" where
  "endpoint_key_make a p = \<lparr>address = a, network_port = bswap16 p\<rparr>"

definition endpoint_key_port :: "endpoint_key \<Rightarrow> uint16" where
  "endpoint_key_port k = bswap16 (network_port k)"

section \<open>Block sideband\<close>

record block_sideband =
  sb_type :: block_type
  successor :: uint256
  sb_account :: uint256
  sb_balance :: uint128
  height :: uint64
  timestamp :: uint64

definition sideband_size :: "block_type \<Rightarrow> nat" where
  "sideband_size t =
     32 + (if t \<noteq> Bt_state \<and> t \<noteq> Bt_open then 32 else 0) +
     (if t \<noteq> Bt_open then 8 else 0) +
     (if t = Bt_receive \<or> t = Bt_change \<or> t = Bt_open then 16 else 0) + 8"

definition sideband_serialize :: "block_sideband \<Rightarrow> stream" where
  "sideband_serialize b =
     be_bytes (successor b) @
     (if sb_type b \<noteq> Bt_state \<and> sb_type b \<noteq> Bt_open then be_bytes (sb_account b) else []) @
     (if sb_type b \<noteq> Bt_open then be_bytes (height b) else []) @
     (if sb_type b = Bt_receive \<or> sb_type b = Bt_change \<or> sb_type b = Bt_open
      then be_bytes (sb_balance b) else []) @
     be_bytes (timestamp b)"

text \<open>
  \<open>deserialize\<close> fills in the fields that were written and leaves the others of the
  sideband \<open>b\<close> it is called on as they are; \<open>height\<close> of an open block is set to 1.
\<close>

definition sideband_deserialize :: "block_sideband \<Rightarrow> stream \<Rightarrow> (block_sideband \<times> stream) option" where
  "sideband_deserialize b s = do {
     (x, s) \<leftarrow> read_union s;
     let b = b\<lparr>successor := x\<rparr>;
     (b, s) \<leftarrow> (if sb_type b \<noteq> Bt_state \<and> sb_type b \<noteq> Bt_open
                then do { (a, s) \<leftarrow> read_union s; Some (b\<lparr>sb_account := a\<rparr>, s) } else Some (b, s));
     (b, s) \<leftarrow> (if sb_type b \<noteq> Bt_open
                then do { (h, s) \<leftarrow> read_union s; Some (b\<lparr>height := h\<rparr>, s) }
                else Some (b\<lparr>height := 1\<rparr>, s));
     (b, s) \<leftarrow> (if sb_type b = Bt_receive \<or> sb_type b = Bt_change \<or> sb_type b = Bt_open
                then do { (v, s) \<leftarrow> read_union s; Some (b\<lparr>sb_balance := v\<rparr>, s) } else Some (b, s));
     (t, s) \<leftarrow> read_union s;
     Some (b\<lparr>timestamp := t\<rparr>, s) }"

section \<open>Round trips\<close>

lemma account_info_deserialize_iff [codec_simps]:
  "account_info_deserialize e s = Some (i, r) \<longleftrightarrow>
     info_epoch i = e \<and> s = account_info_serialize i @ r"
  by (cases i) (auto simp: account_info_deserialize_def account_info_serialize_def
      bind_eq_Some_conv codec_simps)

lemma length_account_info_serialize: "length (account_info_serialize i) = account_info_db_size"
  by (simp add: account_info_serialize_def account_info_db_size_def)

lemma account_info_eq_eq: "account_info_eq a b \<longleftrightarrow> a = b"
  by (auto simp: account_info_eq_def intro: account_info.equality)

lemma pending_info_deserialize_iff [codec_simps]:
  "pending_info_deserialize e s = Some (p, r) \<longleftrightarrow>
     pending_epoch p = e \<and> s = pending_info_serialize p @ r"
  by (cases p) (auto simp: pending_info_deserialize_def pending_info_serialize_def
      bind_eq_Some_conv codec_simps)

interpretation pending_key_codec: fixed_codec pending_key_serialize pending_key_deserialize 64
proof
  fix s r :: stream and x :: pending_key
  show "pending_key_deserialize s = Some (x, r) \<longleftrightarrow> s = pending_key_serialize x @ r"
    by (cases x) (auto simp: pending_key_deserialize_def pending_key_serialize_def
        bind_eq_Some_conv codec_simps)
  show "length (pending_key_serialize x) = 64"
    by (simp add: pending_key_serialize_def)
  show "\<exists>x r. pending_key_deserialize s = Some (x, r)" if "64 \<le> length s"
    using that by (auto simp: pending_key_deserialize_def read_union_def try_read_def)
qed

interpretation block_info_codec: fixed_codec block_info_serialize block_info_deserialize 48
proof
  fix s r :: stream and x :: block_info
  show "block_info_deserialize s = Some (x, r) \<longleftrightarrow> s = block_info_serialize x @ r"
    by (cases x) (auto simp: block_info_deserialize_def block_info_serialize_def
        bind_eq_Some_conv codec_simps)
  show "length (block_info_serialize x) = 48"
    by (simp add: block_info_serialize_def)
  show "\<exists>x r. block_info_deserialize s = Some (x, r)" if "48 \<le> length s"
    using that by (auto simp: block_info_deserialize_def read_union_def try_read_def)
qed

definition verification_enumerator :: "signature_verification \<Rightarrow> bool" where
  "verification_enumerator v \<longleftrightarrow> (\<forall>b. v = Sv_other b \<longrightarrow> 4 \<le> b)"

lemma verification_round_trip:
  "verification_enumerator v \<Longrightarrow> verification_of_byte (byte_of_verification v) = v"
  by (cases v) (auto simp: verification_of_byte_def verification_enumerator_def word_le_nat_alt)

lemma byte_of_verification_of_byte [simp]: "byte_of_verification (verification_of_byte b) = b"
  by (simp add: verification_of_byte_def)

lemma unchecked_info_deserialize_serialize:
  "verification_enumerator (verified u) \<Longrightarrow>
   unchecked_info_deserialize (unchecked_info_serialize u @ r) = Some (Some (u, r))"
proof -
  assume v: "verification_enumerator (verified u)"
  have b: "deserialize_block_stream (serialize_block b @ s) = Some (Some (b, s))" for b s
    by (simp add: deserialize_block_stream_iff)
  have w: "read_int (le_bytes c @ r) = Some (c, r)" for c :: byte and r
    by (simp add: codec_simps)
  show ?thesis
    by (cases u) (use v in \<open>simp add: unchecked_info_deserialize_def unchecked_info_serialize_def
        b w u256.dec_enc u64.dec_enc verification_round_trip\<close>)
qed

lemma bswap16_bswap16 [simp]: "bswap16 (bswap16 p) = p"
  by (simp add: bswap16_def le_bytes_of_le_bytes of_le_bytes_le_bytes)

lemma endpoint_key_port_make: "endpoint_key_port (endpoint_key_make a p) = p"
  by (simp add: endpoint_key_port_def endpoint_key_make_def)

lemma length_sideband_serialize: "length (sideband_serialize b) = sideband_size (sb_type b)"
  by (simp add: sideband_serialize_def sideband_size_def)

text \<open>What a read of the sideband returns, given the record \<open>b0\<close> it is read into.\<close>

definition sideband_read_back :: "block_sideband \<Rightarrow> block_sideband \<Rightarrow> block_sideband" where
  "sideband_read_back b0 b =
     \<lparr>sb_type = sb_type b, successor = successor b,
      sb_account = (if sb_type b \<in> {Bt_state, Bt_open} then sb_account b0 else sb_account b),
      sb_balance = (if sb_type b \<in> {Bt_receive, Bt_change, Bt_open} then sb_balance b
                    else sb_balance b0),
      height = (if sb_type b = Bt_open then 1 else height b),
      timestamp = timestamp b\<rparr>"

lemma sideband_deserialize_serialize:
  assumes "sb_type b0 = sb_type b"
  shows "sideband_deserialize b0 (sideband_serialize b @ r) = Some (sideband_read_back b0 b, r)"
  using assms
  by (cases "sb_type b")
     (simp_all add: sideband_deserialize_def sideband_serialize_def sideband_read_back_def
       u256.dec_enc u64_be.dec_enc u128.dec_enc)

end
