(* ===== verification/Block_Store.thy ===== *)
theory Block_Store
  imports Common
begin

text \<open>
  The block store: the tables of \<open>nano::mdb_store\<close> (\<open>nano/node/lmdb.cpp\<close>) behind the
  interface \<open>nano::block_store\<close> (\<open>nano/secure/blockstore.hpp\<close>). A table is a map from keys
  to the values written under them; a transaction is the store itself, passed along. A
  store is one that has finished its sideband upgrade (database version 13), so every
  block entry carries a full sideband. \<open>None\<close> as the result of an operation is a failed
  \<open>assert\<close> or \<open>release_assert\<close>, or the use of a null pointer.
\<close>

section \<open>Tables\<close>

datatype dbi = Db_send | Db_receive | Db_open | Db_change | Db_state_v0 | Db_state_v1

type_synonym block_entry = "block \<times> block_sideband"

record store =
  block_tables :: "dbi \<Rightarrow> uint256 \<rightharpoonup> block_entry"
  frontiers :: "uint256 \<rightharpoonup> uint256"
  accounts_v0 :: "uint256 \<rightharpoonup> account_info"
  accounts_v1 :: "uint256 \<rightharpoonup> account_info"
  pending_v0 :: "pending_key \<rightharpoonup> pending_info"
  pending_v1 :: "pending_key \<rightharpoonup> pending_info"
  representation :: "uint256 \<rightharpoonup> uint128"

definition store_init :: store where
  "store_init = \<lparr>block_tables = (\<lambda>_. Map.empty), frontiers = Map.empty,
     accounts_v0 = Map.empty, accounts_v1 = Map.empty, pending_v0 = Map.empty,
     pending_v1 = Map.empty, representation = Map.empty\<rparr>"

text \<open>A database iterator is the ascending list of the keys it has still to visit.\<close>

definition keys_from :: "('k::linorder \<rightharpoonup> 'v) \<Rightarrow> 'k \<Rightarrow> 'k list" where
  "keys_from m k = sorted_list_of_set {j \<in> dom m. k \<le> j}"

text \<open>\<open>mdb_merge_iterator\<close> shows the smaller of the two keys its iterators stand at.\<close>

fun least_iterator :: "'k::linorder list \<Rightarrow> 'k list \<Rightarrow> 'k option" where
  "least_iterator [] [] = None"
| "least_iterator [] (j # js) = Some j"
| "least_iterator (i # is) [] = Some i"
| "least_iterator (i # is) (j # js) = Some (if i < j then i else j)"

section \<open>Blocks\<close>

fun block_database :: "block_type \<Rightarrow> epoch \<Rightarrow> dbi option" where
  "block_database Bt_state e =
     (case e of Epoch_0 \<Rightarrow> Some Db_state_v0 | Epoch_1 \<Rightarrow> Some Db_state_v1 | _ \<Rightarrow> None)"
| "block_database Bt_send e = (if e = Epoch_0 then Some Db_send else None)"
| "block_database Bt_receive e = (if e = Epoch_0 then Some Db_receive else None)"
| "block_database Bt_open e = (if e = Epoch_0 then Some Db_open else None)"
| "block_database Bt_change e = (if e = Epoch_0 then Some Db_change else None)"
| "block_database _ e = None"

definition block_raw_put :: "store \<Rightarrow> dbi \<Rightarrow> uint256 \<Rightarrow> block_entry \<Rightarrow> store" where
  "block_raw_put s db h e =
     s\<lparr>block_tables := (block_tables s)(db := (block_tables s db)(h \<mapsto> e))\<rparr>"

fun block_raw_get_by_type :: "store \<Rightarrow> uint256 \<Rightarrow> block_type \<Rightarrow> block_entry option" where
  "block_raw_get_by_type s h Bt_send = block_tables s Db_send h"
| "block_raw_get_by_type s h Bt_receive = block_tables s Db_receive h"
| "block_raw_get_by_type s h Bt_open = block_tables s Db_open h"
| "block_raw_get_by_type s h Bt_change = block_tables s Db_change h"
| "block_raw_get_by_type s h Bt_state =
     (case block_tables s Db_state_v1 h of
        Some e \<Rightarrow> Some e
      | None \<Rightarrow> block_tables s Db_state_v0 h)"
| "block_raw_get_by_type s h _ = None"

fun block_raw_get_types :: "store \<Rightarrow> uint256 \<Rightarrow> block_type list \<Rightarrow> (block_type \<times> block_entry) option" where
  "block_raw_get_types s h [] = None"
| "block_raw_get_types s h (t # ts) =
     (case block_raw_get_by_type s h t of
        Some e \<Rightarrow> Some (t, e)
      | None \<Rightarrow> block_raw_get_types s h ts)"

definition block_raw_get :: "store \<Rightarrow> uint256 \<Rightarrow> (block_type \<times> block_entry) option" where
  "block_raw_get s h = block_raw_get_types s h [Bt_state, Bt_send, Bt_receive, Bt_open, Bt_change]"

definition block_version :: "store \<Rightarrow> uint256 \<Rightarrow> epoch" where
  "block_version s h = (if block_tables s Db_state_v1 h \<noteq> None then Epoch_1 else Epoch_0)"

definition block_successor :: "store \<Rightarrow> uint256 \<Rightarrow> uint256" where
  "block_successor s h =
     (case block_raw_get s h of Some (t, b, sb) \<Rightarrow> successor sb | None \<Rightarrow> 0)"

text \<open>Both writers of a successor replace the 32 bytes at the successor's offset in the entry.\<close>

definition block_successor_put :: "store \<Rightarrow> uint256 \<Rightarrow> uint256 \<Rightarrow> store option" where
  "block_successor_put s h x = do {
     (t, b, sb) \<leftarrow> block_raw_get s h;
     db \<leftarrow> block_database t (block_version s h);
     Some (block_raw_put s db h (b, sb\<lparr>successor := x\<rparr>)) }"

definition block_successor_clear :: "store \<Rightarrow> uint256 \<Rightarrow> store option" where
  "block_successor_clear s h = block_successor_put s h 0"

definition fill_value :: "(byte list \<Rightarrow> uint256) \<Rightarrow> store \<Rightarrow> block \<Rightarrow> store option" where
  "fill_value H s b = block_successor_put s (previous b) (block_hash H b)"

fun block_predecessor_set :: "(byte list \<Rightarrow> uint256) \<Rightarrow> store \<Rightarrow> block \<Rightarrow> store option" where
  "block_predecessor_set H s (Send_block b) = fill_value H s (Send_block b)"
| "block_predecessor_set H s (Receive_block b) = fill_value H s (Receive_block b)"
| "block_predecessor_set H s (Open_block b) = Some s"
| "block_predecessor_set H s (Change_block b) = fill_value H s (Change_block b)"
| "block_predecessor_set H s (State_block b) =
     (if previous (State_block b) \<noteq> 0 then fill_value H s (State_block b) else Some s)"

fun block_exists_type :: "store \<Rightarrow> block_type \<Rightarrow> uint256 \<Rightarrow> bool" where
  "block_exists_type s Bt_send h = (block_tables s Db_send h \<noteq> None)"
| "block_exists_type s Bt_receive h = (block_tables s Db_receive h \<noteq> None)"
| "block_exists_type s Bt_open h = (block_tables s Db_open h \<noteq> None)"
| "block_exists_type s Bt_change h = (block_tables s Db_change h \<noteq> None)"
| "block_exists_type s Bt_state h =
     (block_tables s Db_state_v0 h \<noteq> None \<or> block_tables s Db_state_v1 h \<noteq> None)"
| "block_exists_type s _ h = False"

definition block_exists :: "store \<Rightarrow> uint256 \<Rightarrow> bool" where
  "block_exists s h \<longleftrightarrow>
     block_exists_type s Bt_send h \<or> block_exists_type s Bt_receive h \<or>
     block_exists_type s Bt_open h \<or> block_exists_type s Bt_change h \<or>
     block_exists_type s Bt_state h"

text \<open>
  The entry of a block is its serialisation followed by that of the sideband; a field the
  sideband of that type does not carry reads back as zero here (\<open>sideband_blank\<close>), as
  unspecified in the program, which never uses it.
\<close>

definition sideband_blank :: "block_type \<Rightarrow> block_sideband" where
  "sideband_blank t = \<lparr>sb_type = t, successor = 0, sb_account = 0, sb_balance = 0,
     height = 0, timestamp = 0\<rparr>"

definition sideband_stored :: "block_sideband \<Rightarrow> block_sideband" where
  "sideband_stored sb = sideband_read_back (sideband_blank (sb_type sb)) sb"

definition block_put ::
  "(byte list \<Rightarrow> uint256) \<Rightarrow> store \<Rightarrow> uint256 \<Rightarrow> block \<Rightarrow> block_sideband \<Rightarrow> epoch \<Rightarrow> store option" where
  "block_put H s h b sb e = do {
     assert (type_of b = sb_type sb);
     assert (successor sb = 0 \<or> block_exists s (successor sb));
     db \<leftarrow> block_database (type_of b) e;
     s \<leftarrow> block_predecessor_set H (block_raw_put s db h (b, sideband_stored sb)) b;
     assert (previous b = 0 \<or> block_successor s (previous b) = h);
     Some s }"

definition block_get_sideband :: "store \<Rightarrow> uint256 \<Rightarrow> block_entry option" where
  "block_get_sideband s h = map_option snd (block_raw_get s h)"

definition block_get :: "store \<Rightarrow> uint256 \<Rightarrow> block option" where
  "block_get s h = map_option fst (block_get_sideband s h)"

fun block_del_from :: "dbi list \<Rightarrow> store \<Rightarrow> uint256 \<Rightarrow> store option" where
  "block_del_from [] s h = None"
| "block_del_from (db # dbs) s h =
     (if block_tables s db h \<noteq> None
      then Some (s\<lparr>block_tables := (block_tables s)(db := (block_tables s db)(h := None))\<rparr>)
      else block_del_from dbs s h)"

definition block_del :: "store \<Rightarrow> uint256 \<Rightarrow> store option" where
  "block_del s h =
     block_del_from [Db_state_v1, Db_state_v0, Db_send, Db_receive, Db_open, Db_change] s h"

definition table_entries :: "('k \<rightharpoonup> 'v) \<Rightarrow> uint64" where
  "table_entries m = word_of_nat (card (dom m))"

definition block_count_store :: "store \<Rightarrow> block_counts" where
  "block_count_store s = \<lparr>
     count_send = table_entries (block_tables s Db_send),
     count_receive = table_entries (block_tables s Db_receive),
     count_open = table_entries (block_tables s Db_open),
     count_change = table_entries (block_tables s Db_change),
     count_state_v0 = table_entries (block_tables s Db_state_v0),
     count_state_v1 = table_entries (block_tables s Db_state_v1)\<rparr>"

definition source_exists :: "store \<Rightarrow> uint256 \<Rightarrow> bool" where
  "source_exists s h \<longleftrightarrow> block_exists_type s Bt_state h \<or> block_exists_type s Bt_send h"

definition block_account :: "store \<Rightarrow> uint256 \<Rightarrow> uint256 option" where
  "block_account s h = do {
     (b, sb) \<leftarrow> block_get_sideband s h;
     let a = (if account b = 0 then sb_account sb else account b);
     assert (a \<noteq> 0);
     Some a }"

definition entry_balance :: "block_entry \<Rightarrow> uint128" where
  "entry_balance e =
     (case e of
        (Open_block b, sb) \<Rightarrow> sb_balance sb
      | (Receive_block b, sb) \<Rightarrow> sb_balance sb
      | (Change_block b, sb) \<Rightarrow> sb_balance sb
      | (Send_block b, sb) \<Rightarrow> send_balance (hashables b)
      | (State_block b, sb) \<Rightarrow> state_balance (hashables b))"

definition block_balance :: "store \<Rightarrow> uint256 \<Rightarrow> uint128 option" where
  "block_balance s h = map_option entry_balance (block_get_sideband s h)"

section \<open>Accounts and frontiers\<close>

definition account_get :: "store \<Rightarrow> uint256 \<Rightarrow> account_info option" where
  "account_get s a =
     (case accounts_v1 s a of
        Some i \<Rightarrow> Some (i\<lparr>info_epoch := Epoch_1\<rparr>)
      | None \<Rightarrow> map_option (\<lambda>i. i\<lparr>info_epoch := Epoch_0\<rparr>) (accounts_v0 s a))"

definition account_put :: "store \<Rightarrow> uint256 \<Rightarrow> account_info \<Rightarrow> store option" where
  "account_put s a i =
     (case info_epoch i of
        Epoch_0 \<Rightarrow> Some (s\<lparr>accounts_v0 := (accounts_v0 s)(a \<mapsto> i)\<rparr>)
      | Epoch_1 \<Rightarrow> Some (s\<lparr>accounts_v1 := (accounts_v1 s)(a \<mapsto> i)\<rparr>)
      | _ \<Rightarrow> None)"

definition account_del :: "store \<Rightarrow> uint256 \<Rightarrow> store option" where
  "account_del s a =
     (if accounts_v1 s a \<noteq> None then Some (s\<lparr>accounts_v1 := (accounts_v1 s)(a := None)\<rparr>)
      else if accounts_v0 s a \<noteq> None then Some (s\<lparr>accounts_v0 := (accounts_v0 s)(a := None)\<rparr>)
      else None)"

definition account_exists :: "store \<Rightarrow> uint256 \<Rightarrow> bool" where
  "account_exists s a \<longleftrightarrow>
     least_iterator (keys_from (accounts_v0 s) a) (keys_from (accounts_v1 s) a) = Some a"

definition account_count :: "store \<Rightarrow> uint64" where
  "account_count s = table_entries (accounts_v0 s) + table_entries (accounts_v1 s)"

definition root_exists :: "store \<Rightarrow> uint256 \<Rightarrow> bool" where
  "root_exists s r \<longleftrightarrow> block_exists s r \<or> account_exists s r"

definition frontier_put :: "store \<Rightarrow> uint256 \<Rightarrow> uint256 \<Rightarrow> store" where
  "frontier_put s h a = s\<lparr>frontiers := (frontiers s)(h \<mapsto> a)\<rparr>"

definition frontier_get :: "store \<Rightarrow> uint256 \<Rightarrow> uint256" where
  "frontier_get s h = (case frontiers s h of Some a \<Rightarrow> a | None \<Rightarrow> 0)"

definition frontier_del :: "store \<Rightarrow> uint256 \<Rightarrow> store option" where
  "frontier_del s h =
     (if frontiers s h \<noteq> None then Some (s\<lparr>frontiers := (frontiers s)(h := None)\<rparr>) else None)"

section \<open>Pending sends\<close>

definition pending_get :: "store \<Rightarrow> pending_key \<Rightarrow> pending_info option" where
  "pending_get s k =
     (case pending_v1 s k of
        Some p \<Rightarrow> Some (p\<lparr>pending_epoch := Epoch_1\<rparr>)
      | None \<Rightarrow> map_option (\<lambda>p. p\<lparr>pending_epoch := Epoch_0\<rparr>) (pending_v0 s k))"

definition pending_put :: "store \<Rightarrow> pending_key \<Rightarrow> pending_info \<Rightarrow> store option" where
  "pending_put s k p =
     (case pending_epoch p of
        Epoch_0 \<Rightarrow> Some (s\<lparr>pending_v0 := (pending_v0 s)(k \<mapsto> p)\<rparr>)
      | Epoch_1 \<Rightarrow> Some (s\<lparr>pending_v1 := (pending_v1 s)(k \<mapsto> p)\<rparr>)
      | _ \<Rightarrow> None)"

definition pending_del :: "store \<Rightarrow> pending_key \<Rightarrow> store option" where
  "pending_del s k =
     (if pending_v1 s k \<noteq> None then Some (s\<lparr>pending_v1 := (pending_v1 s)(k := None)\<rparr>)
      else if pending_v0 s k \<noteq> None then Some (s\<lparr>pending_v0 := (pending_v0 s)(k := None)\<rparr>)
      else None)"

definition pending_exists :: "store \<Rightarrow> pending_key \<Rightarrow> bool" where
  "pending_exists s k \<longleftrightarrow>
     least_iterator (keys_from (pending_v0 s) k) (keys_from (pending_v1 s) k) = Some k"

section \<open>Representation\<close>

definition representation_get :: "store \<Rightarrow> uint256 \<Rightarrow> uint128" where
  "representation_get s a = (case representation s a of Some w \<Rightarrow> w | None \<Rightarrow> 0)"

definition representation_put :: "store \<Rightarrow> uint256 \<Rightarrow> uint128 \<Rightarrow> store" where
  "representation_put s a w = s\<lparr>representation := (representation s)(a \<mapsto> w)\<rparr>"

text \<open>\<open>x\<close> is the hash of a block; its representative gains \<open>d\<close>, modulo 2^128.\<close>

definition representation_add :: "store \<Rightarrow> uint256 \<Rightarrow> uint128 \<Rightarrow> store option" where
  "representation_add s x d = do {
     b \<leftarrow> block_get s x;
     Some (representation_put s (representative b) (representation_get s (representative b) + d)) }"

end
