(* ===== verification/Stats.thy ===== *)
theory Stats
  imports Prelude
begin

text \<open>
  The counters of \<open>nano::stat\<close> (\<open>nano/node/stats.hpp\<close>, \<open>stats.cpp\<close>): a 64 bit counter per
  type, detail and direction, and a counter per type and direction that every detailed
  increment also adds to. Sampling, observers and the log files are not part of the model.
\<close>

section \<open>Keys\<close>

datatype stat_type =
    St_traffic
  | St_traffic_bootstrap
  | St_error
  | St_message
  | St_block
  | St_ledger
  | St_rollback
  | St_bootstrap
  | St_vote
  | St_http_callback
  | St_peering
  | St_ipc
  | St_udp

primrec stat_type_value :: "stat_type \<Rightarrow> byte" where
  "stat_type_value St_traffic = 0"
| "stat_type_value St_traffic_bootstrap = 1"
| "stat_type_value St_error = 2"
| "stat_type_value St_message = 3"
| "stat_type_value St_block = 4"
| "stat_type_value St_ledger = 5"
| "stat_type_value St_rollback = 6"
| "stat_type_value St_bootstrap = 7"
| "stat_type_value St_vote = 8"
| "stat_type_value St_http_callback = 9"
| "stat_type_value St_peering = 10"
| "stat_type_value St_ipc = 11"
| "stat_type_value St_udp = 12"

datatype stat_detail =
    Sd_all
  | Sd_bad_sender
  | Sd_insufficient_work
  | Sd_http_callback
  | Sd_unreachable_host
  | Sd_send
  | Sd_receive
  | Sd_open
  | Sd_change
  | Sd_state_block
  | Sd_epoch_block
  | Sd_fork
  | Sd_keepalive
  | Sd_publish
  | Sd_republish_vote
  | Sd_confirm_req
  | Sd_confirm_ack
  | Sd_node_id_handshake
  | Sd_initiate
  | Sd_initiate_lazy
  | Sd_initiate_wallet_lazy
  | Sd_bulk_pull
  | Sd_bulk_push
  | Sd_bulk_pull_account
  | Sd_frontier_req
  | Sd_vote_valid
  | Sd_vote_replay
  | Sd_vote_invalid
  | Sd_vote_overflow
  | Sd_blocking
  | Sd_overflow
  | Sd_invalid_magic
  | Sd_invalid_network
  | Sd_invalid_header
  | Sd_invalid_message_type
  | Sd_invalid_keepalive_message
  | Sd_invalid_publish_message
  | Sd_invalid_confirm_req_message
  | Sd_invalid_confirm_ack_message
  | Sd_invalid_node_id_handshake_message
  | Sd_outdated_version
  | Sd_invocations
  | Sd_handshake

primrec stat_detail_value :: "stat_detail \<Rightarrow> byte" where
  "stat_detail_value Sd_all = 0"
| "stat_detail_value Sd_bad_sender = 1"
| "stat_detail_value Sd_insufficient_work = 2"
| "stat_detail_value Sd_http_callback = 3"
| "stat_detail_value Sd_unreachable_host = 4"
| "stat_detail_value Sd_send = 5"
| "stat_detail_value Sd_receive = 6"
| "stat_detail_value Sd_open = 7"
| "stat_detail_value Sd_change = 8"
| "stat_detail_value Sd_state_block = 9"
| "stat_detail_value Sd_epoch_block = 10"
| "stat_detail_value Sd_fork = 11"
| "stat_detail_value Sd_keepalive = 12"
| "stat_detail_value Sd_publish = 13"
| "stat_detail_value Sd_republish_vote = 14"
| "stat_detail_value Sd_confirm_req = 15"
| "stat_detail_value Sd_confirm_ack = 16"
| "stat_detail_value Sd_node_id_handshake = 17"
| "stat_detail_value Sd_initiate = 18"
| "stat_detail_value Sd_initiate_lazy = 19"
| "stat_detail_value Sd_initiate_wallet_lazy = 20"
| "stat_detail_value Sd_bulk_pull = 21"
| "stat_detail_value Sd_bulk_push = 22"
| "stat_detail_value Sd_bulk_pull_account = 23"
| "stat_detail_value Sd_frontier_req = 24"
| "stat_detail_value Sd_vote_valid = 25"
| "stat_detail_value Sd_vote_replay = 26"
| "stat_detail_value Sd_vote_invalid = 27"
| "stat_detail_value Sd_vote_overflow = 28"
| "stat_detail_value Sd_blocking = 29"
| "stat_detail_value Sd_overflow = 30"
| "stat_detail_value Sd_invalid_magic = 31"
| "stat_detail_value Sd_invalid_network = 32"
| "stat_detail_value Sd_invalid_header = 33"
| "stat_detail_value Sd_invalid_message_type = 34"
| "stat_detail_value Sd_invalid_keepalive_message = 35"
| "stat_detail_value Sd_invalid_publish_message = 36"
| "stat_detail_value Sd_invalid_confirm_req_message = 37"
| "stat_detail_value Sd_invalid_confirm_ack_message = 38"
| "stat_detail_value Sd_invalid_node_id_handshake_message = 39"
| "stat_detail_value Sd_outdated_version = 40"
| "stat_detail_value Sd_invocations = 41"
| "stat_detail_value Sd_handshake = 42"

datatype stat_dir = Dir_in | Dir_out

primrec stat_dir_value :: "stat_dir \<Rightarrow> byte" where
  "stat_dir_value Dir_in = 0"
| "stat_dir_value Dir_out = 1"

definition key_of :: "stat_type \<Rightarrow> stat_detail \<Rightarrow> stat_dir \<Rightarrow> uint32" where
  "key_of t d i = push_bit 16 (ucast (stat_type_value t)) OR
     push_bit 8 (ucast (stat_detail_value d)) OR ucast (stat_dir_value i)"

section \<open>Counters\<close>

record stat =
  entries :: "uint32 \<rightharpoonup> uint64"

definition stat_init :: stat where
  "stat_init = \<lparr>entries = Map.empty\<rparr>"

definition get_entry :: "stat \<Rightarrow> uint32 \<Rightarrow> stat \<times> uint64" where
  "get_entry s k =
     (case entries s k of
        None \<Rightarrow> (s\<lparr>entries := (entries s)(k \<mapsto> 0)\<rparr>, 0)
      | Some v \<Rightarrow> (s, v))"

definition stat_update :: "stat \<Rightarrow> uint32 \<Rightarrow> uint64 \<Rightarrow> stat" where
  "stat_update s k v =
     (let (s, old) = get_entry s k in s\<lparr>entries := (entries s)(k \<mapsto> old + v)\<rparr>)"

definition no_detail_mask :: uint32 where
  "no_detail_mask = 0xffff00ff"

definition stat_add :: "stat \<Rightarrow> stat_type \<Rightarrow> stat_detail \<Rightarrow> stat_dir \<Rightarrow> uint64 \<Rightarrow> bool \<Rightarrow> stat" where
  "stat_add s t d i v detail_only =
     (let key = key_of t d i;
          s = stat_update s key v
      in if \<not> detail_only \<and> (key AND no_detail_mask) \<noteq> key
         then stat_update s (key AND no_detail_mask) v else s)"

definition stat_inc_type :: "stat \<Rightarrow> stat_type \<Rightarrow> stat_dir \<Rightarrow> stat" where
  "stat_inc_type s t i = stat_add s t Sd_all i 1 False"

definition stat_inc :: "stat \<Rightarrow> stat_type \<Rightarrow> stat_detail \<Rightarrow> stat_dir \<Rightarrow> stat" where
  "stat_inc s t d i = stat_add s t d i 1 False"

definition stat_inc_detail_only :: "stat \<Rightarrow> stat_type \<Rightarrow> stat_detail \<Rightarrow> stat_dir \<Rightarrow> stat" where
  "stat_inc_detail_only s t d i = stat_add s t d i 1 False"

text \<open>Reading a counter creates its entry, as \<open>get_entry\<close> does.\<close>

definition stat_count :: "stat \<Rightarrow> stat_type \<Rightarrow> stat_detail \<Rightarrow> stat_dir \<Rightarrow> stat \<times> uint64" where
  "stat_count s t d i = get_entry s (key_of t d i)"

definition stat_clear :: "stat \<Rightarrow> stat" where
  "stat_clear s = s\<lparr>entries := Map.empty\<rparr>"

section \<open>Keys tell counters apart\<close>

lemma stat_type_value_inject [simp]: "stat_type_value a = stat_type_value b \<longleftrightarrow> a = b"
  by (cases a; cases b) simp_all

lemma stat_dir_value_inject [simp]: "stat_dir_value a = stat_dir_value b \<longleftrightarrow> a = b"
  by (cases a; cases b) simp_all

text \<open>The detail enumerators are numbered in order, so a left inverse exists by position.\<close>

definition stat_details :: "stat_detail list" where
  "stat_details = [Sd_all, Sd_bad_sender, Sd_insufficient_work, Sd_http_callback, Sd_unreachable_host, Sd_send, Sd_receive, Sd_open, Sd_change, Sd_state_block, Sd_epoch_block, Sd_fork, Sd_keepalive, Sd_publish, Sd_republish_vote, Sd_confirm_req, Sd_confirm_ack, Sd_node_id_handshake, Sd_initiate, Sd_initiate_lazy, Sd_initiate_wallet_lazy, Sd_bulk_pull, Sd_bulk_push, Sd_bulk_pull_account, Sd_frontier_req, Sd_vote_valid, Sd_vote_replay, Sd_vote_invalid, Sd_vote_overflow, Sd_blocking, Sd_overflow, Sd_invalid_magic, Sd_invalid_network, Sd_invalid_header, Sd_invalid_message_type, Sd_invalid_keepalive_message, Sd_invalid_publish_message, Sd_invalid_confirm_req_message, Sd_invalid_confirm_ack_message, Sd_invalid_node_id_handshake_message, Sd_outdated_version, Sd_invocations, Sd_handshake]"

lemma stat_details_nth: "stat_details ! unat (stat_detail_value d) = d"
  by (cases d) (simp_all add: stat_details_def)

lemma stat_detail_value_inject [simp]: "stat_detail_value a = stat_detail_value b \<longleftrightarrow> a = b"
  by (metis stat_details_nth)

lemma key_of_fields:
  "drop_bit 16 (key_of t d i) = ucast (stat_type_value t)"
  "take_bit 8 (drop_bit 8 (key_of t d i)) = ucast (stat_detail_value d)"
  "take_bit 8 (key_of t d i) = ucast (stat_dir_value i)"
  unfolding key_of_def
  by (rule bit_word_eqI; simp add: bit_simps; fastforce dest: bit_imp_le_length)+

lemma ucast_byte_inject: "(ucast (a :: byte) :: uint32) = ucast b \<longleftrightarrow> a = b"
proof
  assume "(ucast a :: uint32) = ucast b"
  then have eq: "bit (ucast a :: uint32) n = bit (ucast b :: uint32) n" for n by simp
  have "bit a n = bit b n" if "n < 8" for n
    using that eq [of n] by (simp add: bit_simps)
  then show "a = b" by (intro bit_word_eqI) simp
qed simp

lemma key_of_inject [simp]: "key_of t d i = key_of t' d' i' \<longleftrightarrow> t = t' \<and> d = d' \<and> i = i'"
proof
  assume eq: "key_of t d i = key_of t' d' i'"
  have "ucast (stat_type_value t) = (ucast (stat_type_value t') :: uint32)"
    "ucast (stat_detail_value d) = (ucast (stat_detail_value d') :: uint32)"
    "ucast (stat_dir_value i) = (ucast (stat_dir_value i') :: uint32)"
    using eq by (metis key_of_fields)+
  then show "t = t' \<and> d = d' \<and> i = i'"
    by (simp add: ucast_byte_inject)
qed simp

lemma no_detail_mask_bits: "no_detail_mask = NOT (push_bit 8 (mask 8))"
  by code_simp

lemma key_of_no_detail: "key_of t d i AND no_detail_mask = key_of t Sd_all i"
  unfolding key_of_def no_detail_mask_bits
  by (rule bit_word_eqI; simp add: bit_simps; fastforce dest: bit_imp_le_length)

section \<open>What the counters hold\<close>

definition stat_value :: "stat \<Rightarrow> stat_type \<Rightarrow> stat_detail \<Rightarrow> stat_dir \<Rightarrow> uint64" where
  "stat_value s t d i = (case entries s (key_of t d i) of Some v \<Rightarrow> v | None \<Rightarrow> 0)"

lemma stat_count_value: "snd (stat_count s t d i) = stat_value s t d i"
  by (simp add: stat_count_def get_entry_def stat_value_def split: option.split)

lemma stat_value_update:
  "stat_value (stat_update s (key_of t d i) v) t' d' i' =
     stat_value s t' d' i' + (if t' = t \<and> d' = d \<and> i' = i then v else 0)"
  by (auto simp: stat_value_def stat_update_def get_entry_def split: option.split)

lemma stat_value_add:
  "stat_value (stat_add s t d i v False) t' d' i' = stat_value s t' d' i' +
     (if t' = t \<and> i' = i \<and> (d' = d \<or> d' = Sd_all) then v else 0)"
  by (auto simp: stat_add_def Let_def key_of_no_detail stat_value_update)

lemma stat_details_UNIV: "set stat_details = UNIV"
proof -
  have "d \<in> set stat_details" for d
    by (cases d) (simp_all add: stat_details_def)
  then show ?thesis by blast
qed

lemma finite_stat_detail [simp]: "finite (A :: stat_detail set)"
  by (metis finite_set finite_subset stat_details_UNIV subset_UNIV)

definition stat_incs :: "(stat_type \<times> stat_detail \<times> stat_dir) list \<Rightarrow> stat \<Rightarrow> stat" where
  "stat_incs = fold (\<lambda>(t, d, i) s. stat_inc s t d i)"

lemma stat_incs_level:
  assumes "\<forall>(t, d, i) \<in> set ops. d \<noteq> Sd_all"
    and "stat_value s t Sd_all i = (\<Sum>d \<in> - {Sd_all}. stat_value s t d i)"
  shows "stat_value (stat_incs ops s) t Sd_all i =
    (\<Sum>d \<in> - {Sd_all}. stat_value (stat_incs ops s) t d i)"
  using assms
proof (induction ops arbitrary: s)
  case Nil
  then show ?case by (simp add: stat_incs_def)
next
  case (Cons op ops)
  obtain t' d' i' where op: "op = (t', d', i')" by (cases op) auto
  let ?s = "stat_inc s t' d' i'"
  have d': "d' \<noteq> Sd_all" using Cons.prems(1) op by auto
  have "stat_value ?s t Sd_all i = stat_value s t Sd_all i + (if t = t' \<and> i = i' then 1 else 0)"
    by (simp add: stat_inc_def stat_value_add)
  also have "\<dots> = (\<Sum>d \<in> - {Sd_all}. stat_value s t d i +
      (if t = t' \<and> i = i' then if d = d' then 1 else 0 else 0))"
    using d' Cons.prems(2) by (auto simp: sum.distrib sum.delta)
  also have "\<dots> = (\<Sum>d \<in> - {Sd_all}. stat_value ?s t d i)"
    by (rule sum.cong) (auto simp: stat_inc_def stat_value_add)
  finally show ?case
    using Cons.IH [of ?s] Cons.prems(1) op by (simp add: stat_incs_def)
qed

end
