(* ===== verification/Ledger.thy ===== *)
theory Ledger
  imports Block_Store Stats
begin

text \<open>
  The ledger: \<open>nano::ledger\<close> and its block visitors (\<open>nano/secure/ledger.cpp\<close>), with the
  representative visitor of \<open>nano/secure/blockstore.cpp\<close>. Every function takes the store of
  the running transaction and, where it writes, returns it. \<open>None\<close> is an abort: a failed
  assertion or a null pointer. The rollback, whose loops call each other, is in
  \<open>Rollback\<close>.
\<close>

section \<open>Surroundings of the ledger\<close>

text \<open>
  \<open>digest\<close> is BLAKE2b with a 32 byte output; \<open>ed25519_sign_open\<close> is the verification of the
  vendored ed25519 library, true when the signature is good; \<open>genesis_account\<close> is the
  network's constant; \<open>now\<close> is \<open>seconds_since_epoch\<close> at the time of the call.
\<close>

record env =
  digest :: "byte list \<Rightarrow> uint256"
  ed25519_sign_open :: "uint256 \<Rightarrow> uint256 \<Rightarrow> uint512 \<Rightarrow> bool"
  genesis_account :: uint256
  now :: uint64

text \<open>True is an error, as in the source.\<close>

definition validate_message :: "env \<Rightarrow> uint256 \<Rightarrow> uint256 \<Rightarrow> uint512 \<Rightarrow> bool" where
  "validate_message env public_key message sig = (\<not> ed25519_sign_open env message public_key sig)"

definition burn_account :: uint256 where
  "burn_account = 0"

definition genesis_amount :: uint128 where
  "genesis_amount = - 1"

datatype process_result =
    Progress
  | Bad_signature
  | Old
  | Negative_spend
  | Fork
  | Unreceivable
  | Gap_previous
  | Gap_source
  | Opened_burn_account
  | Balance_mismatch
  | Representative_mismatch
  | Block_position

text \<open>Fields the program leaves uninitialised are zero here.\<close>

record process_return =
  code :: process_result
  result_account :: uint256
  result_amount :: uint128
  pending_account :: uint256
  state_is_send :: "bool option"
  verified :: signature_verification

definition process_return_init :: "signature_verification \<Rightarrow> process_return" where
  "process_return_init v = \<lparr>code = Progress, result_account = 0, result_amount = 0,
     pending_account = 0, state_is_send = None, verified = v\<rparr>"

record ledger =
  store :: store
  stats :: stat
  bootstrap_weights :: "uint256 \<rightharpoonup> uint128"
  bootstrap_weight_max_blocks :: uint64
  check_bootstrap_weights :: bool
  epoch_link :: uint256
  epoch_signer :: uint256

definition ledger_init :: "store \<Rightarrow> stat \<Rightarrow> uint64 \<Rightarrow> uint256 \<Rightarrow> uint256 \<Rightarrow> ledger" where
  "ledger_init s st max_blocks link_a signer = \<lparr>store = s, stats = st,
     bootstrap_weights = Map.empty, bootstrap_weight_max_blocks = max_blocks,
     check_bootstrap_weights = True, epoch_link = link_a, epoch_signer = signer\<rparr>"

section \<open>Queries\<close>

definition ledger_balance :: "store \<Rightarrow> uint256 \<Rightarrow> uint128 option" where
  "ledger_balance s h = (if h = 0 then Some 0 else block_balance s h)"

definition account_balance :: "store \<Rightarrow> uint256 \<Rightarrow> uint128" where
  "account_balance s a = (case account_get s a of Some i \<Rightarrow> info_balance i | None \<Rightarrow> 0)"

text \<open>
  The loop of \<open>account_pending\<close>: the iterator advances until it meets \<open>n\<close>, the position of
  the first key past the account (\<open>None\<close> at the end of the table).
\<close>

fun pending_range :: "(pending_key \<rightharpoonup> pending_info) \<Rightarrow> pending_key list \<Rightarrow> pending_key option \<Rightarrow> uint128 \<Rightarrow> uint128 option" where
  "pending_range m [] n result = (if n = None then Some result else None)"
| "pending_range m (k # ks) n result =
     (if n = Some k then Some result
      else pending_range m ks n (result + (case m k of Some p \<Rightarrow> pending_amount p | None \<Rightarrow> 0)))"

definition iterator_at :: "'k list \<Rightarrow> 'k option" where
  "iterator_at ks = (case ks of [] \<Rightarrow> None | k # _ \<Rightarrow> Some k)"

definition account_pending :: "store \<Rightarrow> uint256 \<Rightarrow> uint128 option" where
  "account_pending s a = do {
     let end_a = a + 1;
     result \<leftarrow> pending_range (pending_v0 s) (keys_from (pending_v0 s) (Pending_key a 0))
       (iterator_at (keys_from (pending_v0 s) (Pending_key end_a 0))) 0;
     pending_range (pending_v1 s) (keys_from (pending_v1 s) (Pending_key a 0))
       (iterator_at (keys_from (pending_v1 s) (Pending_key end_a 0))) result }"

text \<open>
  \<open>representative_visitor\<close>: the next block to look at and the result so far. The loop runs
  while the result is zero.
\<close>

fun representative_visit :: "(byte list \<Rightarrow> uint256) \<Rightarrow> block \<Rightarrow> uint256 \<Rightarrow> uint256 \<times> uint256" where
  "representative_visit H (Send_block b) current = (send_previous (hashables b), 0)"
| "representative_visit H (Receive_block b) current = (receive_previous (hashables b), 0)"
| "representative_visit H (Open_block b) current = (current, block_hash H (Open_block b))"
| "representative_visit H (Change_block b) current = (current, block_hash H (Change_block b))"
| "representative_visit H (State_block b) current = (current, block_hash H (State_block b))"

partial_function (option) representative_compute ::
  "(byte list \<Rightarrow> uint256) \<Rightarrow> store \<Rightarrow> uint256 \<Rightarrow> uint256 \<Rightarrow> uint256 option" where
  "representative_compute H s current result =
     (if result = 0
      then do {
        b \<leftarrow> block_get s current;
        representative_compute H s (fst (representative_visit H b current))
          (snd (representative_visit H b current)) }
      else Some result)"

definition representative_calculated :: "(byte list \<Rightarrow> uint256) \<Rightarrow> store \<Rightarrow> uint256 \<Rightarrow> uint256 option" where
  "representative_calculated H s h = representative_compute H s h 0"

definition ledger_representative :: "(byte list \<Rightarrow> uint256) \<Rightarrow> store \<Rightarrow> uint256 \<Rightarrow> uint256 option" where
  "ledger_representative H s h = do {
     result \<leftarrow> representative_calculated H s h;
     assert (result = 0 \<or> block_exists s result);
     Some result }"

definition is_send :: "store \<Rightarrow> state_hashables signed \<Rightarrow> bool option" where
  "is_send s b =
     (if state_previous (hashables b) \<noteq> 0
      then do {
        bal \<leftarrow> ledger_balance s (state_previous (hashables b));
        Some (state_balance (hashables b) < bal) }
      else Some False)"

fun block_destination :: "store \<Rightarrow> block \<Rightarrow> uint256 option" where
  "block_destination s (Send_block b) = Some (send_destination (hashables b))"
| "block_destination s (State_block b) = do {
     snd \<leftarrow> is_send s b;
     Some (if snd then state_link (hashables b) else 0) }"
| "block_destination s _ = Some 0"

definition block_source :: "store \<Rightarrow> block \<Rightarrow> uint256 option" where
  "block_source s b = do {
     assert (previous b = 0 \<or> block_exists s (previous b));
     (case b of
        State_block sb \<Rightarrow> do {
          snd \<leftarrow> is_send s sb;
          Some (if \<not> snd then state_link (hashables sb) else source b) }
      | _ \<Rightarrow> Some (source b)) }"

definition weight :: "ledger \<Rightarrow> uint256 \<Rightarrow> ledger \<times> uint128" where
  "weight l a =
     (if check_bootstrap_weights l
      then if block_counts_sum (block_count_store (store l)) < bootstrap_weight_max_blocks l
           then case bootstrap_weights l a of
                  Some w \<Rightarrow> (l, w)
                | None \<Rightarrow> (l, representation_get (store l) a)
           else (l\<lparr>check_bootstrap_weights := False\<rparr>, representation_get (store l) a)
      else (l, representation_get (store l) a))"

definition ledger_amount :: "env \<Rightarrow> store \<Rightarrow> uint256 \<Rightarrow> uint128 option" where
  "ledger_amount env s h =
     (if h \<noteq> genesis_account env
      then do {
        let block = block_get s h;
        block_balance \<leftarrow> ledger_balance s h;
        block \<leftarrow> block;
        previous_balance \<leftarrow> ledger_balance s (previous block);
        Some (if previous_balance < block_balance then block_balance - previous_balance
              else previous_balance - block_balance) }
      else Some genesis_amount)"

definition latest :: "store \<Rightarrow> uint256 \<Rightarrow> uint256" where
  "latest s a = (case account_get s a of None \<Rightarrow> 0 | Some i \<Rightarrow> head i)"

definition latest_root :: "store \<Rightarrow> uint256 \<Rightarrow> uint256" where
  "latest_root s a = (case account_get s a of None \<Rightarrow> a | Some i \<Rightarrow> head i)"

definition is_epoch_link :: "ledger \<Rightarrow> uint256 \<Rightarrow> bool" where
  "is_epoch_link l x = (x = epoch_link l)"

fun could_fit :: "ledger \<Rightarrow> block \<Rightarrow> bool option" where
  "could_fit l (Send_block b) = Some (block_exists (store l) (previous (Send_block b)))"
| "could_fit l (Receive_block b) =
     Some (block_exists (store l) (previous (Receive_block b)) \<and>
       block_exists (store l) (source (Receive_block b)))"
| "could_fit l (Open_block b) = Some (block_exists (store l) (source (Open_block b)))"
| "could_fit l (Change_block b) = Some (block_exists (store l) (previous (Change_block b)))"
| "could_fit l (State_block b) =
     (if previous (State_block b) = 0 \<or> block_exists (store l) (previous (State_block b))
      then do {
        snd \<leftarrow> is_send (store l) b;
        Some (if \<not> snd
              then block_exists (store l) (state_link (hashables b)) \<or>
                state_link (hashables b) = 0 \<or> is_epoch_link l (state_link (hashables b))
              else True) }
      else Some False)"

definition ledger_successor :: "store \<Rightarrow> uint256 \<Rightarrow> uint256 \<Rightarrow> block option option" where
  "ledger_successor s root0 root1 = do {
     suc \<leftarrow> (if root0 = 0 \<and> account_exists s root1
             then map_option open_block (account_get s root1)
             else Some (block_successor s root0));
     let result = (if suc \<noteq> 0 then block_get s suc else None);
     assert (suc = 0 \<or> result \<noteq> None);
     Some result }"

definition forked_block :: "(byte list \<Rightarrow> uint256) \<Rightarrow> store \<Rightarrow> block \<Rightarrow> block option" where
  "forked_block H s b = do {
     assert (\<not> block_exists_type s (type_of b) (block_hash H b));
     let root = root b;
     assert (block_exists s root \<or> account_exists s root);
     (case block_get s (block_successor s root) of
        Some result \<Rightarrow> Some result
      | None \<Rightarrow> do {
          info \<leftarrow> account_get s root;
          block_get s (open_block info) }) }"

section \<open>Changing the head of an account\<close>

definition change_latest ::
  "uint64 \<Rightarrow> store \<Rightarrow> uint256 \<Rightarrow> uint256 \<Rightarrow> uint256 \<Rightarrow> uint128 \<Rightarrow> uint64 \<Rightarrow> epoch \<Rightarrow> store option" where
  "change_latest t s a h rep bal count e = do {
     let info_o = account_get s a;
     let exists = (info_o \<noteq> None);
     info \<leftarrow> (case info_o of
        Some i \<Rightarrow> Some i
      | None \<Rightarrow> do {
          b \<leftarrow> block_get s h;
          assert (previous b = 0);
          Some (account_info_init\<lparr>open_block := h\<rparr>) });
     if h \<noteq> 0
     then do {
       s \<leftarrow> (if exists \<and> info_epoch info \<noteq> e then account_del s a else Some s);
       account_put s a (info\<lparr>head := h, rep_block := rep, info_balance := bal,
         modified := t, block_count := count, info_epoch := e\<rparr>) }
     else account_del s a }"

section \<open>The first block\<close>

text \<open>\<open>mdb_store::initialize\<close>, given the genesis block that \<open>nano::genesis\<close> reads from its constant.\<close>

definition initialize :: "env \<Rightarrow> store \<Rightarrow> block \<Rightarrow> store option" where
  "initialize env s genesis = do {
     let hash = block_hash (digest env) genesis;
     assert (keys_from (accounts_v0 s) 0 = []);
     assert (keys_from (accounts_v1 s) 0 = []);
     s \<leftarrow> block_put (digest env) s hash genesis
       \<lparr>sb_type = Bt_open, successor = 0, sb_account = genesis_account env,
         sb_balance = genesis_amount, height = 1, timestamp = now env\<rparr> Epoch_0;
     s \<leftarrow> account_put s (genesis_account env)
       \<lparr>head = hash, rep_block = hash, open_block = hash, info_balance = genesis_amount,
         modified = now env, block_count = 1, info_epoch = Epoch_0\<rparr>;
     let s = representation_put s (genesis_account env) genesis_amount;
     Some (frontier_put s hash (genesis_account env)) }"

end
