(* ===== verification/Rollback.thy ===== *)
theory Rollback
  imports Ledger
begin

text \<open>
  Taking blocks off the ledger: \<open>rollback_visitor\<close> and \<open>ledger::rollback\<close> of
  \<open>nano/secure/ledger.cpp\<close>. The visitor undoes the block at the head of a chain. A send that
  has been received is first made unreceived again by rolling back the destination, so the
  visitor calls the rollback that called it; the loops become one recursive function over
  the tasks \<open>rollback_task\<close>, whose result is \<open>None\<close> on an abort and when it never returns.
  The list collects the hashes of the blocks in the order they come off.
\<close>

section \<open>The visitor\<close>

text \<open>
  The functions below take the wait loop of the visitor as an argument: \<open>wait key d\<close> rolls
  back account \<open>d\<close> until \<open>key\<close> is pending.
\<close>

type_synonym rollback_state = "ledger \<times> uint256 list"

type_synonym rollback_wait = "pending_key \<Rightarrow> uint256 \<Rightarrow> rollback_state \<Rightarrow> rollback_state option"

definition rollback_stat :: "ledger \<Rightarrow> stat_detail \<Rightarrow> ledger" where
  "rollback_stat l d = l\<lparr>stats := stat_inc (stats l) St_rollback d Dir_in\<rparr>"

definition rollback_send_block ::
  "rollback_wait \<Rightarrow> env \<Rightarrow> rollback_state \<Rightarrow> send_hashables signed \<Rightarrow> rollback_state option" where
  "rollback_send_block wait env st b = do {
     let hash = block_hash (digest env) (Send_block b);
     let key = Pending_key (send_destination (hashables b)) hash;
     (l, list) \<leftarrow> wait key (send_destination (hashables b)) st;
     let s = store l;
     pending \<leftarrow> pending_get s key;
     info \<leftarrow> account_get s (pending_source pending);
     s \<leftarrow> pending_del s key;
     rep \<leftarrow> ledger_representative (digest env) s hash;
     s \<leftarrow> representation_add s rep (pending_amount pending);
     balance \<leftarrow> ledger_balance s (send_previous (hashables b));
     s \<leftarrow> change_latest (now env) s (pending_source pending) (send_previous (hashables b))
       (rep_block info) balance (block_count info - 1) Epoch_0;
     s \<leftarrow> block_del s hash;
     s \<leftarrow> frontier_del s hash;
     let s = frontier_put s (send_previous (hashables b)) (pending_source pending);
     s \<leftarrow> block_successor_clear s (send_previous (hashables b));
     Some (rollback_stat (l\<lparr>store := s\<rparr>) Sd_send, list) }"

definition rollback_receive_block ::
  "env \<Rightarrow> rollback_state \<Rightarrow> receive_hashables signed \<Rightarrow> rollback_state option" where
  "rollback_receive_block env st b = do {
     let (l, list) = st;
     let s = store l;
     let hash = block_hash (digest env) (Receive_block b);
     representative \<leftarrow> ledger_representative (digest env) s (receive_previous (hashables b));
     amount \<leftarrow> ledger_amount env s (receive_source (hashables b));
     destination_account \<leftarrow> block_account s hash;
     source_account \<leftarrow> block_account s (receive_source (hashables b));
     info \<leftarrow> account_get s destination_account;
     rep \<leftarrow> ledger_representative (digest env) s hash;
     s \<leftarrow> representation_add s rep (0 - amount);
     balance \<leftarrow> ledger_balance s (receive_previous (hashables b));
     s \<leftarrow> change_latest (now env) s destination_account (receive_previous (hashables b))
       representative balance (block_count info - 1) Epoch_0;
     s \<leftarrow> block_del s hash;
     s \<leftarrow> pending_put s (Pending_key destination_account (receive_source (hashables b)))
       \<lparr>pending_source = source_account, pending_amount = amount, pending_epoch = Epoch_0\<rparr>;
     s \<leftarrow> frontier_del s hash;
     let s = frontier_put s (receive_previous (hashables b)) destination_account;
     s \<leftarrow> block_successor_clear s (receive_previous (hashables b));
     Some (rollback_stat (l\<lparr>store := s\<rparr>) Sd_receive, list) }"

definition rollback_open_block ::
  "env \<Rightarrow> rollback_state \<Rightarrow> open_hashables signed \<Rightarrow> rollback_state option" where
  "rollback_open_block env st b = do {
     let (l, list) = st;
     let s = store l;
     let hash = block_hash (digest env) (Open_block b);
     amount \<leftarrow> ledger_amount env s (open_source (hashables b));
     destination_account \<leftarrow> block_account s hash;
     source_account \<leftarrow> block_account s (open_source (hashables b));
     rep \<leftarrow> ledger_representative (digest env) s hash;
     s \<leftarrow> representation_add s rep (0 - amount);
     s \<leftarrow> change_latest (now env) s destination_account 0 0 0 0 Epoch_0;
     s \<leftarrow> block_del s hash;
     s \<leftarrow> pending_put s (Pending_key destination_account (open_source (hashables b)))
       \<lparr>pending_source = source_account, pending_amount = amount, pending_epoch = Epoch_0\<rparr>;
     s \<leftarrow> frontier_del s hash;
     Some (rollback_stat (l\<lparr>store := s\<rparr>) Sd_open, list) }"

definition rollback_change_block ::
  "env \<Rightarrow> rollback_state \<Rightarrow> change_hashables signed \<Rightarrow> rollback_state option" where
  "rollback_change_block env st b = do {
     let (l, list) = st;
     let s = store l;
     let hash = block_hash (digest env) (Change_block b);
     representative \<leftarrow> ledger_representative (digest env) s (change_previous (hashables b));
     account \<leftarrow> block_account s (change_previous (hashables b));
     info \<leftarrow> account_get s account;
     balance \<leftarrow> ledger_balance s (change_previous (hashables b));
     s \<leftarrow> representation_add s representative balance;
     s \<leftarrow> representation_add s hash (0 - balance);
     s \<leftarrow> block_del s hash;
     s \<leftarrow> change_latest (now env) s account (change_previous (hashables b)) representative
       (info_balance info) (block_count info - 1) Epoch_0;
     s \<leftarrow> frontier_del s hash;
     let s = frontier_put s (change_previous (hashables b)) account;
     s \<leftarrow> block_successor_clear s (change_previous (hashables b));
     Some (rollback_stat (l\<lparr>store := s\<rparr>) Sd_change, list) }"

text \<open>
  A state block, in two parts: up to the pending table, and from \<open>change_latest\<close> on. The
  order of the enumeration \<open>block_type\<close> makes \<open>previous->type () < block_type::state\<close> true of
  the four legacy types.
\<close>

definition rollback_state_pending ::
  "rollback_wait \<Rightarrow> env \<Rightarrow> rollback_state \<Rightarrow> uint128 \<Rightarrow> state_hashables signed \<Rightarrow> rollback_state option" where
  "rollback_state_pending wait env st balance b =
     (let hash = block_hash (digest env) (State_block b);
          link = state_link (hashables b)
      in if state_balance (hashables b) < balance
      then do {
        (l, list) \<leftarrow> wait (Pending_key link hash) link st;
        s \<leftarrow> pending_del (store l) (Pending_key link hash);
        Some (rollback_stat (l\<lparr>store := s\<rparr>) Sd_send, list) }
      else let (l, list) = st in
        if link \<noteq> 0 \<and> \<not> is_epoch_link l link
        then do {
          source_account \<leftarrow> block_account (store l) link;
          s \<leftarrow> pending_put (store l) (Pending_key (state_account (hashables b)) link)
            \<lparr>pending_source = source_account, pending_amount = state_balance (hashables b) - balance,
              pending_epoch = block_version (store l) link\<rparr>;
          Some (rollback_stat (l\<lparr>store := s\<rparr>) Sd_receive, list) }
        else Some (l, list))"

definition rollback_state_unlink ::
  "env \<Rightarrow> ledger \<Rightarrow> account_info \<Rightarrow> uint256 \<Rightarrow> uint128 \<Rightarrow> state_hashables signed \<Rightarrow> ledger option" where
  "rollback_state_unlink env l info rep balance b = do {
     let s = store l;
     let prev = state_previous (hashables b);
     s \<leftarrow> change_latest (now env) s (state_account (hashables b)) prev rep balance
       (block_count info - 1) (block_version s prev);
     l \<leftarrow> (case block_get s prev of
         Some p \<Rightarrow> do {
           s \<leftarrow> block_successor_clear s prev;
           Some (l\<lparr>store := if type_of p \<noteq> Bt_state
             then frontier_put s prev (state_account (hashables b)) else s\<rparr>) }
       | None \<Rightarrow> Some (rollback_stat (l\<lparr>store := s\<rparr>) Sd_open));
     s \<leftarrow> block_del (store l) (block_hash (digest env) (State_block b));
     Some (l\<lparr>store := s\<rparr>) }"

definition rollback_state_block ::
  "rollback_wait \<Rightarrow> env \<Rightarrow> rollback_state \<Rightarrow> state_hashables signed \<Rightarrow> rollback_state option" where
  "rollback_state_block wait env st b = do {
     let (l, list) = st;
     let s = store l;
     let hash = block_hash (digest env) (State_block b);
     let prev = state_previous (hashables b);
     representative \<leftarrow> (if prev \<noteq> 0 then ledger_representative (digest env) s prev else Some 0);
     balance \<leftarrow> ledger_balance s prev;
     s \<leftarrow> representation_add s hash (0 - state_balance (hashables b));
     s \<leftarrow> (if representative \<noteq> 0 then representation_add s representative balance else Some s);
     let info_o = account_get s (state_account (hashables b));
     (l, list) \<leftarrow> rollback_state_pending wait env (l\<lparr>store := s\<rparr>, list) balance b;
     info \<leftarrow> info_o;
     l \<leftarrow> rollback_state_unlink env l info representative balance b;
     Some (l, list) }"

fun rollback_visit :: "rollback_wait \<Rightarrow> env \<Rightarrow> rollback_state \<Rightarrow> block \<Rightarrow> rollback_state option" where
  "rollback_visit wait env st (Send_block b) = rollback_send_block wait env st b"
| "rollback_visit wait env st (Receive_block b) = rollback_receive_block env st b"
| "rollback_visit wait env st (Open_block b) = rollback_open_block env st b"
| "rollback_visit wait env st (Change_block b) = rollback_change_block env st b"
| "rollback_visit wait env st (State_block b) = rollback_state_block wait env st b"

lemma mono_bind_const:
  "(\<And>y. mono_option (\<lambda>f. C y f)) \<Longrightarrow> mono_option (\<lambda>f. Option.bind m (\<lambda>y. C y f))"
  by (cases m) (auto simp: monotone_def option.leq_refl)

lemma rollback_visit_mono [partial_function_mono]:
  assumes "\<And>k d st. mono_option (\<lambda>f. w f k d st)"
  shows "mono_option (\<lambda>f. rollback_visit (w f) env st b)"
proof (cases b)
  case (Send_block x)
  show ?thesis
    unfolding Send_block rollback_visit.simps rollback_send_block_def Let_def split_def
    by (intro partial_function_mono assms)
next
  case (State_block x)
  show ?thesis
    unfolding State_block rollback_visit.simps rollback_state_block_def rollback_state_pending_def
      Let_def split_def
    by (intro partial_function_mono mono_bind_const assms)
qed (simp_all add: option.const_mono)

section \<open>The loops\<close>

text \<open>
  \<open>Rollback_while h a\<close> is the loop of \<open>ledger::rollback\<close>, \<open>Send_wait\<close> and \<open>State_wait\<close> those of
  the visitor, which test the pending table by \<open>pending_get\<close> and by \<open>pending_exists\<close>.
\<close>

datatype rollback_task =
    Rollback uint256
  | Rollback_while uint256 uint256
  | Send_wait pending_key uint256
  | State_wait pending_key uint256

fun wait_of :: "(rollback_task \<Rightarrow> rollback_state \<Rightarrow> rollback_state option) \<Rightarrow> block \<Rightarrow> rollback_wait" where
  "wait_of run (State_block b) k d st = run (State_wait k d) st"
| "wait_of run b k d st = run (Send_wait k d) st"

lemma wait_of_mono [partial_function_mono]:
  "mono_option (\<lambda>f. wait_of (\<lambda>t st. f ((t, env), st)) b k d st)"
  by (cases b; cases st) (simp_all add: fun_ord_def monotone_def)

partial_function (option) rollback_run ::
  "rollback_task \<Rightarrow> env \<Rightarrow> rollback_state \<Rightarrow> rollback_state option" where
  "rollback_run task env st =
     (case task of
        Rollback h \<Rightarrow> do {
          assert (block_exists (store (fst st)) h);
          a \<leftarrow> block_account (store (fst st)) h;
          rollback_run (Rollback_while h a) env st }
      | Rollback_while h a \<Rightarrow>
          if block_exists (store (fst st)) h
          then do {
            info \<leftarrow> account_get (store (fst st)) a;
            b \<leftarrow> block_get (store (fst st)) (head info);
            st \<leftarrow> rollback_visit (wait_of (\<lambda>t st. rollback_run t env st) b) env
              (fst st, snd st @ [head info]) b;
            rollback_run (Rollback_while h a) env st }
          else Some st
      | Send_wait k d \<Rightarrow>
          if pending_get (store (fst st)) k = None
          then do {
            st \<leftarrow> rollback_run (Rollback (latest (store (fst st)) d)) env st;
            rollback_run (Send_wait k d) env st }
          else Some st
      | State_wait k d \<Rightarrow>
          if \<not> pending_exists (store (fst st)) k
          then do {
            st \<leftarrow> rollback_run (Rollback (latest (store (fst st)) d)) env st;
            rollback_run (State_wait k d) env st }
          else Some st)"

definition rollback_list :: "env \<Rightarrow> ledger \<Rightarrow> uint256 \<Rightarrow> uint256 list \<Rightarrow> rollback_state option" where
  "rollback_list env l h list = rollback_run (Rollback h) env (l, list)"

definition rollback :: "env \<Rightarrow> ledger \<Rightarrow> uint256 \<Rightarrow> ledger option" where
  "rollback env l h = map_option fst (rollback_list env l h [])"

end
