(* ===== verification/Store_View.thy ===== *)
theory Store_View
  imports Ledger
begin

text \<open>
  The view of a store that the ledger works with: one map of blocks, one of accounts and
  one of pending sends, whatever tables hold them. \<open>store_ok\<close> says that the tables of a
  kind do not overlap and hold what their epoch says; under it every operation of the
  store is an update of the view.
\<close>

section \<open>Definitions\<close>

fun db_type :: "dbi \<Rightarrow> block_type" where
  "db_type Db_send = Bt_send"
| "db_type Db_receive = Bt_receive"
| "db_type Db_open = Bt_open"
| "db_type Db_change = Bt_change"
| "db_type Db_state_v0 = Bt_state"
| "db_type Db_state_v1 = Bt_state"

definition db_epoch :: "dbi \<Rightarrow> epoch" where
  "db_epoch db = (if db = Db_state_v1 then Epoch_1 else Epoch_0)"

definition blocks_ok :: "store \<Rightarrow> bool" where
  "blocks_ok s \<longleftrightarrow>
     (\<forall>db h b sb. block_tables s db h = Some (b, sb) \<longrightarrow> type_of b = db_type db) \<and>
     (\<forall>db db' h. block_tables s db h \<noteq> None \<longrightarrow> block_tables s db' h \<noteq> None \<longrightarrow> db = db')"

definition accounts_ok :: "store \<Rightarrow> bool" where
  "accounts_ok s \<longleftrightarrow>
     (\<forall>a. accounts_v0 s a = None \<or> accounts_v1 s a = None) \<and>
     (\<forall>a i. accounts_v0 s a = Some i \<longrightarrow> info_epoch i = Epoch_0) \<and>
     (\<forall>a i. accounts_v1 s a = Some i \<longrightarrow> info_epoch i = Epoch_1)"

definition pending_ok :: "store \<Rightarrow> bool" where
  "pending_ok s \<longleftrightarrow>
     (\<forall>k. pending_v0 s k = None \<or> pending_v1 s k = None) \<and>
     (\<forall>k p. pending_v0 s k = Some p \<longrightarrow> pending_epoch p = Epoch_0) \<and>
     (\<forall>k p. pending_v1 s k = Some p \<longrightarrow> pending_epoch p = Epoch_1)"

definition store_ok :: "store \<Rightarrow> bool" where
  "store_ok s \<longleftrightarrow> blocks_ok s \<and> accounts_ok s \<and> pending_ok s"

record view =
  vblocks :: "uint256 \<rightharpoonup> block_entry"
  vversion :: "uint256 \<Rightarrow> epoch"
  vaccounts :: "uint256 \<rightharpoonup> account_info"
  vpending :: "pending_key \<rightharpoonup> pending_info"
  vfrontiers :: "uint256 \<rightharpoonup> uint256"
  vweight :: "uint256 \<Rightarrow> uint128"

definition view :: "store \<Rightarrow> view" where
  "view s = \<lparr>vblocks = block_get_sideband s, vversion = block_version s,
     vaccounts = account_get s, vpending = pending_get s, vfrontiers = frontiers s,
     vweight = representation_get s\<rparr>"

text \<open>A store in good order, seen as \<open>v\<close>.\<close>

definition seen_as :: "view \<Rightarrow> store \<Rightarrow> bool" where
  "seen_as v s \<longleftrightarrow> store_ok s \<and> view s = v"

lemma view_simps [simp]:
  "vblocks (view s) = block_get_sideband s"
  "vversion (view s) = block_version s"
  "vaccounts (view s) = account_get s"
  "vpending (view s) = pending_get s"
  "vfrontiers (view s) = frontiers s"
  "vweight (view s) = representation_get s"
  by (simp_all add: view_def)

lemma view_eqI:
  assumes "block_get_sideband s = vblocks v" "block_version s = vversion v"
    "account_get s = vaccounts v" "pending_get s = vpending v"
    "frontiers s = vfrontiers v" "representation_get s = vweight v"
  shows "view s = v"
  using assms by (cases v) (simp add: view_def)

section \<open>Blocks\<close>

lemma ex_dbi:
  "(\<exists>db. P db) \<longleftrightarrow> P Db_send \<or> P Db_receive \<or> P Db_open \<or> P Db_change \<or> P Db_state_v0 \<or> P Db_state_v1"
  by (metis dbi.exhaust)

lemma block_raw_get_tables:
  assumes "blocks_ok s"
  shows "block_raw_get s h = Some (t, e) \<longleftrightarrow> (\<exists>db. block_tables s db h = Some e \<and> t = db_type db)"
proof
  assume "block_raw_get s h = Some (t, e)"
  then show "\<exists>db. block_tables s db h = Some e \<and> t = db_type db"
    by (auto simp: block_raw_get_def ex_dbi split: option.splits)
next
  assume "\<exists>db. block_tables s db h = Some e \<and> t = db_type db"
  then obtain db where db: "block_tables s db h = Some e" "t = db_type db" by blast
  have other: "block_tables s db' h = None" if "db' \<noteq> db" for db'
    using assms db(1) that unfolding blocks_ok_def by (metis option.distinct(1))
  show "block_raw_get s h = Some (t, e)"
    using db other by (cases db) (simp_all add: block_raw_get_def)
qed

lemma block_get_sideband_tables:
  assumes "blocks_ok s"
  shows "block_get_sideband s h = Some e \<longleftrightarrow> (\<exists>db. block_tables s db h = Some e)"
  unfolding block_get_sideband_def map_option_eq_Some
  by (metis block_raw_get_tables [OF assms] prod.collapse snd_conv)

lemma block_get_sideband_None:
  assumes "blocks_ok s"
  shows "block_get_sideband s h = None \<longleftrightarrow> (\<forall>db. block_tables s db h = None)"
  by (metis assms block_get_sideband_tables not_None_eq)

lemma block_raw_get_view:
  assumes "blocks_ok s"
  shows "block_raw_get s h = map_option (\<lambda>e. (type_of (fst e), e)) (block_get_sideband s h)"
proof (cases "block_raw_get s h")
  case None
  then show ?thesis by (simp add: block_get_sideband_def)
next
  case (Some te)
  obtain t e where te: "te = (t, e)" by (cases te)
  with Some obtain db where "block_tables s db h = Some e" "t = db_type db"
    using block_raw_get_tables [OF assms] by blast
  then have "t = type_of (fst e)"
    using assms unfolding blocks_ok_def by (metis prod.collapse)
  then show ?thesis using Some te by (simp add: block_get_sideband_def)
qed

lemma block_exists_view: "block_exists s h \<longleftrightarrow> block_get_sideband s h \<noteq> None"
  by (auto simp: block_exists_def block_get_sideband_def block_raw_get_def split: option.splits)

lemma block_get_view: "block_get s h = map_option fst (block_get_sideband s h)"
  by (simp add: block_get_def)

lemma block_successor_view:
  "block_successor s h = (case block_get_sideband s h of Some (b, sb) \<Rightarrow> successor sb | None \<Rightarrow> 0)"
  by (auto simp: block_successor_def block_get_sideband_def split: option.split)

lemma block_exists_type_view:
  assumes "blocks_ok s"
  shows "block_exists_type s (type_of b) h \<longleftrightarrow>
    (\<exists>b' sb. block_get_sideband s h = Some (b', sb) \<and> type_of b' = type_of b)"
proof -
  have types: "type_of b' = db_type db" if "block_tables s db h = Some (b', sb)" for db b' sb
    using assms that unfolding blocks_ok_def by metis
  have "block_exists_type s (type_of b) h \<longleftrightarrow> (\<exists>db. block_tables s db h \<noteq> None \<and> db_type db = type_of b)"
    by (cases b) (simp_all add: ex_dbi)
  also have "\<dots> \<longleftrightarrow> (\<exists>db b' sb. block_tables s db h = Some (b', sb) \<and> type_of b' = type_of b)"
    using types by (metis not_None_eq surj_pair)
  finally show ?thesis
    by (auto simp: block_get_sideband_tables [OF assms])
qed

lemma block_version_tables:
  assumes "blocks_ok s" "block_tables s db h = Some e"
  shows "block_version s h = db_epoch db"
  using assms unfolding block_version_def db_epoch_def blocks_ok_def
  by (metis option.distinct(1))

lemma block_database_db:
  assumes "block_database t e = Some db"
  shows "db_type db = t" "db_epoch db = e"
  using assms by (cases t; cases e; auto simp: db_epoch_def split: if_splits)+

lemma block_database_own: "block_database (db_type db) (db_epoch db) = Some db"
  by (cases db) (simp_all add: db_epoch_def)

lemma blocks_ok_put:
  assumes "blocks_ok s" "type_of b = db_type db"
    and "\<forall>db'. block_tables s db' h \<noteq> None \<longrightarrow> db' = db"
  shows "blocks_ok (block_raw_put s db h (b, sb))"
  using assms unfolding blocks_ok_def block_raw_put_def by (auto split: if_splits) metis+

lemma block_raw_put_view:
  fixes sb :: block_sideband
  assumes "blocks_ok s" "type_of b = db_type db"
    and other: "\<forall>db'. block_tables s db' h \<noteq> None \<longrightarrow> db' = db"
  defines "s' \<equiv> block_raw_put s db h (b, sb)"
  shows "block_get_sideband s' = (block_get_sideband s)(h \<mapsto> (b, sb))"
    and "block_version s' = (block_version s)(h := db_epoch db)"
proof -
  have ok: "blocks_ok s'"
    using blocks_ok_put [OF assms(1-3)] by (simp add: s'_def)
  show "block_get_sideband s' = (block_get_sideband s)(h \<mapsto> (b, sb))"
  proof
    fix h'
    have "block_get_sideband s' h' = Some e \<longleftrightarrow> ((block_get_sideband s)(h \<mapsto> (b, sb))) h' = Some e" for e
      unfolding block_get_sideband_tables [OF ok]
      using other by (cases "h' = h")
        (auto simp: s'_def block_raw_put_def block_get_sideband_tables [OF assms(1)])
    then show "block_get_sideband s' h' = ((block_get_sideband s)(h \<mapsto> (b, sb))) h'"
      by (metis not_Some_eq)
  qed
  show "block_version s' = (block_version s)(h := db_epoch db)"
  proof
    fix h'
    show "block_version s' h' = ((block_version s)(h := db_epoch db)) h'"
      using other by (cases "h' = h")
        (auto simp: s'_def block_raw_put_def block_version_def db_epoch_def)
  qed
qed

lemma block_raw_put_other [simp]:
  "frontiers (block_raw_put s db h e) = frontiers s"
  "accounts_v0 (block_raw_put s db h e) = accounts_v0 s"
  "accounts_v1 (block_raw_put s db h e) = accounts_v1 s"
  "pending_v0 (block_raw_put s db h e) = pending_v0 s"
  "pending_v1 (block_raw_put s db h e) = pending_v1 s"
  "representation (block_raw_put s db h e) = representation s"
  by (simp_all add: block_raw_put_def)

lemma block_raw_put_view_other [simp]:
  "account_get (block_raw_put s db h e) = account_get s"
  "pending_get (block_raw_put s db h e) = pending_get s"
  "representation_get (block_raw_put s db h e) = representation_get s"
  "accounts_ok (block_raw_put s db h e) = accounts_ok s"
  "pending_ok (block_raw_put s db h e) = pending_ok s"
  by (simp_all add: fun_eq_iff account_get_def pending_get_def representation_get_def
      accounts_ok_def pending_ok_def split: option.split)

text \<open>Adding a block whose hash is new.\<close>

lemma block_raw_put_new:
  assumes "store_ok s" "block_get_sideband s h = None" "block_database (type_of b) e = Some db"
  shows "store_ok (block_raw_put s db h (b, sb))"
    and "view (block_raw_put s db h (b, sb)) =
      (view s)\<lparr>vblocks := (vblocks (view s))(h \<mapsto> (b, sb)), vversion := (vversion (view s))(h := e)\<rparr>"
proof -
  have ok: "blocks_ok s" using assms(1) by (simp add: store_ok_def)
  have fresh: "\<forall>db'. block_tables s db' h \<noteq> None \<longrightarrow> db' = db"
    using assms(2) by (simp add: block_get_sideband_None [OF ok])
  note db = block_database_db [OF assms(3)]
  show "store_ok (block_raw_put s db h (b, sb))"
    using assms(1) blocks_ok_put [OF ok db(1) [symmetric] fresh] by (simp add: store_ok_def)
  show "view (block_raw_put s db h (b, sb)) =
      (view s)\<lparr>vblocks := (vblocks (view s))(h \<mapsto> (b, sb)), vversion := (vversion (view s))(h := e)\<rparr>"
    using block_raw_put_view [OF ok db(1) [symmetric] fresh] db(2) by (intro view_eqI) simp_all
qed

text \<open>Overwriting the successor of a block that is there.\<close>

lemma block_successor_put_ok:
  assumes "store_ok s" "block_get_sideband s h = Some (b, sb)"
  obtains s' where "block_successor_put s h x = Some s'" "store_ok s'"
    "view s' = (view s)\<lparr>vblocks := (vblocks (view s))(h \<mapsto> (b, sb\<lparr>successor := x\<rparr>))\<rparr>"
proof -
  have ok: "blocks_ok s" using assms(1) by (simp add: store_ok_def)
  obtain db where db: "block_tables s db h = Some (b, sb)"
    using assms(2) by (auto simp: block_get_sideband_tables [OF ok])
  have type: "type_of b = db_type db"
    using ok db unfolding blocks_ok_def by blast
  have version: "block_version s h = db_epoch db"
    by (rule block_version_tables [OF ok db])
  have only: "\<forall>db'. block_tables s db' h \<noteq> None \<longrightarrow> db' = db"
    using ok db unfolding blocks_ok_def by (metis option.distinct(1))
  let ?s = "block_raw_put s db h (b, sb\<lparr>successor := x\<rparr>)"
  have "block_successor_put s h x = Some ?s"
    using assms(2) by (simp add: block_successor_put_def block_raw_get_view [OF ok] type version
        block_database_own)
  moreover have "store_ok ?s"
    using assms(1) blocks_ok_put [OF ok type only] by (simp add: store_ok_def)
  moreover have "view ?s = (view s)\<lparr>vblocks := (vblocks (view s))(h \<mapsto> (b, sb\<lparr>successor := x\<rparr>))\<rparr>"
    using block_raw_put_view [OF ok type only] version by (intro view_eqI) auto
  ultimately show ?thesis by (rule that)
qed

text \<open>\<open>block_put\<close> of a new block adds it and sets the successor of its predecessor.\<close>

definition entry_link :: "(uint256 \<rightharpoonup> block_entry) \<Rightarrow> uint256 \<Rightarrow> uint256 \<Rightarrow> (uint256 \<rightharpoonup> block_entry)" where
  "entry_link m p x =
     (case m p of Some (b, sb) \<Rightarrow> m(p \<mapsto> (b, sb\<lparr>successor := x\<rparr>)) | None \<Rightarrow> m)"

lemma entry_link_Some:
  "m y = Some (b, sb) \<Longrightarrow> entry_link m p x y = Some (b, if y = p then sb\<lparr>successor := x\<rparr> else sb)"
  by (auto simp: entry_link_def split: option.split)

definition vblock_put :: "view \<Rightarrow> uint256 \<Rightarrow> block \<Rightarrow> block_sideband \<Rightarrow> epoch \<Rightarrow> view" where
  "vblock_put v h b sb e =
     v\<lparr>vblocks := entry_link ((vblocks v)(h \<mapsto> (b, sideband_stored sb))) (previous b) h,
       vversion := (vversion v)(h := e)\<rparr>"

lemma block_put_ok:
  assumes "store_ok s" "block_get_sideband s h = None" "block_hash H b = h"
    and "type_of b = sb_type sb" "successor sb = 0" "block_database (type_of b) e = Some db"
    and prev: "if previous b = 0 then block_get_sideband s 0 = None \<and> type_of b \<in> {Bt_open, Bt_state} \<and> h \<noteq> 0
      else block_get_sideband s (previous b) \<noteq> None"
  obtains s' where "block_put H s h b sb e = Some s'" "store_ok s'" "view s' = vblock_put (view s) h b sb e"
proof -
  let ?s = "block_raw_put s db h (b, sideband_stored sb)"
  note new = block_raw_put_new [OF assms(1,2,6), of "sideband_stored sb"]
  have blocks: "block_get_sideband ?s = (block_get_sideband s)(h \<mapsto> (b, sideband_stored sb))"
    using arg_cong [OF new(2), of vblocks] by simp
  show ?thesis
  proof (cases "previous b = 0")
    case True
    with prev have "block_predecessor_set H ?s b = Some ?s"
      by (cases b) auto
    moreover have "view ?s = vblock_put (view s) h b sb e"
      using True prev new(2) by (simp add: vblock_put_def entry_link_def)
    ultimately show ?thesis
      using that [of ?s] new(1) assms(4-6) True by (simp add: block_put_def)
  next
    case False
    with prev obtain b' sb' where p: "block_get_sideband s (previous b) = Some (b', sb')"
      by auto
    then have ph: "previous b \<noteq> h" using assms(2) by auto
    then have "block_get_sideband ?s (previous b) = Some (b', sb')"
      using blocks p by simp
    from block_successor_put_ok [OF new(1) this, of h]
    obtain s' where s': "block_successor_put ?s (previous b) h = Some s'" "store_ok s'"
      "view s' = (view ?s)\<lparr>vblocks := (vblocks (view ?s))(previous b \<mapsto> (b', sb'\<lparr>successor := h\<rparr>))\<rparr>"
      by blast
    have v: "view s' = vblock_put (view s) h b sb e"
      using s'(3) new(2) p ph by (simp add: vblock_put_def entry_link_def)
    have "block_predecessor_set H ?s b = Some s'"
      using False s'(1) assms(3) by (cases b) (simp_all add: fill_value_def)
    moreover have "block_successor s' (previous b) = h"
      using arg_cong [OF s'(3), of vblocks] by (simp add: block_successor_view)
    ultimately show ?thesis
      using that [of s'] s'(2) v assms(4-6) by (simp add: block_put_def)
  qed
qed

section \<open>Tables kept per epoch\<close>

text \<open>
  Accounts and pending sends each live in two tables, one per epoch. This is what both
  pairs of tables promise: a read prefers the table of epoch 1, a write goes to the table
  the value's epoch names, and a deletion takes the entry from where it is.
\<close>

locale epoch_tables =
  fixes tab0 tab1 :: "store \<Rightarrow> 'k \<rightharpoonup> 'v"
    and set0 set1 :: "('k \<rightharpoonup> 'v) \<Rightarrow> store \<Rightarrow> store"
    and tag :: "'v \<Rightarrow> epoch"
    and retag :: "epoch \<Rightarrow> 'v \<Rightarrow> 'v"
    and get :: "store \<Rightarrow> 'k \<rightharpoonup> 'v"
    and put :: "store \<Rightarrow> 'k \<Rightarrow> 'v \<Rightarrow> store option"
    and del :: "store \<Rightarrow> 'k \<Rightarrow> store option"
    and ok :: "store \<Rightarrow> bool"
  assumes set0: "tab0 (set0 m s) = m" "tab1 (set0 m s) = tab1 s"
    and set1: "tab0 (set1 m s) = tab0 s" "tab1 (set1 m s) = m"
    and retag: "retag (tag v) v = v"
    and get: "get s k = (case tab1 s k of
        Some v \<Rightarrow> Some (retag Epoch_1 v) | None \<Rightarrow> map_option (retag Epoch_0) (tab0 s k))"
    and put: "put s k v = (case tag v of
        Epoch_0 \<Rightarrow> Some (set0 ((tab0 s)(k \<mapsto> v)) s)
      | Epoch_1 \<Rightarrow> Some (set1 ((tab1 s)(k \<mapsto> v)) s) | _ \<Rightarrow> None)"
    and del: "del s k =
        (if tab1 s k \<noteq> None then Some (set1 ((tab1 s)(k := None)) s)
         else if tab0 s k \<noteq> None then Some (set0 ((tab0 s)(k := None)) s) else None)"
    and ok: "ok s \<longleftrightarrow> (\<forall>k. tab0 s k = None \<or> tab1 s k = None) \<and>
        (\<forall>k v. tab0 s k = Some v \<longrightarrow> tag v = Epoch_0) \<and> (\<forall>k v. tab1 s k = Some v \<longrightarrow> tag v = Epoch_1)"
begin

lemma get_tables:
  assumes "ok s"
  shows "get s k = (case tab1 s k of Some v \<Rightarrow> Some v | None \<Rightarrow> tab0 s k)"
proof -
  have "retag Epoch_0 v = v" if "tab0 s k = Some v" for v
    using assms that retag [of v] by (simp add: ok)
  moreover have "retag Epoch_1 v = v" if "tab1 s k = Some v" for v
    using assms that retag [of v] by (simp add: ok)
  ultimately show ?thesis by (cases "tab0 s k"; cases "tab1 s k") (simp_all add: get)
qed

lemma get_tag: "ok s \<Longrightarrow> get s k = Some v \<Longrightarrow> tag v \<in> {Epoch_0, Epoch_1}"
  by (auto simp: get_tables ok split: option.splits)

lemma ok_set0:
  "ok s \<Longrightarrow> tab1 s k = None \<or> x = None \<Longrightarrow> \<forall>v. x = Some v \<longrightarrow> tag v = Epoch_0 \<Longrightarrow>
    ok (set0 ((tab0 s)(k := x)) s)"
  unfolding ok set0 by auto

lemma ok_set1:
  "ok s \<Longrightarrow> tab0 s k = None \<or> x = None \<Longrightarrow> \<forall>v. x = Some v \<longrightarrow> tag v = Epoch_1 \<Longrightarrow>
    ok (set1 ((tab1 s)(k := x)) s)"
  unfolding ok set1 by auto

lemma get_set0:
  assumes "ok s" "tab1 s k = None" "\<forall>v. x = Some v \<longrightarrow> tag v = Epoch_0"
  shows "get (set0 ((tab0 s)(k := x)) s) = (get s)(k := x)"
  using assms by (auto simp: fun_eq_iff get_tables [OF ok_set0] get_tables set0 split: option.split)

lemma get_set1:
  assumes "ok s" "tab0 s k = None" "\<forall>v. x = Some v \<longrightarrow> tag v = Epoch_1"
  shows "get (set1 ((tab1 s)(k := x)) s) = (get s)(k := x)"
  using assms by (auto simp: fun_eq_iff get_tables [OF ok_set1] get_tables set1 split: option.split)

lemma put_table:
  assumes "ok s" "tag v \<in> {Epoch_0, Epoch_1}" "\<forall>w. get s k = Some w \<longrightarrow> tag w = tag v"
  shows "\<exists>s'. put s k v = Some s' \<and> ok s' \<and> get s' = (get s)(k \<mapsto> v)"
proof (cases "tag v = Epoch_0")
  case True
  have "tab1 s k \<noteq> Some w" for w
  proof
    assume "tab1 s k = Some w"
    then have "get s k = Some w" "tag w = Epoch_1"
      using assms(1) get_tables [OF assms(1)] by (simp, simp add: ok)
    then show False using assms(3) True by simp
  qed
  then have "tab1 s k = None" by (cases "tab1 s k") auto
  then show ?thesis
    using assms(1) True ok_set0 [of s k "Some v"] get_set0 [of s k "Some v"] by (simp add: put)
next
  case False
  with assms(2) have e: "tag v = Epoch_1" by simp
  have "tab0 s k = None \<or> tab1 s k = None" using assms(1) by (simp add: ok)
  moreover have "tab0 s k \<noteq> Some w" if "tab1 s k = None" for w
  proof
    assume "tab0 s k = Some w"
    then have "get s k = Some w" "tag w = Epoch_0"
      using assms(1) that get_tables [OF assms(1)] by (simp, simp add: ok)
    then show False using assms(3) e by simp
  qed
  ultimately have "tab0 s k = None" by (cases "tab0 s k") auto
  then show ?thesis
    using assms(1) e ok_set1 [of s k "Some v"] get_set1 [of s k "Some v"] by (simp add: put)
qed

lemma del_table:
  assumes "ok s" "get s k \<noteq> None"
  shows "\<exists>s'. del s k = Some s' \<and> ok s' \<and> get s' = (get s)(k := None)"
proof (cases "tab1 s k")
  case None
  have "tab0 s k \<noteq> None" using assms(2) None unfolding get_tables [OF assms(1)] by simp
  then show ?thesis
    using None ok_set0 [OF assms(1), of k None] get_set0 [OF assms(1) None, of None]
    unfolding del by simp
next
  case (Some v)
  have "tab0 s k = None \<or> tab1 s k = None" using assms(1) by (simp add: ok)
  with Some have "tab0 s k = None" by simp
  then show ?thesis
    using Some ok_set1 [OF assms(1), of k None] get_set1 [OF assms(1), of k None]
    unfolding del by simp
qed

end

interpretation accounts: epoch_tables accounts_v0 accounts_v1
  "\<lambda>m. accounts_v0_update (\<lambda>_. m)" "\<lambda>m. accounts_v1_update (\<lambda>_. m)" info_epoch
  "\<lambda>e. info_epoch_update (\<lambda>_. e)" account_get account_put account_del accounts_ok
  by unfold_locales (simp_all add: account_get_def account_put_def account_del_def accounts_ok_def)

interpretation pending: epoch_tables pending_v0 pending_v1
  "\<lambda>m. pending_v0_update (\<lambda>_. m)" "\<lambda>m. pending_v1_update (\<lambda>_. m)" pending_epoch
  "\<lambda>e. pending_epoch_update (\<lambda>_. e)" pending_get pending_put pending_del pending_ok
  by unfold_locales (simp_all add: pending_get_def pending_put_def pending_del_def pending_ok_def)

section \<open>Operations as updates of the view\<close>

lemma blocks_frame:
  assumes "block_tables s' = block_tables s"
  shows "block_get_sideband s' = block_get_sideband s" "block_version s' = block_version s"
    "blocks_ok s' = blocks_ok s"
  unfolding fun_eq_iff block_get_sideband_def block_raw_get_def block_raw_get_types.simps
    block_raw_get_by_type.simps block_version_def blocks_ok_def assms by simp_all

lemma accounts_frame:
  assumes "accounts_v0 s' = accounts_v0 s" "accounts_v1 s' = accounts_v1 s"
  shows "account_get s' = account_get s" "accounts_ok s' = accounts_ok s"
  unfolding fun_eq_iff account_get_def accounts_ok_def assms by simp_all

lemma pending_frame:
  assumes "pending_v0 s' = pending_v0 s" "pending_v1 s' = pending_v1 s"
  shows "pending_get s' = pending_get s" "pending_ok s' = pending_ok s"
  unfolding fun_eq_iff pending_get_def pending_ok_def assms by simp_all

lemma representation_frame:
  "representation s' = representation s \<Longrightarrow> representation_get s' = representation_get s"
  by (simp add: fun_eq_iff representation_get_def)

lemma view_accounts_update:
  assumes "block_tables s' = block_tables s" "pending_v0 s' = pending_v0 s"
    "pending_v1 s' = pending_v1 s" "frontiers s' = frontiers s" "representation s' = representation s"
    and "store_ok s" "accounts_ok s'" "account_get s' = m"
  shows "store_ok s'" "view s' = (view s)\<lparr>vaccounts := m\<rparr>"
  using assms blocks_frame [OF assms(1)] pending_frame [OF assms(2,3)]
    representation_frame [OF assms(5)]
  by (simp add: store_ok_def, intro view_eqI) simp_all

lemma view_pending_update:
  assumes "block_tables s' = block_tables s" "accounts_v0 s' = accounts_v0 s"
    "accounts_v1 s' = accounts_v1 s" "frontiers s' = frontiers s" "representation s' = representation s"
    and "store_ok s" "pending_ok s'" "pending_get s' = m"
  shows "store_ok s'" "view s' = (view s)\<lparr>vpending := m\<rparr>"
  using assms blocks_frame [OF assms(1)] accounts_frame [OF assms(2,3)]
    representation_frame [OF assms(5)]
  by (simp add: store_ok_def, intro view_eqI) simp_all

lemma account_put_frame:
  assumes "account_put s a i = Some s'"
  shows "block_tables s' = block_tables s" "pending_v0 s' = pending_v0 s"
    "pending_v1 s' = pending_v1 s" "frontiers s' = frontiers s" "representation s' = representation s"
  using assms by (auto simp: account_put_def split: epoch.splits)

lemma account_del_frame:
  assumes "account_del s a = Some s'"
  shows "block_tables s' = block_tables s" "pending_v0 s' = pending_v0 s"
    "pending_v1 s' = pending_v1 s" "frontiers s' = frontiers s" "representation s' = representation s"
  using assms by (auto simp: account_del_def split: if_splits)

lemma pending_put_frame:
  assumes "pending_put s k p = Some s'"
  shows "block_tables s' = block_tables s" "accounts_v0 s' = accounts_v0 s"
    "accounts_v1 s' = accounts_v1 s" "frontiers s' = frontiers s" "representation s' = representation s"
  using assms by (auto simp: pending_put_def split: epoch.splits)

lemma pending_del_frame:
  assumes "pending_del s k = Some s'"
  shows "block_tables s' = block_tables s" "accounts_v0 s' = accounts_v0 s"
    "accounts_v1 s' = accounts_v1 s" "frontiers s' = frontiers s" "representation s' = representation s"
  using assms by (auto simp: pending_del_def split: if_splits)

lemma account_put_ok:
  assumes "store_ok s" "info_epoch i \<in> {Epoch_0, Epoch_1}"
    and "\<forall>j. account_get s a = Some j \<longrightarrow> info_epoch j = info_epoch i"
  obtains s' where "account_put s a i = Some s'" "store_ok s'"
    "view s' = (view s)\<lparr>vaccounts := (vaccounts (view s))(a \<mapsto> i)\<rparr>"
proof -
  obtain s' where s': "account_put s a i = Some s'" "accounts_ok s'"
    "account_get s' = (account_get s)(a \<mapsto> i)"
    using accounts.put_table [of s i a] assms unfolding store_ok_def by blast
  show ?thesis
    using that [OF s'(1)] view_accounts_update [OF account_put_frame [OF s'(1)] assms(1) s'(2,3)] by simp
qed

lemma account_del_ok:
  assumes "store_ok s" "account_get s a \<noteq> None"
  obtains s' where "account_del s a = Some s'" "store_ok s'"
    "view s' = (view s)\<lparr>vaccounts := (vaccounts (view s))(a := None)\<rparr>"
proof -
  obtain s' where s': "account_del s a = Some s'" "accounts_ok s'"
    "account_get s' = (account_get s)(a := None)"
    using accounts.del_table [of s a] assms unfolding store_ok_def by blast
  show ?thesis
    using that [OF s'(1)] view_accounts_update [OF account_del_frame [OF s'(1)] assms(1) s'(2,3)] by simp
qed

lemma pending_put_ok:
  assumes "store_ok s" "pending_epoch p \<in> {Epoch_0, Epoch_1}"
    and "\<forall>j. pending_get s k = Some j \<longrightarrow> pending_epoch j = pending_epoch p"
  obtains s' where "pending_put s k p = Some s'" "store_ok s'"
    "view s' = (view s)\<lparr>vpending := (vpending (view s))(k \<mapsto> p)\<rparr>"
proof -
  obtain s' where s': "pending_put s k p = Some s'" "pending_ok s'"
    "pending_get s' = (pending_get s)(k \<mapsto> p)"
    using pending.put_table [of s p k] assms unfolding store_ok_def by blast
  show ?thesis
    using that [OF s'(1)] view_pending_update [OF pending_put_frame [OF s'(1)] assms(1) s'(2,3)] by simp
qed

lemma pending_del_ok:
  assumes "store_ok s" "pending_get s k \<noteq> None"
  obtains s' where "pending_del s k = Some s'" "store_ok s'"
    "view s' = (view s)\<lparr>vpending := (vpending (view s))(k := None)\<rparr>"
proof -
  obtain s' where s': "pending_del s k = Some s'" "pending_ok s'"
    "pending_get s' = (pending_get s)(k := None)"
    using pending.del_table [of s k] assms unfolding store_ok_def by blast
  show ?thesis
    using that [OF s'(1)] view_pending_update [OF pending_del_frame [OF s'(1)] assms(1) s'(2,3)] by simp
qed

lemma frontier_put_view [simp]:
  "store_ok (frontier_put s h a) = store_ok s"
  "view (frontier_put s h a) = (view s)\<lparr>vfrontiers := (vfrontiers (view s))(h \<mapsto> a)\<rparr>"
proof -
  have same: "block_tables (frontier_put s h a) = block_tables s"
    "accounts_v0 (frontier_put s h a) = accounts_v0 s" "accounts_v1 (frontier_put s h a) = accounts_v1 s"
    "pending_v0 (frontier_put s h a) = pending_v0 s" "pending_v1 (frontier_put s h a) = pending_v1 s"
    "representation (frontier_put s h a) = representation s"
    by (simp_all add: frontier_put_def)
  note frames = blocks_frame [OF same(1)] accounts_frame [OF same(2,3)] pending_frame [OF same(4,5)]
    representation_frame [OF same(6)]
  show "store_ok (frontier_put s h a) = store_ok s" by (simp add: store_ok_def frames)
  show "view (frontier_put s h a) = (view s)\<lparr>vfrontiers := (vfrontiers (view s))(h \<mapsto> a)\<rparr>"
    by (intro view_eqI) (simp_all add: frames, simp add: frontier_put_def)
qed

lemma frontier_del_ok:
  assumes "store_ok s" "frontiers s h \<noteq> None"
  obtains s' where "frontier_del s h = Some s'" "store_ok s'"
    "view s' = (view s)\<lparr>vfrontiers := (vfrontiers (view s))(h := None)\<rparr>"
proof -
  let ?s = "s\<lparr>frontiers := (frontiers s)(h := None)\<rparr>"
  have same: "block_tables ?s = block_tables s"
    "accounts_v0 ?s = accounts_v0 s" "accounts_v1 ?s = accounts_v1 s"
    "pending_v0 ?s = pending_v0 s" "pending_v1 ?s = pending_v1 s"
    "representation ?s = representation s"
    by simp_all
  note frames = blocks_frame [OF same(1)] accounts_frame [OF same(2,3)] pending_frame [OF same(4,5)]
    representation_frame [OF same(6)]
  have "view ?s = (view s)\<lparr>vfrontiers := (vfrontiers (view s))(h := None)\<rparr>"
    by (intro view_eqI) (simp_all add: frames)
  then show ?thesis
    using that [of ?s] assms by (simp add: frontier_del_def store_ok_def frames)
qed

lemma representation_put_view [simp]:
  "store_ok (representation_put s a w) = store_ok s"
  "view (representation_put s a w) = (view s)\<lparr>vweight := (vweight (view s))(a := w)\<rparr>"
proof -
  have same: "block_tables (representation_put s a w) = block_tables s"
    "accounts_v0 (representation_put s a w) = accounts_v0 s"
    "accounts_v1 (representation_put s a w) = accounts_v1 s"
    "pending_v0 (representation_put s a w) = pending_v0 s"
    "pending_v1 (representation_put s a w) = pending_v1 s"
    by (simp_all add: representation_put_def)
  note frames = blocks_frame [OF same(1)] accounts_frame [OF same(2,3)] pending_frame [OF same(4,5)]
  show "store_ok (representation_put s a w) = store_ok s" by (simp add: store_ok_def frames)
  show "view (representation_put s a w) = (view s)\<lparr>vweight := (vweight (view s))(a := w)\<rparr>"
    by (intro view_eqI) (simp_all add: frames,
      simp_all add: representation_put_def representation_get_def fun_eq_iff)
qed

lemma representation_add_ok:
  assumes "store_ok s" "block_get_sideband s x = Some (b, sb)"
  obtains s' where "representation_add s x d = Some s'" "store_ok s'"
    "view s' = (view s)\<lparr>vweight := (vweight (view s))
      (representative b := vweight (view s) (representative b) + d)\<rparr>"
  using that assms by (simp add: representation_add_def block_get_def)

section \<open>The head of an account\<close>

definition info_next ::
  "account_info option \<Rightarrow> uint64 \<Rightarrow> uint256 \<Rightarrow> uint256 \<Rightarrow> uint128 \<Rightarrow> uint64 \<Rightarrow> epoch \<Rightarrow> account_info" where
  "info_next i t h rep bal count e =
     (case i of Some i \<Rightarrow> i | None \<Rightarrow> account_info_init\<lparr>open_block := h\<rparr>)
       \<lparr>head := h, rep_block := rep, info_balance := bal, modified := t, block_count := count,
         info_epoch := e\<rparr>"

lemma info_next_simps [simp]:
  "head (info_next i t h rep bal count e) = h"
  "rep_block (info_next i t h rep bal count e) = rep"
  "open_block (info_next i t h rep bal count e) = (case i of Some i \<Rightarrow> open_block i | None \<Rightarrow> h)"
  "info_balance (info_next i t h rep bal count e) = bal"
  "modified (info_next i t h rep bal count e) = t"
  "block_count (info_next i t h rep bal count e) = count"
  "info_epoch (info_next i t h rep bal count e) = e"
  by (simp_all add: info_next_def split: option.split)

lemma change_latest_ok:
  assumes "store_ok s" "h \<noteq> 0" "e \<in> {Epoch_0, Epoch_1}"
    and new: "account_get s a = None \<Longrightarrow> \<exists>b sb. block_get_sideband s h = Some (b, sb) \<and> previous b = 0"
  obtains s' where "change_latest t s a h rep bal count e = Some s'" "store_ok s'"
    "view s' = (view s)\<lparr>vaccounts := (vaccounts (view s))
      (a \<mapsto> info_next (account_get s a) t h rep bal count e)\<rparr>"
proof -
  let ?i = "info_next (account_get s a) t h rep bal count e"
  have call: "change_latest t s a h rep bal count e = do {
      s \<leftarrow> (if account_get s a \<noteq> None \<and> info_epoch (the (account_get s a)) \<noteq> e
            then account_del s a else Some s);
      account_put s a ?i }"
    using assms(2) new by (cases "account_get s a")
      (auto simp: change_latest_def info_next_def block_get_def)
  obtain s1 where s1: "(if account_get s a \<noteq> None \<and> info_epoch (the (account_get s a)) \<noteq> e
      then account_del s a else Some s) = Some s1" "store_ok s1"
    "\<forall>j. account_get s1 a = Some j \<longrightarrow> info_epoch j = e"
    "(view s1)\<lparr>vaccounts := (vaccounts (view s1))(a \<mapsto> ?i)\<rparr> =
      (view s)\<lparr>vaccounts := (vaccounts (view s))(a \<mapsto> ?i)\<rparr>"
  proof (cases "account_get s a \<noteq> None \<and> info_epoch (the (account_get s a)) \<noteq> e")
    case True
    then obtain s1 where s1: "account_del s a = Some s1" "store_ok s1"
      "view s1 = (view s)\<lparr>vaccounts := (vaccounts (view s))(a := None)\<rparr>"
      using account_del_ok [OF assms(1)] by blast
    have "account_get s1 a = None"
      using arg_cong [OF s1(3), of vaccounts] by simp
    then show ?thesis using that [of s1] True s1 by simp
  next
    case False
    then show ?thesis using that [of s] assms(1) by auto
  qed
  have "\<forall>j. account_get s1 a = Some j \<longrightarrow> info_epoch j = info_epoch ?i"
    using s1(3) by simp
  from account_put_ok [OF s1(2) _ this]
  obtain s' where "account_put s1 a ?i = Some s'" "store_ok s'"
    "view s' = (view s1)\<lparr>vaccounts := (vaccounts (view s1))(a \<mapsto> ?i)\<rparr>"
    using assms(3) by auto
  then show ?thesis using that call s1(1,4) by simp
qed

section \<open>Lookups through iterators\<close>

lemma keys_from_hd:
  assumes "finite (dom m)"
  shows "(case keys_from m k of [] \<Rightarrow> False | j # _ \<Rightarrow> j = k) \<longleftrightarrow> k \<in> dom m"
    "keys_from m k = j # js \<Longrightarrow> k \<le> j"
proof -
  have fin: "finite {j \<in> dom m. k \<le> j}" using assms by simp
  then have set: "set (keys_from m k) = {j \<in> dom m. k \<le> j}" and sorted: "sorted (keys_from m k)"
    by (simp_all add: keys_from_def)
  show ge: "k \<le> j" if "keys_from m k = j # js" for j js
    using set that by (metis (mono_tags, lifting) list.set_intros(1) mem_Collect_eq)
  show "(case keys_from m k of [] \<Rightarrow> False | j # _ \<Rightarrow> j = k) \<longleftrightarrow> k \<in> dom m"
  proof (cases "keys_from m k")
    case Nil
    then show ?thesis using set by auto
  next
    case (Cons j js)
    have "j = k" if "k \<in> dom m"
    proof -
      have "k \<in> set (keys_from m k)" using set that by simp
      then have "j \<le> k" using sorted Cons by auto
      with ge [OF Cons] show ?thesis by simp
    qed
    moreover have "j \<in> dom m" using set Cons by auto
    ultimately show ?thesis using Cons by auto
  qed
qed

lemma least_iterator_at:
  assumes "finite (dom m)" "finite (dom m')"
  shows "least_iterator (keys_from m k) (keys_from m' k) = Some k \<longleftrightarrow> k \<in> dom m \<or> k \<in> dom m'"
  using keys_from_hd [OF assms(1), of k] keys_from_hd [OF assms(2), of k]
  by (cases "keys_from m k"; cases "keys_from m' k") (auto split: if_splits)

text \<open>The existence tests of the program go through an iterator; they agree with the lookups.\<close>

lemma account_exists_view:
  assumes "finite (dom (account_get s))"
  shows "account_exists s a \<longleftrightarrow> account_get s a \<noteq> None"
proof -
  have "dom (account_get s) = dom (accounts_v0 s) \<union> dom (accounts_v1 s)"
    by (auto simp: account_get_def split: option.splits)
  with assms have "finite (dom (accounts_v0 s))" "finite (dom (accounts_v1 s))" by simp_all
  from least_iterator_at [OF this, of a] show ?thesis
    by (auto simp: account_exists_def account_get_def split: option.splits)
qed

lemma pending_exists_view:
  assumes "finite (dom (pending_get s))"
  shows "pending_exists s k \<longleftrightarrow> pending_get s k \<noteq> None"
proof -
  have "dom (pending_get s) = dom (pending_v0 s) \<union> dom (pending_v1 s)"
    by (auto simp: pending_get_def split: option.splits)
  with assms have "finite (dom (pending_v0 s))" "finite (dom (pending_v1 s))" by simp_all
  from least_iterator_at [OF this, of k] show ?thesis
    by (auto simp: pending_exists_def pending_get_def split: option.splits)
qed

section \<open>The abstract store\<close>

text \<open>
  Each operation on the view alone, \<open>None\<close> where the program would abort or where the
  store leaves the domain of the view. \<open>simulates m vm\<close>: when the abstract computation
  returns, the concrete one returns a store that is seen as its result.
\<close>

definition weight_add :: "(uint256 \<Rightarrow> uint128) \<Rightarrow> uint256 \<Rightarrow> uint128 \<Rightarrow> (uint256 \<Rightarrow> uint128)" where
  "weight_add w r d = w(r := w r + d)"

definition spec_representation_add :: "view \<Rightarrow> uint256 \<Rightarrow> uint128 \<Rightarrow> view option" where
  "spec_representation_add v x d = do {
     (b, sb) \<leftarrow> vblocks v x;
     Some (v\<lparr>vweight := weight_add (vweight v) (representative b) d\<rparr>) }"

definition spec_block_put ::
  "(byte list \<Rightarrow> uint256) \<Rightarrow> view \<Rightarrow> uint256 \<Rightarrow> block \<Rightarrow> block_sideband \<Rightarrow> epoch \<Rightarrow> view option" where
  "spec_block_put H v h b sb e = do {
     assert (vblocks v h = None \<and> block_hash H b = h \<and> type_of b = sb_type sb \<and> successor sb = 0);
     db \<leftarrow> block_database (type_of b) e;
     assert (if previous b = 0 then vblocks v 0 = None \<and> type_of b \<in> {Bt_open, Bt_state} \<and> h \<noteq> 0
             else vblocks v (previous b) \<noteq> None);
     Some (vblock_put v h b sb e) }"

definition spec_change_latest ::
  "uint64 \<Rightarrow> view \<Rightarrow> uint256 \<Rightarrow> uint256 \<Rightarrow> uint256 \<Rightarrow> uint128 \<Rightarrow> uint64 \<Rightarrow> epoch \<Rightarrow> view option" where
  "spec_change_latest t v a h rep bal count e =
     (if h \<noteq> 0
      then do {
        assert (e \<in> {Epoch_0, Epoch_1} \<and> (vaccounts v a = None \<longrightarrow>
          (case vblocks v h of Some (b, sb) \<Rightarrow> previous b = 0 | None \<Rightarrow> False)));
        Some (v\<lparr>vaccounts := (vaccounts v)(a \<mapsto> info_next (vaccounts v a) t h rep bal count e)\<rparr>) }
      else do {
        assert (vaccounts v a \<noteq> None);
        Some (v\<lparr>vaccounts := (vaccounts v)(a := None)\<rparr>) })"

definition spec_pending_put :: "view \<Rightarrow> pending_key \<Rightarrow> pending_info \<Rightarrow> view option" where
  "spec_pending_put v k p = do {
     assert (pending_epoch p \<in> {Epoch_0, Epoch_1} \<and> vpending v k = None);
     Some (v\<lparr>vpending := (vpending v)(k \<mapsto> p)\<rparr>) }"

definition spec_pending_del :: "view \<Rightarrow> pending_key \<Rightarrow> view option" where
  "spec_pending_del v k = do {
     assert (vpending v k \<noteq> None);
     Some (v\<lparr>vpending := (vpending v)(k := None)\<rparr>) }"

definition spec_frontier_del :: "view \<Rightarrow> uint256 \<Rightarrow> view option" where
  "spec_frontier_del v h = do {
     assert (vfrontiers v h \<noteq> None);
     Some (v\<lparr>vfrontiers := (vfrontiers v)(h := None)\<rparr>) }"

definition spec_frontier_put :: "view \<Rightarrow> uint256 \<Rightarrow> uint256 \<Rightarrow> view" where
  "spec_frontier_put v h a = v\<lparr>vfrontiers := (vfrontiers v)(h \<mapsto> a)\<rparr>"

definition spec_frontier_drop :: "view \<Rightarrow> uint256 \<Rightarrow> view option" where
  "spec_frontier_drop v h = do {
     assert (vfrontiers v h \<noteq> Some 0);
     Some (v\<lparr>vfrontiers := (vfrontiers v)(h := None)\<rparr>) }"

definition simulates :: "store option \<Rightarrow> view option \<Rightarrow> bool" where
  "simulates m vm \<longleftrightarrow> (\<forall>v. vm = Some v \<longrightarrow> succeeds m (seen_as v))"

lemmas spec_defs = spec_representation_add_def spec_block_put_def spec_change_latest_def
  spec_pending_put_def spec_pending_del_def spec_frontier_del_def spec_frontier_put_def
  spec_frontier_drop_def

named_theorems simulation \<open>operations of the store and their abstract counterparts\<close>

lemma seen_as_view:
  assumes "seen_as v s"
  shows "block_get_sideband s = vblocks v" "block_version s = vversion v"
    "account_get s = vaccounts v" "pending_get s = vpending v"
    "frontiers s = vfrontiers v" "representation_get s = vweight v" "store_ok s"
  using assms by (auto simp: seen_as_def)

lemma simulatesD: "simulates m vm \<Longrightarrow> vm = Some v \<Longrightarrow> succeeds m (seen_as v)"
  by (simp add: simulates_def)

lemma simulates_bind [simulation]:
  "simulates m vm \<Longrightarrow> (\<And>s v. seen_as v s \<Longrightarrow> simulates (f s) (vf v)) \<Longrightarrow> simulates (m \<bind> f) (vm \<bind> vf)"
  by (cases vm) (auto simp: simulates_def succeeds_def)

lemma simulates_Some [simulation]: "seen_as v s \<Longrightarrow> simulates (Some s) (Some v)"
  by (simp add: simulates_def)

lemma simulates_if [simulation]:
  "(c \<Longrightarrow> simulates m vm) \<Longrightarrow> (\<not> c \<Longrightarrow> simulates m' vm') \<Longrightarrow>
    simulates (if c then m else m') (if c then vm else vm')"
  by simp

lemma simulates_representation_add [simulation]:
  assumes "seen_as v s"
  shows "simulates (representation_add s x d) (spec_representation_add v x d)"
  using assms representation_add_ok [of s x _ _ d]
  unfolding simulates_def spec_representation_add_def succeeds_def seen_as_def weight_add_def
  by (auto simp: bind_eq_Some_conv) metis

lemma simulates_block_put [simulation]:
  assumes "seen_as v s"
  shows "simulates (block_put H s h b sb e) (spec_block_put H v h b sb e)"
  unfolding simulates_def
proof (intro allI impI)
  fix v'
  assume v': "spec_block_put H v h b sb e = Some v'"
  then obtain db where db: "block_database (type_of b) e = Some db"
    "if previous b = 0 then block_get_sideband s 0 = None \<and> type_of b \<in> {Bt_open, Bt_state} \<and> h \<noteq> 0
      else block_get_sideband s (previous b) \<noteq> None"
    unfolding spec_block_put_def seen_as_view(1) [OF assms] by (auto simp: bind_eq_Some_conv)
  have pre: "block_get_sideband s h = None" "block_hash H b = h" "type_of b = sb_type sb" "successor sb = 0"
    and "v' = vblock_put v h b sb e"
    using v' unfolding spec_block_put_def seen_as_view(1) [OF assms] by (auto simp: bind_eq_Some_conv)
  with block_put_ok [OF seen_as_view(7) [OF assms] pre db] show "succeeds (block_put H s h b sb e) (seen_as v')"
    using assms unfolding succeeds_def seen_as_def by metis
qed

lemma simulates_change_latest [simulation]:
  assumes "seen_as v s"
  shows "simulates (change_latest t s a h rep bal count e) (spec_change_latest t v a h rep bal count e)"
proof (cases "h = 0")
  case True
  show ?thesis
    using assms account_del_ok [of s a] True
    unfolding simulates_def spec_change_latest_def succeeds_def seen_as_def change_latest_def
    by auto metis
next
  case False
  show ?thesis
    using assms change_latest_ok [of s h e a t rep bal count] False
    unfolding simulates_def spec_change_latest_def succeeds_def seen_as_def
    by (auto split: option.splits) metis+
qed

lemma simulates_pending_put [simulation]:
  assumes "seen_as v s"
  shows "simulates (pending_put s k p) (spec_pending_put v k p)"
  using assms pending_put_ok [of s p k]
  unfolding simulates_def spec_pending_put_def succeeds_def seen_as_def
  by auto metis+

lemma simulates_pending_del [simulation]:
  assumes "seen_as v s"
  shows "simulates (pending_del s k) (spec_pending_del v k)"
  using assms pending_del_ok [of s k]
  unfolding simulates_def spec_pending_del_def succeeds_def seen_as_def
  by auto metis+

lemma simulates_frontier_del [simulation]:
  assumes "seen_as v s"
  shows "simulates (frontier_del s h) (spec_frontier_del v h)"
  using assms frontier_del_ok [of s h]
  unfolding simulates_def spec_frontier_del_def succeeds_def seen_as_def
  by auto metis+

lemma seen_as_frontier_put [simulation]:
  "seen_as v s \<Longrightarrow> seen_as (spec_frontier_put v h a) (frontier_put s h a)"
  by (auto simp: seen_as_def spec_frontier_put_def)

lemma simulates_frontier_drop [simulation]:
  assumes "seen_as v s"
  shows "simulates (if frontier_get s h \<noteq> 0 then frontier_del s h else Some s) (spec_frontier_drop v h)"
proof (cases "vfrontiers v h")
  case None
  then have "v\<lparr>vfrontiers := (vfrontiers v)(h := None)\<rparr> = v" by (simp add: fun_upd_idem)
  with None assms show ?thesis
    by (simp add: frontier_get_def seen_as_view [OF assms] simulates_def spec_frontier_drop_def)
next
  case (Some a)
  then show ?thesis
    using assms simulates_frontier_del [OF assms, of h]
    by (simp add: frontier_get_def seen_as_view [OF assms] simulates_def spec_frontier_drop_def
        spec_frontier_del_def)
qed

end
