(* ===== verification/Processor.thy ===== *)
theory Processor
  imports Ledger
begin

text \<open>
  \<open>ledger_processor\<close> of \<open>nano/secure/ledger.cpp\<close>: the visitor that checks a block against
  the ledger and, when it fits, adds it. A handler takes the ledger and the result filled so
  far; its nested tests of \<open>result.code\<close> are nested conditionals, an unsuccessful test
  leaving the ledger as it is.
\<close>

section \<open>Legacy blocks\<close>

definition change_block_process ::
  "env \<Rightarrow> ledger \<Rightarrow> process_return \<Rightarrow> change_hashables signed \<Rightarrow> (ledger \<times> process_return) option" where
  "change_block_process env l r b =
     (let s = store l;
          hash = block_hash (digest env) (Change_block b);
          prev = change_previous (hashables b)
      in if block_exists_type s Bt_change hash then Some (l, r\<lparr>code := Old\<rparr>)
      else case block_get s prev of
        None \<Rightarrow> Some (l, r\<lparr>code := Gap_previous\<rparr>)
      | Some previous_block \<Rightarrow>
        if \<not> valid_predecessor (Change_block b) previous_block
        then Some (l, r\<lparr>code := Block_position\<rparr>)
        else let account = frontier_get s prev in
          if account = 0 then Some (l, r\<lparr>code := Fork\<rparr>)
          else do {
            info \<leftarrow> account_get s account;
            assert (head info = prev);
            if verified r \<noteq> Sv_valid \<and> validate_message env account hash (signature b)
            then Some (l, r\<lparr>code := Bad_signature\<rparr>)
            else do {
              assert (\<not> validate_message env account hash (signature b));
              let r = r\<lparr>code := Progress, verified := Sv_valid\<rparr>;
              s \<leftarrow> block_put (digest env) s hash (Change_block b)
                \<lparr>sb_type = Bt_change, successor = 0, sb_account = account,
                  sb_balance = info_balance info, height = block_count info + 1,
                  timestamp = now env\<rparr> Epoch_0;
              balance \<leftarrow> ledger_balance s prev;
              s \<leftarrow> representation_add s hash balance;
              s \<leftarrow> representation_add s (rep_block info) (0 - balance);
              s \<leftarrow> change_latest (now env) s account hash hash (info_balance info)
                (block_count info + 1) Epoch_0;
              s \<leftarrow> frontier_del s prev;
              let s = frontier_put s hash account;
              Some (l\<lparr>store := s, stats := stat_inc (stats l) St_ledger Sd_change Dir_in\<rparr>,
                r\<lparr>result_account := account, result_amount := 0\<rparr>) } })"

definition send_block_process ::
  "env \<Rightarrow> ledger \<Rightarrow> process_return \<Rightarrow> send_hashables signed \<Rightarrow> (ledger \<times> process_return) option" where
  "send_block_process env l r b =
     (let s = store l;
          hash = block_hash (digest env) (Send_block b);
          prev = send_previous (hashables b)
      in if block_exists_type s Bt_send hash then Some (l, r\<lparr>code := Old\<rparr>)
      else case block_get s prev of
        None \<Rightarrow> Some (l, r\<lparr>code := Gap_previous\<rparr>)
      | Some previous_block \<Rightarrow>
        if \<not> valid_predecessor (Send_block b) previous_block
        then Some (l, r\<lparr>code := Block_position\<rparr>)
        else let account = frontier_get s prev in
          if account = 0 then Some (l, r\<lparr>code := Fork\<rparr>)
          else if verified r \<noteq> Sv_valid \<and> validate_message env account hash (signature b)
          then Some (l, r\<lparr>code := Bad_signature\<rparr>)
          else do {
            assert (\<not> validate_message env account hash (signature b));
            let r = r\<lparr>verified := Sv_valid\<rparr>;
            info \<leftarrow> account_get s account;
            assert (head info = prev);
            if \<not> send_balance (hashables b) \<le> info_balance info
            then Some (l, r\<lparr>code := Negative_spend\<rparr>)
            else do {
              let amount = info_balance info - send_balance (hashables b);
              s \<leftarrow> representation_add s (rep_block info) (0 - amount);
              s \<leftarrow> block_put (digest env) s hash (Send_block b)
                \<lparr>sb_type = Bt_send, successor = 0, sb_account = account,
                  sb_balance = send_balance (hashables b), height = block_count info + 1,
                  timestamp = now env\<rparr> Epoch_0;
              s \<leftarrow> change_latest (now env) s account hash (rep_block info)
                (send_balance (hashables b)) (block_count info + 1) Epoch_0;
              s \<leftarrow> pending_put s (Pending_key (send_destination (hashables b)) hash)
                \<lparr>pending_source = account, pending_amount = amount, pending_epoch = Epoch_0\<rparr>;
              s \<leftarrow> frontier_del s prev;
              let s = frontier_put s hash account;
              Some (l\<lparr>store := s, stats := stat_inc (stats l) St_ledger Sd_send Dir_in\<rparr>,
                r\<lparr>code := Progress, result_account := account, result_amount := amount,
                  pending_account := send_destination (hashables b)\<rparr>) } })"

definition receive_block_process ::
  "env \<Rightarrow> ledger \<Rightarrow> process_return \<Rightarrow> receive_hashables signed \<Rightarrow> (ledger \<times> process_return) option" where
  "receive_block_process env l r b =
     (let s = store l;
          hash = block_hash (digest env) (Receive_block b);
          prev = receive_previous (hashables b)
      in if block_exists_type s Bt_receive hash then Some (l, r\<lparr>code := Old\<rparr>)
      else case block_get s prev of
        None \<Rightarrow> Some (l, r\<lparr>code := Gap_previous\<rparr>)
      | Some previous_block \<Rightarrow>
        if \<not> valid_predecessor (Receive_block b) previous_block
        then Some (l, r\<lparr>code := Block_position\<rparr>)
        else let account = frontier_get s prev in
          if account = 0
          then Some (l, r\<lparr>code := if block_exists s prev then Fork else Gap_previous\<rparr>)
          else if verified r \<noteq> Sv_valid \<and> validate_message env account hash (signature b)
          then Some (l, r\<lparr>code := Bad_signature\<rparr>)
          else do {
            assert (\<not> validate_message env account hash (signature b));
            let r = r\<lparr>verified := Sv_valid\<rparr>;
            if \<not> source_exists s (receive_source (hashables b))
            then Some (l, r\<lparr>code := Gap_source\<rparr>)
            else let info = (case account_get s account of Some i \<Rightarrow> i | None \<Rightarrow> account_info_init) in
              if head info \<noteq> prev then Some (l, r\<lparr>code := Gap_previous\<rparr>)
              else let key = Pending_key account (receive_source (hashables b)) in
                case pending_get s key of
                  None \<Rightarrow> Some (l, r\<lparr>code := Unreceivable\<rparr>)
                | Some pending \<Rightarrow>
                  if pending_epoch pending \<noteq> Epoch_0 then Some (l, r\<lparr>code := Unreceivable\<rparr>)
                  else do {
                    let new_balance = info_balance info + pending_amount pending;
                    source_info \<leftarrow> account_get s (pending_source pending);
                    s \<leftarrow> pending_del s key;
                    s \<leftarrow> block_put (digest env) s hash (Receive_block b)
                      \<lparr>sb_type = Bt_receive, successor = 0, sb_account = account,
                        sb_balance = new_balance, height = block_count info + 1,
                        timestamp = now env\<rparr> Epoch_0;
                    s \<leftarrow> change_latest (now env) s account hash (rep_block info) new_balance
                      (block_count info + 1) Epoch_0;
                    s \<leftarrow> representation_add s (rep_block info) (pending_amount pending);
                    s \<leftarrow> frontier_del s prev;
                    let s = frontier_put s hash account;
                    Some (l\<lparr>store := s, stats := stat_inc (stats l) St_ledger Sd_receive Dir_in\<rparr>,
                      r\<lparr>code := Progress, result_account := account,
                        result_amount := pending_amount pending\<rparr>) } })"

definition open_block_process ::
  "env \<Rightarrow> ledger \<Rightarrow> process_return \<Rightarrow> open_hashables signed \<Rightarrow> (ledger \<times> process_return) option" where
  "open_block_process env l r b =
     (let s = store l;
          hash = block_hash (digest env) (Open_block b);
          account = open_account (hashables b)
      in if block_exists_type s Bt_open hash then Some (l, r\<lparr>code := Old\<rparr>)
      else if verified r \<noteq> Sv_valid \<and> validate_message env account hash (signature b)
      then Some (l, r\<lparr>code := Bad_signature\<rparr>)
      else do {
        assert (\<not> validate_message env account hash (signature b));
        let r = r\<lparr>verified := Sv_valid\<rparr>;
        if \<not> source_exists s (open_source (hashables b)) then Some (l, r\<lparr>code := Gap_source\<rparr>)
        else if account_get s account \<noteq> None then Some (l, r\<lparr>code := Fork\<rparr>)
        else let key = Pending_key account (open_source (hashables b)) in
          case pending_get s key of
            None \<Rightarrow> Some (l, r\<lparr>code := Unreceivable\<rparr>)
          | Some pending \<Rightarrow>
            if account = burn_account then Some (l, r\<lparr>code := Opened_burn_account\<rparr>)
            else if pending_epoch pending \<noteq> Epoch_0 then Some (l, r\<lparr>code := Unreceivable\<rparr>)
            else do {
              source_info \<leftarrow> account_get s (pending_source pending);
              s \<leftarrow> pending_del s key;
              s \<leftarrow> block_put (digest env) s hash (Open_block b)
                \<lparr>sb_type = Bt_open, successor = 0, sb_account = account,
                  sb_balance = pending_amount pending, height = 1, timestamp = now env\<rparr> Epoch_0;
              s \<leftarrow> change_latest (now env) s account hash hash (pending_amount pending) 1 Epoch_0;
              s \<leftarrow> representation_add s hash (pending_amount pending);
              let s = frontier_put s hash account;
              Some (l\<lparr>store := s, stats := stat_inc (stats l) St_ledger Sd_open Dir_in\<rparr>,
                r\<lparr>code := Progress, result_account := account,
                  result_amount := pending_amount pending\<rparr>) } })"

section \<open>State blocks\<close>

text \<open>
  The first half of \<open>ledger_processor::state_block\<close>: whether a block with the epoch link is
  an epoch block, which is one that keeps the balance of its predecessor.
\<close>

definition epoch_block_check ::
  "env \<Rightarrow> ledger \<Rightarrow> process_return \<Rightarrow> state_hashables signed \<Rightarrow> (process_return \<times> bool) option" where
  "epoch_block_check env l r b =
     (let s = store l;
          hash = block_hash (digest env) (State_block b);
          prev = state_previous (hashables b);
          r = r\<lparr>code := Progress\<rparr>
      in if epoch_link l \<noteq> 0 \<and> is_epoch_link l (state_link (hashables b))
      then do {
        (r, prev_balance) \<leftarrow>
          (if prev \<noteq> 0
           then if block_exists s prev
             then do { bal \<leftarrow> ledger_balance s prev; Some (r, bal) }
             else if verified r = Sv_unknown
             then if validate_message env (state_account (hashables b)) hash (signature b)
               then if validate_message env (epoch_signer l) hash (signature b)
                 then Some (r\<lparr>verified := Sv_invalid, code := Bad_signature\<rparr>, 0)
                 else Some (r\<lparr>code := Gap_previous, verified := Sv_valid_epoch\<rparr>, 0)
               else Some (r\<lparr>code := Gap_previous, verified := Sv_valid\<rparr>, 0)
             else Some (r\<lparr>code := Gap_previous\<rparr>, 0)
           else Some (r, 0));
        Some (r, state_balance (hashables b) = prev_balance) }
      else Some (r, False))"

text \<open>
  The tests of \<open>state_block_impl\<close> on the account: the result with its code and amount, and
  whether the block is a send.
\<close>

definition state_account_check ::
  "store \<Rightarrow> account_info option \<Rightarrow> process_return \<Rightarrow> state_hashables \<Rightarrow> process_return \<times> bool" where
  "state_account_check s info_o r h =
     (let r = r\<lparr>result_amount := state_balance h\<rparr> in
      case info_o of
        Some info \<Rightarrow>
          if state_previous h = 0 then (r\<lparr>code := Fork\<rparr>, False)
          else if \<not> block_exists s (state_previous h) then (r\<lparr>code := Gap_previous\<rparr>, False)
          else let sends = (state_balance h < info_balance info) in
            (r\<lparr>result_amount :=
                 (if sends then info_balance info - state_balance h
                  else state_balance h - info_balance info),
               code := (if state_previous h = head info then Progress else Fork)\<rparr>, sends)
      | None \<Rightarrow>
          if state_previous h \<noteq> 0 then (r\<lparr>code := Gap_previous\<rparr>, False)
          else if state_link h \<noteq> 0 then (r\<lparr>code := Progress\<rparr>, False)
          else (r\<lparr>code := Gap_source\<rparr>, False))"

text \<open>The tests on the link of a block that is no send, and the epoch the block gets.\<close>

definition state_link_check ::
  "store \<Rightarrow> process_return \<Rightarrow> epoch \<Rightarrow> state_hashables \<Rightarrow> process_return \<times> epoch" where
  "state_link_check s r e h =
     (if state_link h \<noteq> 0
      then if source_exists s (state_link h)
        then case pending_get s (Pending_key (state_account h) (state_link h)) of
            None \<Rightarrow> (r\<lparr>code := Unreceivable\<rparr>, e)
          | Some pending \<Rightarrow>
              (r\<lparr>code := (if result_amount r = pending_amount pending then Progress
                          else Balance_mismatch)\<rparr>,
               max e (pending_epoch pending))
        else (r\<lparr>code := Gap_source\<rparr>, e)
      else (r\<lparr>code := (if result_amount r = 0 then Progress else Balance_mismatch)\<rparr>, e))"

text \<open>The writes of \<open>state_block_impl\<close>.\<close>

definition state_block_apply ::
  "env \<Rightarrow> store \<Rightarrow> account_info \<Rightarrow> bool \<Rightarrow> uint128 \<Rightarrow> epoch \<Rightarrow> state_hashables signed \<Rightarrow> store option" where
  "state_block_apply env s info sends amount e b =
     (let hash = block_hash (digest env) (State_block b);
          h = hashables b
      in do {
        s \<leftarrow> block_put (digest env) s hash (State_block b)
          \<lparr>sb_type = Bt_state, successor = 0, sb_account = state_account h, sb_balance = 0,
            height = block_count info + 1, timestamp = now env\<rparr> e;
        s \<leftarrow> (if rep_block info \<noteq> 0
              then representation_add s (rep_block info) (0 - info_balance info) else Some s);
        s \<leftarrow> representation_add s hash (state_balance h);
        s \<leftarrow> (if sends
              then pending_put s (Pending_key (state_link h) hash)
                \<lparr>pending_source = state_account h, pending_amount = amount, pending_epoch = e\<rparr>
              else if state_link h \<noteq> 0
              then pending_del s (Pending_key (state_account h) (state_link h))
              else Some s);
        s \<leftarrow> change_latest (now env) s (state_account h) hash hash (state_balance h)
          (block_count info + 1) e;
        (if frontier_get s (head info) \<noteq> 0 then frontier_del s (head info) else Some s) })"

definition state_block_impl ::
  "env \<Rightarrow> ledger \<Rightarrow> process_return \<Rightarrow> state_hashables signed \<Rightarrow> (ledger \<times> process_return) option" where
  "state_block_impl env l r b =
     (let s = store l;
          hash = block_hash (digest env) (State_block b);
          h = hashables b
      in if block_exists_type s Bt_state hash then Some (l, r\<lparr>code := Old\<rparr>)
      else if verified r \<noteq> Sv_valid \<and> validate_message env (state_account h) hash (signature b)
      then Some (l, r\<lparr>code := Bad_signature\<rparr>)
      else do {
        assert (\<not> validate_message env (state_account h) hash (signature b));
        let r = r\<lparr>verified := Sv_valid\<rparr>;
        if state_account h = 0 then Some (l, r\<lparr>code := Opened_burn_account\<rparr>)
        else
          let info_o = account_get s (state_account h);
              info = (case info_o of Some i \<Rightarrow> i | None \<Rightarrow> account_info_init);
              e = (case info_o of Some i \<Rightarrow> info_epoch i | None \<Rightarrow> Epoch_0);
              (r, sends) = state_account_check s info_o r h;
              (r, e) = (if code r = Progress \<and> \<not> sends then state_link_check s r e h else (r, e))
          in if code r = Progress
          then do {
            s \<leftarrow> state_block_apply env s info sends (result_amount r) e b;
            Some (l\<lparr>store := s, stats := stat_inc (stats l) St_ledger Sd_state_block Dir_in\<rparr>,
              r\<lparr>state_is_send := Some sends, result_account := state_account h\<rparr>) }
          else Some (l, r) })"

text \<open>The tests of \<open>epoch_block_impl\<close> on the account: an epoch block changes nothing but the epoch.\<close>

definition epoch_account_check ::
  "store \<Rightarrow> account_info option \<Rightarrow> state_hashables \<Rightarrow> process_result option" where
  "epoch_account_check s info_o h =
     (case info_o of
        Some info \<Rightarrow>
          if state_previous h = 0 then Some Fork
          else if state_previous h \<noteq> head info then Some Fork
          else do {
            last_rep_block \<leftarrow> block_get s (rep_block info);
            Some (if state_representative h = representative last_rep_block then Progress
                  else Representative_mismatch) }
      | None \<Rightarrow> Some (if state_representative h = 0 then Progress else Representative_mismatch))"

definition epoch_block_impl ::
  "env \<Rightarrow> ledger \<Rightarrow> process_return \<Rightarrow> state_hashables signed \<Rightarrow> (ledger \<times> process_return) option" where
  "epoch_block_impl env l r b =
     (let s = store l;
          hash = block_hash (digest env) (State_block b);
          h = hashables b
      in if block_exists_type s Bt_state hash then Some (l, r\<lparr>code := Old\<rparr>)
      else if verified r \<noteq> Sv_valid_epoch \<and> validate_message env (epoch_signer l) hash (signature b)
      then Some (l, r\<lparr>code := Bad_signature\<rparr>)
      else do {
        assert (\<not> validate_message env (epoch_signer l) hash (signature b));
        let r = r\<lparr>verified := Sv_valid_epoch\<rparr>;
        if state_account h = 0 then Some (l, r\<lparr>code := Opened_burn_account\<rparr>)
        else do {
          let info_o = account_get s (state_account h);
          let info = (case info_o of Some i \<Rightarrow> i | None \<Rightarrow> account_info_init);
          code_a \<leftarrow> epoch_account_check s info_o h;
          if code_a \<noteq> Progress then Some (l, r\<lparr>code := code_a\<rparr>)
          else if info_epoch info \<noteq> Epoch_0 then Some (l, r\<lparr>code := Block_position\<rparr>)
          else if state_balance h \<noteq> info_balance info then Some (l, r\<lparr>code := Balance_mismatch\<rparr>)
          else do {
            s \<leftarrow> block_put (digest env) s hash (State_block b)
              \<lparr>sb_type = Bt_state, successor = 0, sb_account = state_account h, sb_balance = 0,
                height = block_count info + 1, timestamp = now env\<rparr> Epoch_1;
            s \<leftarrow> change_latest (now env) s (state_account h) hash hash (info_balance info)
              (block_count info + 1) Epoch_1;
            s \<leftarrow> (if frontier_get s (head info) \<noteq> 0 then frontier_del s (head info) else Some s);
            Some (l\<lparr>store := s, stats := stat_inc (stats l) St_ledger Sd_epoch_block Dir_in\<rparr>,
              r\<lparr>code := Progress, result_account := state_account h, result_amount := 0\<rparr>) } } })"

definition state_block_process ::
  "env \<Rightarrow> ledger \<Rightarrow> process_return \<Rightarrow> state_hashables signed \<Rightarrow> (ledger \<times> process_return) option" where
  "state_block_process env l r b = do {
     (r, is_epoch_block) \<leftarrow> epoch_block_check env l r b;
     if code r = Progress
     then if is_epoch_block then epoch_block_impl env l r b else state_block_impl env l r b
     else Some (l, r) }"

section \<open>Processing a block\<close>

definition process ::
  "env \<Rightarrow> ledger \<Rightarrow> block \<Rightarrow> signature_verification \<Rightarrow> (ledger \<times> process_return) option" where
  "process env l b verification =
     (let r = process_return_init verification in
      case b of
        Send_block sb \<Rightarrow> send_block_process env l r sb
      | Receive_block sb \<Rightarrow> receive_block_process env l r sb
      | Open_block sb \<Rightarrow> open_block_process env l r sb
      | Change_block sb \<Rightarrow> change_block_process env l r sb
      | State_block sb \<Rightarrow> state_block_process env l r sb)"

end
