(* ===== verification/Ledger_Inv.thy ===== *)
theory Ledger_Inv
  imports Store_View Processor
begin

text \<open>
  What every ledger the program can build satisfies, as a predicate on the view of its
  store: blocks are kept under their hash and form one chain per account, the account
  records describe the heads of the chains, the frontier table lists the heads that legacy
  blocks may extend, every pending entry belongs to a stored send, the balances and the
  pending amounts add up to the genesis amount, and the weight of a representative is the
  sum of the balances that name it. Adding a block at the end of a chain keeps all of it.
\<close>

section \<open>The invariant\<close>

definition entry_account :: "block_entry \<Rightarrow> uint256" where
  "entry_account e = (case e of (b, sb) \<Rightarrow> if account b = 0 then sb_account sb else account b)"

definition legacy :: "block \<Rightarrow> bool" where
  "legacy b \<longleftrightarrow> type_of b \<noteq> Bt_state"

text \<open>\<open>rep_at m h r\<close>: the representative in force at block \<open>h\<close> was set by block \<open>r\<close>.\<close>

inductive rep_at :: "(uint256 \<rightharpoonup> block_entry) \<Rightarrow> uint256 \<Rightarrow> uint256 \<Rightarrow> bool" for m where
  rep_here: "m h = Some (b, sb) \<Longrightarrow> type_of b \<in> {Bt_open, Bt_change, Bt_state} \<Longrightarrow> rep_at m h h"
| rep_back: "m h = Some (b, sb) \<Longrightarrow> type_of b \<in> {Bt_send, Bt_receive} \<Longrightarrow>
    rep_at m (previous b) r \<Longrightarrow> rep_at m h r"

definition block_inv :: "(byte list \<Rightarrow> uint256) \<Rightarrow> view \<Rightarrow> uint256 \<Rightarrow> block \<Rightarrow> block_sideband \<Rightarrow> bool" where
  "block_inv H v h b sb \<longleftrightarrow>
     block_hash H b = h \<and> h \<noteq> 0 \<and> sb_type sb = type_of b \<and> entry_account (b, sb) \<noteq> 0 \<and>
     vversion v h \<in> {Epoch_0, Epoch_1} \<and> (legacy b \<longrightarrow> vversion v h = Epoch_0) \<and>
     (previous b \<noteq> 0 \<longrightarrow> (\<exists>b' sb'. vblocks v (previous b) = Some (b', sb') \<and>
        successor sb' = h \<and> entry_account (b', sb') = entry_account (b, sb) \<and>
        height sb = height sb' + 1 \<and> (legacy b \<longrightarrow> legacy b'))) \<and>
     (successor sb \<noteq> 0 \<longrightarrow> (\<exists>b' sb'. vblocks v (successor sb) = Some (b', sb') \<and> previous b' = h)) \<and>
     (\<exists>i. vaccounts v (entry_account (b, sb)) = Some i \<and>
        (successor sb = 0 \<longrightarrow> head i = h) \<and> (previous b = 0 \<longrightarrow> open_block i = h)) \<and>
     (\<exists>r. rep_at (vblocks v) h r) \<and> (previous b = 0 \<longrightarrow> type_of b \<in> {Bt_open, Bt_state}) \<and>
     (type_of b = Bt_state \<longrightarrow> account b \<noteq> 0)"

definition account_inv :: "view \<Rightarrow> uint256 \<Rightarrow> account_info \<Rightarrow> bool" where
  "account_inv v a i \<longleftrightarrow>
     (\<exists>b sb. vblocks v (head i) = Some (b, sb) \<and> entry_account (b, sb) = a \<and> successor sb = 0 \<and>
        entry_balance (b, sb) = info_balance i \<and> height sb = block_count i) \<and>
     vversion v (head i) = info_epoch i \<and>
     (\<exists>b sb. vblocks v (open_block i) = Some (b, sb) \<and> entry_account (b, sb) = a \<and> previous b = 0) \<and>
     rep_at (vblocks v) (head i) (rep_block i)"

definition frontier_inv :: "view \<Rightarrow> bool" where
  "frontier_inv v \<longleftrightarrow> (\<forall>h a. vfrontiers v h = Some a \<longleftrightarrow>
     (\<exists>i b sb. vaccounts v a = Some i \<and> head i = h \<and> vblocks v h = Some (b, sb) \<and> legacy b))"

fun sends_to :: "block \<Rightarrow> uint256 \<Rightarrow> bool" where
  "sends_to (Send_block b) d = (send_destination (hashables b) = d)"
| "sends_to (State_block b) d = (state_link (hashables b) = d)"
| "sends_to _ d = False"

definition pending_inv :: "view \<Rightarrow> pending_key \<Rightarrow> pending_info \<Rightarrow> bool" where
  "pending_inv v k p \<longleftrightarrow> (\<exists>b sb e'. vblocks v (key_hash k) = Some (b, sb) \<and>
     sends_to b (key_account k) \<and> pending_source p = entry_account (b, sb) \<and>
     pending_epoch p = vversion v (key_hash k) \<and> vblocks v (previous b) = Some e' \<and>
     entry_balance (b, sb) \<le> entry_balance e' \<and>
     pending_amount p = entry_balance e' - entry_balance (b, sb))"

definition chain_inv :: "(byte list \<Rightarrow> uint256) \<Rightarrow> view \<Rightarrow> bool" where
  "chain_inv H v \<longleftrightarrow>
     (\<forall>h b sb. vblocks v h = Some (b, sb) \<longrightarrow> block_inv H v h b sb) \<and>
     (\<forall>a i. vaccounts v a = Some i \<longrightarrow> account_inv v a i) \<and>
     frontier_inv v \<and>
     (\<forall>k p. vpending v k = Some p \<longrightarrow> pending_inv v k p)"

definition total_supply :: "view \<Rightarrow> nat" where
  "total_supply v = table_sum (\<lambda>i. unat (info_balance i)) (vaccounts v) +
     table_sum (\<lambda>p. unat (pending_amount p)) (vpending v)"

definition supply_inv :: "view \<Rightarrow> bool" where
  "supply_inv v \<longleftrightarrow> finite (dom (vaccounts v)) \<and> finite (dom (vpending v)) \<and>
     total_supply v = unat genesis_amount"

definition rep_of :: "(uint256 \<rightharpoonup> block_entry) \<Rightarrow> account_info \<Rightarrow> uint256" where
  "rep_of m i = (case m (rep_block i) of Some (b, sb) \<Rightarrow> representative b | None \<Rightarrow> 0)"

definition delegated :: "view \<Rightarrow> uint256 \<Rightarrow> uint128" where
  "delegated v r =
     table_sum (\<lambda>i. if rep_of (vblocks v) i = r then info_balance i else 0) (vaccounts v)"

definition ledger_inv :: "(byte list \<Rightarrow> uint256) \<Rightarrow> view \<Rightarrow> bool" where
  "ledger_inv H v \<longleftrightarrow> chain_inv H v \<and> supply_inv v \<and> vweight v = delegated v"

section \<open>Adding a block\<close>

text \<open>What the processor makes sure of before it adds block \<open>b\<close> to the chain of \<open>a\<close>.\<close>

definition extends_chain ::
  "(byte list \<Rightarrow> uint256) \<Rightarrow> view \<Rightarrow> uint256 \<Rightarrow> uint256 \<Rightarrow> block \<Rightarrow> block_sideband \<Rightarrow> epoch \<Rightarrow> account_info \<Rightarrow> bool" where
  "extends_chain H v a h b sb e i \<longleftrightarrow>
     vblocks v h = None \<and> block_hash H b = h \<and> h \<noteq> 0 \<and> sb_type sb = type_of b \<and>
     successor sb = 0 \<and> e \<in> {Epoch_0, Epoch_1} \<and> (legacy b \<longrightarrow> e = Epoch_0) \<and> a \<noteq> 0 \<and>
     entry_account (b, sideband_stored sb) = a \<and>
     (if previous b = 0 then vaccounts v a = None \<and> type_of b \<in> {Bt_open, Bt_state}
      else \<exists>j. vaccounts v a = Some j \<and> head j = previous b \<and> block_count i = block_count j + 1 \<and>
        (legacy b \<longrightarrow> vfrontiers v (previous b) \<noteq> None)) \<and>
     head i = h \<and> open_block i = (case vaccounts v a of Some j \<Rightarrow> open_block j | None \<Rightarrow> h) \<and>
     info_balance i = entry_balance (b, sideband_stored sb) \<and>
     block_count i = height (sideband_stored sb) \<and> info_epoch i = e \<and>
     rep_block i = (if type_of b \<in> {Bt_send, Bt_receive} then rep_block (the (vaccounts v a)) else h)"

definition vextend ::
  "view \<Rightarrow> uint256 \<Rightarrow> uint256 \<Rightarrow> block \<Rightarrow> block_sideband \<Rightarrow> epoch \<Rightarrow> account_info \<Rightarrow>
    (pending_key \<rightharpoonup> pending_info) \<Rightarrow> (uint256 \<Rightarrow> uint128) \<Rightarrow> view" where
  "vextend v a h b sb e i pend wt =
     (vblock_put v h b sb e)\<lparr>vaccounts := (vaccounts v)(a \<mapsto> i), vpending := pend, vweight := wt,
       vfrontiers := (vfrontiers v)(previous b := None, h := (if legacy b then Some a else None))\<rparr>"

section \<open>Consequences of the invariant\<close>

lemma chain_inv_block: "chain_inv H v \<Longrightarrow> vblocks v h = Some (b, sb) \<Longrightarrow> block_inv H v h b sb"
  unfolding chain_inv_def by blast

lemma chain_inv_account: "chain_inv H v \<Longrightarrow> vaccounts v a = Some i \<Longrightarrow> account_inv v a i"
  unfolding chain_inv_def by blast

lemma chain_inv_pending: "chain_inv H v \<Longrightarrow> vpending v k = Some p \<Longrightarrow> pending_inv v k p"
  unfolding chain_inv_def by blast

lemma chain_inv_frontier: "chain_inv H v \<Longrightarrow> frontier_inv v"
  unfolding chain_inv_def by blast

lemma no_block_zero: "chain_inv H v \<Longrightarrow> vblocks v 0 = None"
  using chain_inv_block [of H v 0] by (cases "vblocks v 0") (auto simp: block_inv_def)

lemma no_account_zero: "chain_inv H v \<Longrightarrow> vaccounts v a = Some i \<Longrightarrow> a \<noteq> 0"
  using chain_inv_account [of H v a i] chain_inv_block [of H v "head i"]
  by (auto simp: account_inv_def block_inv_def)

lemma head_nonzero: "chain_inv H v \<Longrightarrow> vaccounts v a = Some i \<Longrightarrow> head i \<noteq> 0"
  using chain_inv_account [of H v a i] no_block_zero [of H v] by (auto simp: account_inv_def)

lemma entry_successor [simp]:
  "entry_account (b, sb\<lparr>successor := x\<rparr>) = entry_account (b, sb)"
  "entry_balance (b, sb\<lparr>successor := x\<rparr>) = entry_balance (b, sb)"
  by (simp_all add: entry_account_def entry_balance_def split: block.split)

lemma rep_at_mono:
  assumes "rep_at m h r" and "\<And>h b sb. m h = Some (b, sb) \<Longrightarrow> \<exists>sb'. m' h = Some (b, sb')"
  shows "rep_at m' h r"
  using assms(1)
proof induction
  case (rep_here h b sb)
  then show ?case using assms(2) rep_at.rep_here by blast
next
  case (rep_back h b sb r)
  then show ?case using assms(2) rep_at.rep_back by blast
qed

lemma rep_at_sets: "rep_at m h r \<Longrightarrow> \<exists>b sb. m r = Some (b, sb) \<and> type_of b \<in> {Bt_open, Bt_change, Bt_state}"
  by (induction rule: rep_at.induct) auto

lemma rep_block_set:
  assumes "chain_inv H v" "vaccounts v a = Some i"
  obtains b sb where "vblocks v (rep_block i) = Some (b, sb)" "type_of b \<in> {Bt_open, Bt_change, Bt_state}"
    "rep_of (vblocks v) i = representative b"
proof -
  obtain b sb where b: "vblocks v (rep_block i) = Some (b, sb)" "type_of b \<in> {Bt_open, Bt_change, Bt_state}"
    using chain_inv_account [OF assms] rep_at_sets unfolding account_inv_def by blast
  then have "rep_of (vblocks v) i = representative b" by (simp add: rep_of_def)
  with b show ?thesis by (rule that)
qed

lemma rep_block_nonzero: "chain_inv H v \<Longrightarrow> vaccounts v a = Some i \<Longrightarrow> rep_block i \<noteq> 0"
  by (metis no_block_zero option.distinct(1) rep_block_set)

section \<open>Adding a block keeps the chains\<close>

lemma vextend_simps [simp]:
  "vversion (vextend v a h b sb e i pend wt) = (vversion v)(h := e)"
  "vaccounts (vextend v a h b sb e i pend wt) = (vaccounts v)(a \<mapsto> i)"
  "vpending (vextend v a h b sb e i pend wt) = pend"
  "vweight (vextend v a h b sb e i pend wt) = wt"
  "vfrontiers (vextend v a h b sb e i pend wt) =
     (vfrontiers v)(previous b := None, h := (if legacy b then Some a else None))"
  by (simp_all add: vextend_def vblock_put_def)

lemma extends_previous:
  assumes "chain_inv H v" "extends_chain H v a h b sb e i" "previous b \<noteq> 0"
  obtains j b' sb' where "vaccounts v a = Some j" "head j = previous b"
    "vblocks v (previous b) = Some (b', sb')" "entry_account (b', sb') = a" "successor sb' = 0"
    "height (sideband_stored sb) = height sb' + 1" "legacy b \<Longrightarrow> legacy b'"
proof -
  obtain j where j: "vaccounts v a = Some j" "head j = previous b" "block_count i = block_count j + 1"
    "legacy b \<Longrightarrow> vfrontiers v (previous b) \<noteq> None" "block_count i = height (sideband_stored sb)"
    using assms(2,3) unfolding extends_chain_def by auto
  moreover obtain b' sb' where b': "vblocks v (previous b) = Some (b', sb')" "entry_account (b', sb') = a"
    "successor sb' = 0" "height sb' = block_count j"
    using chain_inv_account [OF assms(1) j(1)] j(2) unfolding account_inv_def by auto
  moreover have "legacy b'" if "legacy b"
    using j(4) [OF that] chain_inv_frontier [OF assms(1)] b'(1) unfolding frontier_inv_def by force
  ultimately show ?thesis using that by simp
qed

lemma vextend_blocks:
  assumes "chain_inv H v" "extends_chain H v a h b sb e i"
  shows "vblocks (vextend v a h b sb e i pend wt) x =
    (if x = h then Some (b, sideband_stored sb)
     else if x = previous b then map_option (\<lambda>(b', sb'). (b', sb'\<lparr>successor := h\<rparr>)) (vblocks v x)
     else vblocks v x)"
proof (cases "previous b = 0")
  case True
  then show ?thesis
    using assms(2) no_block_zero [OF assms(1)]
    by (simp add: vextend_def vblock_put_def entry_link_def extends_chain_def)
next
  case False
  then obtain b' sb' where "vblocks v (previous b) = Some (b', sb')"
    using extends_previous [OF assms] by blast
  moreover from this have "previous b \<noteq> h"
    using assms(2) by (auto simp: extends_chain_def)
  ultimately show ?thesis
    by (simp add: vextend_def vblock_put_def entry_link_def)
qed

lemma vextend_old:
  assumes "chain_inv H v" "extends_chain H v a h b sb e i" "vblocks v x = Some (b', sb')"
  shows "vblocks (vextend v a h b sb e i pend wt) x =
    Some (b', if x = previous b then sb'\<lparr>successor := h\<rparr> else sb')" "x \<noteq> h"
  using assms by (auto simp: vextend_blocks [OF assms(1,2)] extends_chain_def)

lemma vextend_cases:
  assumes "chain_inv H v" "extends_chain H v a h b sb e i"
    and "vblocks (vextend v a h b sb e i pend wt) x = Some (b', sb')"
  obtains (new) "x = h" "b' = b" "sb' = sideband_stored sb"
  | (old) sb0 where "x \<noteq> h" "vblocks v x = Some (b', sb0)"
    "sb' = (if x = previous b then sb0\<lparr>successor := h\<rparr> else sb0)"
  using assms(3) that by (auto simp: vextend_blocks [OF assms(1,2)] split: if_splits)

lemma vextend_rep_at:
  assumes "chain_inv H v" "extends_chain H v a h b sb e i" "rep_at (vblocks v) x r"
  shows "rep_at (vblocks (vextend v a h b sb e i pend wt)) x r"
  by (rule rep_at_mono [OF assms(3)]) (blast dest: vextend_old(1) [OF assms(1,2)])

lemma sideband_stored_simps [simp]:
  "sb_type (sideband_stored sb) = sb_type sb"
  "successor (sideband_stored sb) = successor sb"
  "timestamp (sideband_stored sb) = timestamp sb"
  by (simp_all add: sideband_stored_def sideband_read_back_def)

lemma vextend_block_inv_old:
  assumes inv: "chain_inv H v" and ext: "extends_chain H v a h b sb e i"
    and x: "vblocks v x = Some (b', sb0)" "sb' = (if x = previous b then sb0\<lparr>successor := h\<rparr> else sb0)"
  shows "block_inv H (vextend v a h b sb e i pend wt) x b' sb'"
proof -
  let ?v = "vextend v a h b sb e i pend wt"
  note old = vextend_old [OF inv ext]
  have b: "block_inv H v x b' sb0" by (rule chain_inv_block [OF inv x(1)])
  have acc: "entry_account (b', sb') = entry_account (b', sb0)" by (simp add: x(2))
  have xh: "x \<noteq> h" by (rule old(2) [OF x(1)])
  have prev: "\<exists>c sc. vblocks ?v (previous b') = Some (c, sc) \<and> successor sc = x \<and>
      entry_account (c, sc) = entry_account (b', sb') \<and> height sb' = height sc + 1 \<and>
      (legacy b' \<longrightarrow> legacy c)" if nz: "previous b' \<noteq> 0"
  proof -
    obtain c sc where c: "vblocks v (previous b') = Some (c, sc)" "successor sc = x"
      "entry_account (c, sc) = entry_account (b', sb0)" "height sb0 = height sc + 1" "legacy b' \<longrightarrow> legacy c"
      using b nz unfolding block_inv_def by blast
    have "previous b' \<noteq> previous b"
    proof
      assume eq: "previous b' = previous b"
      with nz have "previous b \<noteq> 0" by simp
      then obtain b2 sb2 where "vblocks v (previous b) = Some (b2, sb2)" "successor sb2 = 0"
        using extends_previous [OF inv ext] by blast
      with c eq b show False by (simp add: block_inv_def)
    qed
    with c acc old(1) [OF c(1)] x(2) show ?thesis by simp
  qed
  have succ: "\<exists>c sc. vblocks ?v (successor sb') = Some (c, sc) \<and> previous c = x" if nz: "successor sb' \<noteq> 0"
  proof (cases "x = previous b")
    case True
    then show ?thesis using x(2) vextend_blocks [OF inv ext] by simp
  next
    case False
    then obtain c sc where "vblocks v (successor sb0) = Some (c, sc)" "previous c = x"
      using b nz x(2) unfolding block_inv_def by auto
    then show ?thesis using False x(2) old(1) by auto
  qed
  obtain j where j: "vaccounts v (entry_account (b', sb0)) = Some j"
    "successor sb0 = 0 \<longrightarrow> head j = x" "previous b' = 0 \<longrightarrow> open_block j = x"
    using b unfolding block_inv_def by blast
  have account: "\<exists>i'. vaccounts ?v (entry_account (b', sb')) = Some i' \<and>
      (successor sb' = 0 \<longrightarrow> head i' = x) \<and> (previous b' = 0 \<longrightarrow> open_block i' = x)"
  proof (cases "entry_account (b', sb0) = a")
    case True
    then have p: "previous b \<noteq> 0" "head j = previous b" "open_block i = open_block j"
      using j(1) ext unfolding extends_chain_def by (auto split: if_splits)
    then have "successor sb' = 0 \<longrightarrow> False"
      using x(2) j(2) ext by (auto simp: extends_chain_def)
    then show ?thesis using True p j(3) acc by simp
  next
    case False
    have "x \<noteq> 0" using b by (simp add: block_inv_def)
    then have "x \<noteq> previous b"
      using False x(1) extends_previous [OF inv ext] by (metis option.inject)
    then show ?thesis using False j acc x(2) by simp
  qed
  have rep: "\<exists>r. rep_at (vblocks ?v) x r"
    using b vextend_rep_at [OF inv ext] unfolding block_inv_def by blast
  show ?thesis
    unfolding block_inv_def
  proof (intro conjI impI, goal_cases)
    case 7
    then show ?case by (rule prev)
  next
    case 8
    then show ?case by (rule succ)
  next
    case 9
    then show ?case by (rule account)
  next
    case 10
    then show ?case by (rule rep)
  qed (use b xh acc x(2) in \<open>simp_all add: block_inv_def\<close>)
qed

lemma vextend_rep_at_new:
  assumes inv: "chain_inv H v" and ext: "extends_chain H v a h b sb e i"
  shows "rep_at (vblocks (vextend v a h b sb e i pend wt)) h (rep_block i)"
    (is "rep_at (vblocks ?v) _ _")
proof -
  have new: "vblocks ?v h = Some (b, sideband_stored sb)"
    by (simp add: vextend_blocks [OF inv ext])
  show ?thesis
  proof (cases "type_of b \<in> {Bt_send, Bt_receive}")
    case True
    then have nz: "previous b \<noteq> 0" using ext by (auto simp: extends_chain_def split: if_splits)
    obtain j where j: "vaccounts v a = Some j" "head j = previous b"
      using extends_previous [OF inv ext nz] by blast
    then have "rep_at (vblocks v) (previous b) (rep_block j)"
      using chain_inv_account [OF inv j(1)] by (simp add: account_inv_def)
    then have "rep_at (vblocks ?v) (previous b) (rep_block j)"
      by (rule vextend_rep_at [OF inv ext])
    with new True j(1) ext show ?thesis
      using rep_at.rep_back by (auto simp: extends_chain_def)
  next
    case False
    with ext have "type_of b \<in> {Bt_open, Bt_change, Bt_state}" "rep_block i = h"
      by (cases b; simp add: extends_chain_def)+
    then show ?thesis using rep_at.rep_here new by simp
  qed
qed

lemma vextend_block_inv_new:
  assumes inv: "chain_inv H v" and ext: "extends_chain H v a h b sb e i"
  shows "block_inv H (vextend v a h b sb e i pend wt) h b (sideband_stored sb)"
proof -
  let ?v = "vextend v a h b sb e i pend wt"
  have "\<exists>c sc. vblocks ?v (previous b) = Some (c, sc) \<and> successor sc = h \<and> entry_account (c, sc) = a \<and>
      height (sideband_stored sb) = height sc + 1 \<and> (legacy b \<longrightarrow> legacy c)"
    if nz: "previous b \<noteq> 0"
  proof -
    obtain c sc where c: "vblocks v (previous b) = Some (c, sc)" "entry_account (c, sc) = a"
      "height (sideband_stored sb) = height sc + 1" "legacy b \<longrightarrow> legacy c"
      using extends_previous [OF inv ext nz] by blast
    then show ?thesis using vextend_old(1) [OF inv ext c(1)] by simp
  qed
  moreover have "account b \<noteq> 0" if "type_of b = Bt_state"
    using that ext by (auto simp: extends_chain_def entry_account_def sideband_stored_def
        sideband_read_back_def sideband_blank_def split: if_splits)
  ultimately show ?thesis
    using ext vextend_rep_at_new [OF inv ext] by (auto simp: extends_chain_def block_inv_def)
qed

lemma vextend_account_inv:
  assumes inv: "chain_inv H v" and ext: "extends_chain H v a h b sb e i"
    and acc: "vaccounts (vextend v a h b sb e i pend wt) a' = Some i'"
  shows "account_inv (vextend v a h b sb e i pend wt) a' i'"
proof (cases "a' = a")
  case True
  let ?v = "vextend v a h b sb e i pend wt"
  have i': "i' = i" using acc True by simp
  have new: "vblocks ?v h = Some (b, sideband_stored sb)"
    by (simp add: vextend_blocks [OF inv ext])
  have "\<exists>b sb. vblocks ?v (open_block i) = Some (b, sb) \<and> entry_account (b, sb) = a \<and> previous b = 0"
  proof (cases "vaccounts v a")
    case None
    then show ?thesis using new ext by (auto simp: extends_chain_def split: if_splits)
  next
    case (Some j)
    then obtain c sc where c: "vblocks v (open_block j) = Some (c, sc)" "entry_account (c, sc) = a"
      "previous c = 0"
      using chain_inv_account [OF inv Some] unfolding account_inv_def by blast
    then show ?thesis
      using vextend_old(1) [OF inv ext c(1)] Some ext by (auto simp: extends_chain_def)
  qed
  moreover have "rep_at (vblocks ?v) h (rep_block i)"
    by (rule vextend_rep_at_new [OF inv ext])
  ultimately show ?thesis
    using True i' new ext by (auto simp: account_inv_def extends_chain_def)
next
  case False
  let ?v = "vextend v a h b sb e i pend wt"
  have i': "account_inv v a' i'"
    using acc False chain_inv_account [OF inv] by simp
  then obtain c sc where c: "vblocks v (head i') = Some (c, sc)" "entry_account (c, sc) = a'"
    "successor sc = 0" "entry_balance (c, sc) = info_balance i'" "height sc = block_count i'"
    unfolding account_inv_def by blast
  obtain o' so where o': "vblocks v (open_block i') = Some (o', so)" "entry_account (o', so) = a'"
    "previous o' = 0"
    using i' unfolding account_inv_def by blast
  have "head i' \<noteq> previous b"
    using c(1,2) False extends_previous [OF inv ext] no_block_zero [OF inv]
    by (metis option.distinct(1) option.inject)
  then show ?thesis
    using i' c o' vextend_old [OF inv ext c(1)] vextend_old(1) [OF inv ext o'(1)]
      vextend_rep_at [OF inv ext]
    by (auto simp: account_inv_def)
qed

lemma vextend_frontier_inv:
  assumes inv: "chain_inv H v" and ext: "extends_chain H v a h b sb e i"
  shows "frontier_inv (vextend v a h b sb e i pend wt)"
  unfolding frontier_inv_def
proof (intro allI)
  fix x a'
  let ?v = "vextend v a h b sb e i pend wt"
  let ?R = "\<exists>i' c sc. vaccounts ?v a' = Some i' \<and> head i' = x \<and> vblocks ?v x = Some (c, sc) \<and> legacy c"
  have old: "vfrontiers v x = Some a' \<longleftrightarrow>
      (\<exists>i' c sc. vaccounts v a' = Some i' \<and> head i' = x \<and> vblocks v x = Some (c, sc) \<and> legacy c)" for x a'
    using chain_inv_frontier [OF inv] by (simp add: frontier_inv_def)
  have fresh: "vblocks v h = None" "head i = h" using ext by (auto simp: extends_chain_def)
  have heads: "head i' \<noteq> h" if "vaccounts v a'' = Some i'" for a'' i'
    using chain_inv_account [OF inv that] fresh by (auto simp: account_inv_def)
  have chain: "head i' \<noteq> previous b" if "vaccounts v a'' = Some i'" "a'' \<noteq> a" for a'' i'
    using chain_inv_account [OF inv that(1)] that(2) extends_previous [OF inv ext]
      no_block_zero [OF inv] unfolding account_inv_def by (metis option.distinct(1) option.inject)
  have prev: "head j = previous b" if "vaccounts v a = Some j" for j
    using that ext by (auto simp: extends_chain_def split: if_splits)
  consider "x = h" | "x \<noteq> h" "x = previous b" | "x \<noteq> h" "x \<noteq> previous b" by blast
  then show "vfrontiers ?v x = Some a' \<longleftrightarrow> ?R"
  proof cases
    case 1
    then show ?thesis using heads fresh by (auto simp: vextend_blocks [OF inv ext])
  next
    case 2
    then show ?thesis using chain fresh by auto
  next
    case 3
    then show ?thesis using old [of x a'] fresh prev by (auto simp: vextend_blocks [OF inv ext])
  qed
qed

text \<open>A new pending entry is one for the block that is added.\<close>

definition pending_extends ::
  "view \<Rightarrow> uint256 \<Rightarrow> uint256 \<Rightarrow> block \<Rightarrow> epoch \<Rightarrow> account_info \<Rightarrow> (pending_key \<rightharpoonup> pending_info) \<Rightarrow> bool" where
  "pending_extends v a h b e i pend \<longleftrightarrow> (\<forall>k p. pend k = Some p \<longrightarrow> vpending v k = Some p \<or>
     (key_hash k = h \<and> sends_to b (key_account k) \<and> pending_source p = a \<and> pending_epoch p = e \<and>
      previous b \<noteq> 0 \<and> (\<exists>j. vaccounts v a = Some j \<and> info_balance i \<le> info_balance j \<and>
        pending_amount p = info_balance j - info_balance i)))"

lemma vextend_pending_old:
  assumes inv: "chain_inv H v" and ext: "extends_chain H v a h b sb e i" and k: "vpending v k = Some p"
  shows "pending_inv (vextend v a h b sb e i pend wt) k p"
proof -
  obtain c sc d sd where c: "vblocks v (key_hash k) = Some (c, sc)" "sends_to c (key_account k)"
    "pending_source p = entry_account (c, sc)" "pending_epoch p = vversion v (key_hash k)"
    and d: "vblocks v (previous c) = Some (d, sd)" "entry_balance (c, sc) \<le> entry_balance (d, sd)"
    "pending_amount p = entry_balance (d, sd) - entry_balance (c, sc)"
    using chain_inv_pending [OF inv k] unfolding pending_inv_def by (metis surj_pair)
  show ?thesis
    using c d vextend_old [OF inv ext c(1)] vextend_old(1) [OF inv ext d(1)]
    by (auto simp: pending_inv_def)
qed

lemma chain_inv_extend:
  assumes inv: "chain_inv H v" and ext: "extends_chain H v a h b sb e i"
    and pend: "pending_extends v a h b e i pend"
  shows "chain_inv H (vextend v a h b sb e i pend wt)"
proof -
  let ?v = "vextend v a h b sb e i pend wt"
  have "block_inv H ?v x c sc" if "vblocks ?v x = Some (c, sc)" for x c sc
    using inv ext that
  proof (cases rule: vextend_cases)
    case new
    then show ?thesis using vextend_block_inv_new [OF inv ext] by simp
  next
    case (old sb0)
    then show ?thesis using vextend_block_inv_old [OF inv ext old(2,3)] by simp
  qed
  moreover have "pending_inv ?v k p" if k: "pend k = Some p" for k p
  proof (cases "vpending v k = Some p")
    case True
    then show ?thesis by (rule vextend_pending_old [OF inv ext])
  next
    case False
    with k pend obtain j where new: "key_hash k = h" "sends_to b (key_account k)" "pending_source p = a"
      "pending_epoch p = e" "previous b \<noteq> 0" "vaccounts v a = Some j"
      "info_balance i \<le> info_balance j" "pending_amount p = info_balance j - info_balance i"
      unfolding pending_extends_def by blast
    have "head j = previous b"
      using new(5,6) ext by (auto simp: extends_chain_def)
    with chain_inv_account [OF inv new(6)] obtain c sc where
      "vblocks v (previous b) = Some (c, sc)" "entry_balance (c, sc) = info_balance j"
      unfolding account_inv_def by auto
    then show ?thesis
      using new vextend_old(1) [OF inv ext] vextend_blocks [OF inv ext] ext
      by (auto simp: pending_inv_def extends_chain_def)
  qed
  ultimately show ?thesis
    using vextend_account_inv [OF inv ext] vextend_frontier_inv [OF inv ext]
    unfolding chain_inv_def vextend_simps(3) by blast
qed

section \<open>Supply and weights\<close>

definition old_balance :: "view \<Rightarrow> uint256 \<Rightarrow> uint128" where
  "old_balance v a = (case vaccounts v a of Some j \<Rightarrow> info_balance j | None \<Rightarrow> 0)"

lemma supply_inv_extend:
  assumes "supply_inv v" "finite (dom pend)"
    and "unat (info_balance i) + table_sum (\<lambda>p. unat (pending_amount p)) pend =
      unat (old_balance v a) + table_sum (\<lambda>p. unat (pending_amount p)) (vpending v)"
  shows "supply_inv (vextend v a h b sb e i pend wt)"
proof (cases "vaccounts v a")
  case None
  then show ?thesis
    using assms by (simp add: supply_inv_def total_supply_def old_balance_def table_sum_insert)
next
  case (Some j)
  have "finite (dom (vaccounts v))" using assms(1) by (simp add: supply_inv_def)
  from table_sum_update [OF this Some, of "\<lambda>i. unat (info_balance i)" i]
  show ?thesis
    using assms Some by (simp add: supply_inv_def total_supply_def old_balance_def)
qed

lemma vextend_rep_of:
  assumes "chain_inv H v" "extends_chain H v a h b sb e i" "vaccounts v a' = Some j"
  shows "rep_of (vblocks (vextend v a h b sb e i pend wt)) j = rep_of (vblocks v) j"
proof -
  obtain c sc where "vblocks v (rep_block j) = Some (c, sc)"
    using rep_block_set [OF assms(1,3)] by blast
  then show ?thesis
    using vextend_old(1) [OF assms(1,2)] by (simp add: rep_of_def)
qed

definition old_weight :: "view \<Rightarrow> uint256 \<Rightarrow> uint256 \<Rightarrow> uint128" where
  "old_weight v a r = (case vaccounts v a of
     Some j \<Rightarrow> if rep_of (vblocks v) j = r then info_balance j else 0 | None \<Rightarrow> 0)"

lemma table_sum_cong:
  "(\<And>k v. m k = Some v \<Longrightarrow> f v = g v) \<Longrightarrow> table_sum f m = table_sum g m"
  unfolding table_sum_def by (intro sum.cong) auto

lemma delegated_extend:
  assumes inv: "chain_inv H v" and ext: "extends_chain H v a h b sb e i" and fin: "finite (dom (vaccounts v))"
  shows "delegated (vextend v a h b sb e i pend wt) r = delegated v r - old_weight v a r +
    (if rep_of (vblocks (vextend v a h b sb e i pend wt)) i = r then info_balance i else 0)"
proof -
  let ?v = "vextend v a h b sb e i pend wt"
  let ?f = "\<lambda>i. if rep_of (vblocks ?v) i = r then info_balance i else 0"
  let ?g = "\<lambda>i. if rep_of (vblocks v) i = r then info_balance i else 0"
  have same: "table_sum ?f (vaccounts v) = table_sum ?g (vaccounts v)"
    by (rule table_sum_cong) (simp add: vextend_rep_of [OF inv ext])
  show ?thesis
  proof (cases "vaccounts v a")
    case None
    then show ?thesis
      using table_sum_insert [OF fin None, of ?f i] same
      by (simp add: delegated_def old_weight_def)
  next
    case (Some j)
    have "?f j = ?g j" by (simp add: vextend_rep_of [OF inv ext Some])
    with table_sum_update [OF fin Some, of ?f i] same Some show ?thesis
      by (simp add: delegated_def old_weight_def algebra_simps)
  qed
qed

lemma vextend_rep_new:
  assumes inv: "chain_inv H v" and ext: "extends_chain H v a h b sb e i"
  shows "rep_of (vblocks (vextend v a h b sb e i pend wt)) i =
    (if type_of b \<in> {Bt_send, Bt_receive} then rep_of (vblocks v) (the (vaccounts v a)) else representative b)"
proof (cases "type_of b \<in> {Bt_send, Bt_receive}")
  case True
  then obtain j where j: "vaccounts v a = Some j" "rep_block i = rep_block j"
    using ext by (auto simp: extends_chain_def split: if_splits)
  then have "rep_of (vblocks (vextend v a h b sb e i pend wt)) i = rep_of (vblocks v) j"
    using vextend_rep_of [OF inv ext j(1)] by (simp add: rep_of_def)
  with True j(1) show ?thesis by simp
next
  case False
  then have "rep_block i = h" using ext by (simp add: extends_chain_def)
  then show ?thesis
    using False by (simp add: rep_of_def vextend_blocks [OF inv ext])
qed

text \<open>The three parts together: what a step of the processor has to show.\<close>

lemma ledger_inv_extend:
  assumes inv: "ledger_inv H v" and ext: "extends_chain H v a h b sb e i"
    and pend: "pending_extends v a h b e i pend" "finite (dom pend)"
    and bal: "unat (info_balance i) + table_sum (\<lambda>p. unat (pending_amount p)) pend =
      unat (old_balance v a) + table_sum (\<lambda>p. unat (pending_amount p)) (vpending v)"
    and wt: "\<And>r. wt r = vweight v r - old_weight v a r +
      (if (if type_of b \<in> {Bt_send, Bt_receive} then rep_of (vblocks v) (the (vaccounts v a))
           else representative b) = r then info_balance i else 0)"
  shows "ledger_inv H (vextend v a h b sb e i pend wt)"
proof -
  have chain: "chain_inv H v" and sup: "supply_inv v" and weights: "vweight v = delegated v"
    using inv by (simp_all add: ledger_inv_def)
  have fin: "finite (dom (vaccounts v))" using sup by (simp add: supply_inv_def)
  have "wt = delegated (vextend v a h b sb e i pend wt)"
    using weights wt vextend_rep_new [OF chain ext]
    by (simp add: fun_eq_iff delegated_extend [OF chain ext fin])
  then show ?thesis
    using chain_inv_extend [OF chain ext pend(1)] supply_inv_extend [OF sup pend(2) bal]
    by (simp add: ledger_inv_def)
qed

end
