(* ===== verification/Provenance.thy ===== *)
theory Provenance
  imports Ledger_Inv
begin

text \<open>
  Where the money of a block comes from: which stored blocks send, which receive, and that
  every send is either pending or received by exactly one later block. Rolling a chain back
  relies on it. The invariant is stated on the core of a view, the map from a hash to the
  block, its account and its balance, which is what a rollback leaves alone elsewhere.
\<close>

section \<open>The core of a view\<close>

type_synonym core_map = "uint256 \<rightharpoonup> block \<times> uint256 \<times> uint128"

definition core :: "view \<Rightarrow> core_map" where
  "core v h = map_option (\<lambda>e. (fst e, entry_account e, entry_balance e)) (vblocks v h)"

definition bal_at :: "core_map \<Rightarrow> uint256 \<Rightarrow> uint128" where
  "bal_at c h = (case c h of Some (b, a, x) \<Rightarrow> x | None \<Rightarrow> 0)"

definition account_at :: "core_map \<Rightarrow> uint256 \<Rightarrow> uint256" where
  "account_at c h = (case c h of Some (b, a, x) \<Rightarrow> a | None \<Rightarrow> 0)"

definition prev_at :: "core_map \<Rightarrow> uint256 \<Rightarrow> uint256" where
  "prev_at c h = (case c h of Some (b, a, x) \<Rightarrow> previous b | None \<Rightarrow> 0)"

definition legacy_at :: "core_map \<Rightarrow> uint256 \<Rightarrow> bool" where
  "legacy_at c h = (case c h of Some (b, a, x) \<Rightarrow> legacy b | None \<Rightarrow> False)"

text \<open>The destination of a block that sends, the source of one that receives.\<close>

fun sent_by :: "uint128 \<Rightarrow> block \<Rightarrow> uint256 option" where
  "sent_by before (Send_block b) = Some (send_destination (hashables b))"
| "sent_by before (State_block b) =
     (if state_balance (hashables b) < before then Some (state_link (hashables b)) else None)"
| "sent_by before b = None"

fun received_by :: "uint256 \<Rightarrow> uint128 \<Rightarrow> block \<Rightarrow> uint256 option" where
  "received_by el before (Receive_block b) = Some (receive_source (hashables b))"
| "received_by el before (Open_block b) = Some (open_source (hashables b))"
| "received_by el before (State_block b) =
     (if \<not> state_balance (hashables b) < before \<and> state_link (hashables b) \<noteq> 0 \<and>
        state_link (hashables b) \<noteq> el then Some (state_link (hashables b)) else None)"
| "received_by el before b = None"

definition sent :: "core_map \<Rightarrow> uint256 \<Rightarrow> uint256 option" where
  "sent c h = (case c h of None \<Rightarrow> None | Some (b, a, x) \<Rightarrow> sent_by (bal_at c (previous b)) b)"

text \<open>The genesis block \<open>g\<close> receives nothing; \<open>el\<close> is the epoch link.\<close>

definition received :: "uint256 \<Rightarrow> uint256 \<Rightarrow> core_map \<Rightarrow> uint256 \<Rightarrow> uint256 option" where
  "received g el c h =
     (if h = g then None
      else case c h of None \<Rightarrow> None | Some (b, a, x) \<Rightarrow> received_by el (bal_at c (previous b)) b)"

section \<open>The invariant\<close>

definition linked :: "core_map \<Rightarrow> bool" where
  "linked c \<longleftrightarrow> c 0 = None \<and>
     (\<forall>h b a x. c h = Some (b, a, x) \<longrightarrow> previous b \<noteq> 0 \<longrightarrow> c (previous b) \<noteq> None)"

definition ranked :: "uint256 \<Rightarrow> core_map \<Rightarrow> (uint256 \<Rightarrow> nat) \<Rightarrow> bool" where
  "ranked g c rank \<longleftrightarrow> rank g = 0 \<and>
     (\<forall>h. c h \<noteq> None \<longrightarrow> (h \<noteq> g \<longrightarrow> 0 < rank h) \<and>
        (prev_at c h \<noteq> 0 \<longrightarrow> rank (prev_at c h) < rank h))"

definition receipt ::
  "core_map \<Rightarrow> (uint256 \<Rightarrow> epoch) \<Rightarrow> (uint256 \<Rightarrow> nat) \<Rightarrow> uint256 \<Rightarrow> uint256 \<Rightarrow> bool" where
  "receipt c ver rank h s \<longleftrightarrow>
     sent c s = Some (account_at c h) \<and> rank s < rank h \<and>
     bal_at c (prev_at c h) \<le> bal_at c h \<and>
     bal_at c h - bal_at c (prev_at c h) = bal_at c (prev_at c s) - bal_at c s \<and>
     (legacy_at c h \<longrightarrow> ver s = Epoch_0)"

definition sends_down :: "core_map \<Rightarrow> bool" where
  "sends_down c \<longleftrightarrow> (\<forall>s d. sent c s = Some d \<longrightarrow>
     c (prev_at c s) \<noteq> None \<and> bal_at c s \<le> bal_at c (prev_at c s))"

text \<open>
  The constants of the network a block hash must differ from: the epoch link and the
  genesis account, which \<open>ledger::amount\<close> compares hashes with.
\<close>

record network =
  net_genesis :: uint256
  net_epoch_link :: uint256
  net_genesis_account :: uint256

abbreviation received_in :: "network \<Rightarrow> core_map \<Rightarrow> uint256 \<Rightarrow> uint256 option" where
  "received_in n \<equiv> received (net_genesis n) (net_epoch_link n)"

definition hash_apart :: "network \<Rightarrow> uint256 \<Rightarrow> bool" where
  "hash_apart n h \<longleftrightarrow> h \<noteq> 0 \<and> h \<noteq> net_epoch_link n \<and> h \<noteq> net_genesis_account n"

definition prov_inv ::
  "network \<Rightarrow> core_map \<Rightarrow> (uint256 \<Rightarrow> epoch) \<Rightarrow> (pending_key \<rightharpoonup> pending_info) \<Rightarrow>
    (uint256 \<Rightarrow> nat) \<Rightarrow> bool" where
  "prov_inv n c ver pend rank \<longleftrightarrow>
     finite (dom c) \<and> c (net_genesis n) \<noteq> None \<and> prev_at c (net_genesis n) = 0 \<and>
     sent c (net_genesis n) = None \<and>
     (\<forall>h. c h \<noteq> None \<longrightarrow> hash_apart n h) \<and> linked c \<and> ranked (net_genesis n) c rank \<and>
     sends_down c \<and>
     (\<forall>h s. received_in n c h = Some s \<longrightarrow> receipt c ver rank h s) \<and>
     (\<forall>h h' s. received_in n c h = Some s \<longrightarrow> received_in n c h' = Some s \<longrightarrow> h = h') \<and>
     (\<forall>s d. sent c s = Some d \<longrightarrow>
        (pend (Pending_key d s) = None \<longleftrightarrow> (\<exists>h. received_in n c h = Some s))) \<and>
     (\<forall>k. pend k \<noteq> None \<longrightarrow> sent c (key_hash k) = Some (key_account k)) \<and>
     (\<forall>h. c h \<noteq> None \<longrightarrow> h \<noteq> net_genesis n \<longrightarrow> sent c h = None \<longrightarrow> received_in n c h = None \<longrightarrow>
        bal_at c h = bal_at c (prev_at c h))"

section \<open>Adding and removing a block nothing refers to\<close>

text \<open>
  \<open>c\<close> without block \<open>h\<close>, and \<open>c(h \<mapsto> (b, a, x))\<close> with it, in terms of each other; no
  other block sees the difference.
\<close>

lemma linked_prev:
  "linked c \<Longrightarrow> c h = None \<Longrightarrow> h \<noteq> 0 \<Longrightarrow> c k = Some (b, a, x) \<Longrightarrow> previous b \<noteq> h"
  unfolding linked_def by metis

lemma bal_at_upd: "bal_at (c(h \<mapsto> (b, a, x))) k = (if k = h then x else bal_at c k)"
  by (simp add: bal_at_def)

lemma account_at_upd: "account_at (c(h \<mapsto> (b, a, x))) k = (if k = h then a else account_at c k)"
  by (simp add: account_at_def)

lemma prev_at_upd: "prev_at (c(h \<mapsto> (b, a, x))) k = (if k = h then previous b else prev_at c k)"
  by (simp add: prev_at_def)

lemma legacy_at_upd: "legacy_at (c(h \<mapsto> (b, a, x))) k = (if k = h then legacy b else legacy_at c k)"
  by (simp add: legacy_at_def)

lemma sent_upd:
  assumes "linked c" "c h = None" "h \<noteq> 0" "previous b \<noteq> h"
  shows "sent (c(h \<mapsto> (b, a, x))) k = (if k = h then sent_by (bal_at c (previous b)) b else sent c k)"
  using linked_prev [OF assms(1-3)] assms(4)
  by (auto simp: sent_def bal_at_upd split: option.splits)

lemma received_upd:
  assumes "linked c" "c h = None" "h \<noteq> 0" "previous b \<noteq> h" "h \<noteq> g"
  shows "received g el (c(h \<mapsto> (b, a, x))) k =
    (if k = h then received_by el (bal_at c (previous b)) b else received g el c k)"
  using linked_prev [OF assms(1-3)] assms(4,5)
  by (auto simp: received_def bal_at_upd split: option.splits)

lemmas core_upd = bal_at_upd account_at_upd prev_at_upd legacy_at_upd

lemma core_none:
  "c h = None \<Longrightarrow> bal_at c h = 0" "c h = None \<Longrightarrow> account_at c h = 0" "c h = None \<Longrightarrow> prev_at c h = 0"
  "c h = None \<Longrightarrow> sent c h = None" "c h = None \<Longrightarrow> received g el c h = None"
  by (simp_all add: bal_at_def account_at_def prev_at_def sent_def received_def)

lemma linked_upd:
  assumes "linked c" "c h = None" "h \<noteq> 0" "previous b = 0 \<or> c (previous b) \<noteq> None"
  shows "linked (c(h \<mapsto> (b, a, x)))"
  using assms unfolding linked_def by (auto split: if_splits)

lemma linked_prev_at: "linked c \<Longrightarrow> prev_at c h = 0 \<or> c (prev_at c h) \<noteq> None"
  unfolding linked_def prev_at_def by (cases "c h") auto

lemma prev_at_fresh: "linked c \<Longrightarrow> c h = None \<Longrightarrow> h \<noteq> 0 \<Longrightarrow> prev_at c k \<noteq> h"
  using linked_prev_at [of c k] by auto

lemma ranked_upd:
  assumes "ranked g c rank" "h \<noteq> g" "\<And>k. prev_at c k \<noteq> h" "previous b \<noteq> h" "rank (previous b) < r"
  shows "ranked g (c(h \<mapsto> (b, a, x))) (rank(h := r))"
  using assms by (simp add: ranked_def core_upd)

lemma sends_down_upd:
  assumes "sends_down c" "linked c" "c h = None" "h \<noteq> 0" "previous b \<noteq> h"
    and "sent_by (bal_at c (previous b)) b \<noteq> None \<Longrightarrow>
      c (previous b) \<noteq> None \<and> x \<le> bal_at c (previous b)"
  shows "sends_down (c(h \<mapsto> (b, a, x)))"
  unfolding sends_down_def
  using assms prev_at_fresh [OF assms(2-4)]
  by (simp add: core_upd sent_upd [OF assms(2-5)] sends_down_def)

lemma receipt_upd:
  assumes "receipt c ver rank k s" "k \<noteq> h" "s \<noteq> h" "linked c" "c h = None" "h \<noteq> 0" "previous b \<noteq> h"
  shows "receipt (c(h \<mapsto> (b, a, x))) (ver(h := e)) (rank(h := r)) k s"
  using assms prev_at_fresh [OF assms(4-6)]
  by (simp add: receipt_def core_upd sent_upd [OF assms(4-7)])

lemma prov_invD:
  assumes "prov_inv n c ver pend rank"
  shows "finite (dom c)" "c (net_genesis n) \<noteq> None" "prev_at c (net_genesis n) = 0"
    "sent c (net_genesis n) = None" "\<And>h. c h \<noteq> None \<Longrightarrow> hash_apart n h" "linked c"
    "ranked (net_genesis n) c rank" "sends_down c"
    "\<And>h s. received_in n c h = Some s \<Longrightarrow> receipt c ver rank h s"
    "\<And>h h' s. received_in n c h = Some s \<Longrightarrow> received_in n c h' = Some s \<Longrightarrow> h = h'"
    "\<And>s d. sent c s = Some d \<Longrightarrow>
       pend (Pending_key d s) = None \<longleftrightarrow> (\<exists>h. received_in n c h = Some s)"
    "\<And>k. pend k \<noteq> None \<Longrightarrow> sent c (key_hash k) = Some (key_account k)"
    "\<And>h. c h \<noteq> None \<Longrightarrow> h \<noteq> net_genesis n \<Longrightarrow> sent c h = None \<Longrightarrow> received_in n c h = None \<Longrightarrow>
       bal_at c h = bal_at c (prev_at c h)"
  using assms unfolding prov_inv_def by blast+

lemma sent_stored: "sent c s = Some d \<Longrightarrow> c s \<noteq> None"
  by (auto simp: sent_def split: option.splits)

lemma received_stored: "received g el c h = Some s \<Longrightarrow> c h \<noteq> None \<and> h \<noteq> g"
  by (auto simp: received_def split: option.splits if_splits)

text \<open>A block that sends makes one entry pending, a block that receives removes one.\<close>

definition pending_after ::
  "uint256 \<Rightarrow> uint256 \<Rightarrow> uint256 option \<Rightarrow> uint256 option \<Rightarrow> pending_info \<Rightarrow>
    (pending_key \<rightharpoonup> pending_info) \<Rightarrow> (pending_key \<rightharpoonup> pending_info)" where
  "pending_after h a S R p pend = (\<lambda>k.
     if S = Some (key_account k) \<and> key_hash k = h then Some p
     else if R = Some (key_hash k) \<and> key_account k = a then None else pend k)"

definition pending_before ::
  "uint256 \<Rightarrow> uint256 \<Rightarrow> uint256 option \<Rightarrow> uint256 option \<Rightarrow> pending_info \<Rightarrow>
    (pending_key \<rightharpoonup> pending_info) \<Rightarrow> (pending_key \<rightharpoonup> pending_info)" where
  "pending_before h a S R p pend = (\<lambda>k.
     if S = Some (key_account k) \<and> key_hash k = h then None
     else if R = Some (key_hash k) \<and> key_account k = a then Some p else pend k)"

lemma prov_extend:
  assumes inv: "prov_inv n c ver pend rank" and fresh: "c h = None" and apart: "hash_apart n h"
    and prev: "previous b = 0 \<or> c (previous b) \<noteq> None"
    and S: "S = sent_by (bal_at c (previous b)) b"
    and R: "R = received_by (net_epoch_link n) (bal_at c (previous b)) b"
    and down: "\<And>d. S = Some d \<Longrightarrow> c (previous b) \<noteq> None \<and> x \<le> bal_at c (previous b)"
    and rec: "\<And>s. R = Some s \<Longrightarrow> S = None \<and> pend (Pending_key a s) \<noteq> None \<and>
      bal_at c (previous b) \<le> x \<and>
      x - bal_at c (previous b) = bal_at c (prev_at c s) - bal_at c s \<and> (legacy b \<longrightarrow> ver s = Epoch_0)"
    and keep: "S = None \<Longrightarrow> R = None \<Longrightarrow> x = bal_at c (previous b)"
  shows "\<exists>rank. prov_inv n (c(h \<mapsto> (b, a, x))) (ver(h := e)) (pending_after h a S R p pend) rank"
proof -
  note D = prov_invD [OF inv]
  have h0: "h \<noteq> 0" using apart by (simp add: hash_apart_def)
  have hg: "h \<noteq> net_genesis n" using D(2) fresh by metis
  have pb: "previous b \<noteq> h" using prev fresh h0 by auto
  let ?c = "c(h \<mapsto> (b, a, x))"
  let ?rank = "rank(h := Suc (rank (previous b) + (case R of Some s \<Rightarrow> rank s | None \<Rightarrow> 0)))"
  let ?pend = "pending_after h a S R p pend"
  note sent = sent_upd [OF D(6) fresh h0 pb, folded S]
  note received = received_upd [OF D(6) fresh h0 pb hg, where el = "net_epoch_link n", folded R]
  note none = core_none [where c = c and h = h, OF fresh]
  have source: "sent c s = Some a \<and> s \<noteq> h \<and> (\<forall>k. received_in n c k \<noteq> Some s)" if "R = Some s" for s
  proof -
    have "pend (Pending_key a s) \<noteq> None" using rec [OF that] by blast
    moreover from this have "sent c s = Some a" using D(12) [of "Pending_key a s"] by simp
    ultimately show ?thesis using D(11) [of s a] sent_stored [of c s] fresh by auto
  qed
  have "prov_inv n ?c (ver(h := e)) ?pend ?rank"
    unfolding prov_inv_def
  proof (intro conjI allI impI, goal_cases)
    case 1 then show ?case using D(1) by simp
  next
    case 2 then show ?case using D(2) hg by simp
  next
    case 3 then show ?case using D(3) hg by (simp add: core_upd)
  next
    case 4 then show ?case using D(4) hg by (simp add: sent)
  next
    case (5 k) then show ?case using D(5) apart by (auto split: if_splits)
  next
    case 6 then show ?case using linked_upd [OF D(6) fresh h0 prev] .
  next
    case 7 then show ?case
      using ranked_upd [OF D(7) hg prev_at_fresh [OF D(6) fresh h0] pb] by simp
  next
    case 8 then show ?case
      using down S by (intro sends_down_upd [OF D(8,6) fresh h0 pb]) blast
  next
    case (9 k s) then show ?case
    proof (cases "k = h")
      case True
      with 9 have "R = Some s" by (simp add: received)
      with rec [of s] source [of s] True pb prev_at_fresh [OF D(6) fresh h0, of s] show ?thesis
        by (simp add: receipt_def core_upd sent)
    next
      case False
      with 9 have k: "received_in n c k = Some s" by (simp add: received)
      then have "s \<noteq> h" using D(9) [OF k] sent_stored [of c s] fresh by (auto simp: receipt_def)
      with receipt_upd [OF D(9) [OF k] False _ D(6) fresh h0 pb] show ?thesis by simp
    qed
  next
    case (10 k k' s) then show ?case
      using D(10) [of k s k'] source [of s] by (auto simp: received split: if_splits)
  next
    case (11 s d)
    have ex: "(\<exists>k. received_in n ?c k = Some s) \<longleftrightarrow> R = Some s \<or> (\<exists>k. received_in n c k = Some s)"
      unfolding received using none(5) by (metis option.distinct(1))
    show ?case
    proof (cases "s = h")
      case True
      with 11 have "S = Some d" by (simp add: sent)
      then show ?thesis
        unfolding ex using True source [of s] D(9) [of _ h] none(4)
        by (auto simp: receipt_def pending_after_def)
    next
      case False
      with 11 have "sent c s = Some d" by (simp add: sent)
      then show ?thesis
        unfolding ex using False source [of s] D(11) [of s d] by (auto simp: pending_after_def)
    qed
  next
    case (12 k) then show ?case
      using D(12) [of k] source [of "key_hash k"] none(4) by (auto simp: sent pending_after_def split: if_splits)
  next
    case (13 k) then show ?case
      using D(13) [of k] keep pb prev_at_fresh [OF D(6) fresh h0, of k]
      by (auto simp: sent received core_upd split: if_splits)
  qed
  then show ?thesis by blast
qed

lemma ranked_down:
  assumes "ranked g (c(h \<mapsto> (b, a, x))) rank" "c h = None"
  shows "ranked g c rank"
proof -
  have "(k \<noteq> g \<longrightarrow> 0 < rank k) \<and> (prev_at c k \<noteq> 0 \<longrightarrow> rank (prev_at c k) < rank k)"
    if "c k \<noteq> None" for k
  proof -
    have "k \<noteq> h" using that assms(2) by auto
    with assms(1) [unfolded ranked_def, THEN conjunct2, THEN spec, of k] that show ?thesis
      by (simp add: prev_at_upd)
  qed
  with assms(1) show ?thesis by (simp add: ranked_def)
qed

lemma sends_down_down:
  assumes "sends_down (c(h \<mapsto> (b, a, x)))" "linked c" "c h = None" "h \<noteq> 0" "previous b \<noteq> h"
  shows "sends_down c"
  unfolding sends_down_def
proof (intro allI impI)
  fix s d
  assume s: "sent c s = Some d"
  then have "s \<noteq> h" using sent_stored [of c s] assms(3) by auto
  with s assms(1) [unfolded sends_down_def, rule_format, of s d] prev_at_fresh [OF assms(2-4), of s]
  show "c (prev_at c s) \<noteq> None \<and> bal_at c s \<le> bal_at c (prev_at c s)"
    by (simp add: core_upd sent_upd [OF assms(2-5)])
qed

lemma prov_retract:
  assumes inv: "prov_inv n (c(h \<mapsto> (b, a, x))) ver pend rank" and fresh: "c h = None"
    and lk: "linked c" and prev: "previous b = 0 \<or> c (previous b) \<noteq> None" and hg: "h \<noteq> net_genesis n"
    and S: "S = sent_by (bal_at c (previous b)) b"
    and R: "R = received_by (net_epoch_link n) (bal_at c (previous b)) b"
    and pending: "\<And>d. S = Some d \<Longrightarrow> pend (Pending_key d h) \<noteq> None"
  shows "prov_inv n c (ver(h := e)) (pending_before h a S R p pend) rank"
proof -
  note D = prov_invD [OF inv]
  let ?c = "c(h \<mapsto> (b, a, x))"
  have h0: "h \<noteq> 0" using D(5) [of h] by (simp add: hash_apart_def)
  have pb: "previous b \<noteq> h" using prev fresh h0 by auto
  note sent = sent_upd [OF lk fresh h0 pb, folded S]
  note received = received_upd [OF lk fresh h0 pb hg, where el = "net_epoch_link n", folded R]
  note none = core_none [where c = c and h = h, OF fresh]
  note prevs = prev_at_fresh [OF lk fresh h0]
  have unused: "received_in n c k \<noteq> Some h" for k
  proof
    assume k: "received_in n c k = Some h"
    with received_stored [OF this] fresh have "received_in n ?c k = Some h" by (auto simp: received)
    with D(9) [OF this] have "sent ?c h = Some (account_at ?c k)" by (simp add: receipt_def)
    with D(11) [OF this] pending k \<open>received_in n ?c k = Some h\<close> show False by (auto simp: sent)
  qed
  have old: "received_in n ?c k = Some s \<and> k \<noteq> h \<and> s \<noteq> h" if "received_in n c k = Some s" for k s
    using that received_stored [OF that] unused fresh by (auto simp: received)
  have mine: "sent c s = Some a \<and> s \<noteq> h" if "R = Some s" for s
    using D(9) [of h s] that by (auto simp: received receipt_def sent core_upd split: if_splits)
  show ?thesis
    unfolding prov_inv_def
  proof (intro conjI allI impI, goal_cases)
    case 1 then show ?case using D(1) by (simp add: dom_fun_upd)
  next
    case 2 then show ?case using D(2) hg by simp
  next
    case 3 then show ?case using D(3) hg by (simp add: core_upd)
  next
    case 4 then show ?case using D(4) hg by (simp add: sent)
  next
    case (5 k) then show ?case using D(5) [of k] fresh by (auto split: if_splits)
  next
    case 6 then show ?case by (rule lk)
  next
    case 7 then show ?case
      by (rule ranked_down [OF D(7) fresh])
  next
    case 8 then show ?case
      by (rule sends_down_down [OF D(8) lk fresh h0 pb])
  next
    case (9 k s) then show ?case
      using old [OF 9] D(9) [of k s] prevs by (auto simp: receipt_def core_upd sent)
  next
    case (10 k k' s) then show ?case using D(10) [of k s k'] old by blast
  next
    case (11 s d)
    then have s: "s \<noteq> h" "sent ?c s = Some d" using none(4) by (auto simp: sent)
    show ?case
    proof (cases "R = Some s")
      case True
      with mine s(2) 11 have "pending_before h a S R p pend (Pending_key d s) \<noteq> None"
        using s(1) by (simp add: pending_before_def)
      moreover have "received_in n c k \<noteq> Some s" for k
        using old D(10) [of h s k] True by (auto simp: received)
      ultimately show ?thesis by simp
    next
      case False
      then have "(\<exists>k. received_in n ?c k = Some s) \<longleftrightarrow> (\<exists>k. received_in n c k = Some s)"
        using old by (auto simp: received split: if_splits)
      with D(11) [OF s(2)] False s(1) show ?thesis by (simp add: pending_before_def)
    qed
  next
    case (12 k) then show ?case
      using D(12) [of k] mine [of "key_hash k"]
      by (auto simp: sent pending_before_def split: if_splits)
  next
    case (13 k) then show ?case
      using D(13) [of k] fresh prevs [of k] by (cases "k = h") (auto simp: sent received core_upd)
  qed
qed

end
