(* ===== verification/Processor_Inv.thy ===== *)
theory Processor_Inv
  imports Ledger_Inv
begin

text \<open>
  Every handler of the processor, on a ledger that satisfies the invariant, returns without
  failing an assertion, keeps the invariant, and changes nothing unless it reports progress.
\<close>

section \<open>Hypotheses\<close>

text \<open>
  The hash of the block is not zero, and no stored block with other contents has it: what
  the program relies on BLAKE2b for.
\<close>

definition collision_free :: "(byte list \<Rightarrow> uint256) \<Rightarrow> view \<Rightarrow> block \<Rightarrow> bool" where
  "collision_free H v b \<longleftrightarrow> block_hash H b \<noteq> 0 \<and>
     (\<forall>h b' sb. vblocks v h = Some (b', sb) \<longrightarrow> block_hash H b' = block_hash H b \<longrightarrow>
        hash_input b' = hash_input b)"

text \<open>The account whose signature a block needs.\<close>

fun signer :: "store \<Rightarrow> block \<Rightarrow> uint256" where
  "signer s (Open_block b) = open_account (hashables b)"
| "signer s (State_block b) = state_account (hashables b)"
| "signer s b = frontier_get s (previous b)"

text \<open>
  A caller that says the signature has been verified is right: by the account, or by the
  epoch signer for an epoch block. A send, receive or change block whose predecessor is not
  the head of a chain has no account yet.
\<close>

definition verification_sound :: "env \<Rightarrow> ledger \<Rightarrow> block \<Rightarrow> signature_verification \<Rightarrow> bool" where
  "verification_sound env l b ver \<longleftrightarrow>
     (ver = Sv_valid \<longrightarrow> (type_of b \<in> {Bt_send, Bt_receive, Bt_change} \<longrightarrow> signer (store l) b \<noteq> 0) \<longrightarrow>
        \<not> validate_message env (signer (store l) b) (block_hash (digest env) b) (block_signature b)) \<and>
     (ver = Sv_valid_epoch \<longrightarrow> \<not> validate_message env (epoch_signer l)
        (block_hash (digest env) b) (block_signature b))"

text \<open>
  An epoch block for an account that has no chain yet is its first block. The processor does
  not test this, and aborts on one that is not (\<open>epoch_unopened_abort\<close>).
\<close>

definition epoch_placed :: "ledger \<Rightarrow> block \<Rightarrow> bool" where
  "epoch_placed l b \<longleftrightarrow> (\<forall>sb. b = State_block sb \<longrightarrow> state_link (hashables sb) = epoch_link l \<longrightarrow>
     account_get (store l) (state_account (hashables sb)) = None \<longrightarrow> state_previous (hashables sb) = 0)"

section \<open>Accepting a block, on the view\<close>

text \<open>
  What an accepted block does to the view, one function per kind of block, and the relation
  \<open>accepts\<close>: the conditions under which the ledger takes the block and the view it has then.
\<close>

definition sideband_for :: "env \<Rightarrow> block_type \<Rightarrow> uint256 \<Rightarrow> uint128 \<Rightarrow> uint64 \<Rightarrow> block_sideband" where
  "sideband_for env t a bal n = \<lparr>sb_type = t, successor = 0, sb_account = a, sb_balance = bal,
     height = n, timestamp = now env\<rparr>"

definition send_view :: "env \<Rightarrow> view \<Rightarrow> uint256 \<Rightarrow> account_info \<Rightarrow> send_hashables signed \<Rightarrow> view" where
  "send_view env v a i b =
     (let h = block_hash (digest env) (Send_block b);
          bal = send_balance (hashables b);
          n = block_count i + 1
      in vextend v a h (Send_block b) (sideband_for env Bt_send a bal n) Epoch_0
        (info_next (Some i) (now env) h (rep_block i) bal n Epoch_0)
        ((vpending v)(Pending_key (send_destination (hashables b)) h \<mapsto>
           \<lparr>pending_source = a, pending_amount = info_balance i - bal, pending_epoch = Epoch_0\<rparr>))
        (weight_add (vweight v) (rep_of (vblocks v) i) (0 - (info_balance i - bal))))"

definition change_view :: "env \<Rightarrow> view \<Rightarrow> uint256 \<Rightarrow> account_info \<Rightarrow> change_hashables signed \<Rightarrow> view" where
  "change_view env v a i b =
     (let h = block_hash (digest env) (Change_block b);
          bal = info_balance i;
          n = block_count i + 1
      in vextend v a h (Change_block b) (sideband_for env Bt_change a bal n) Epoch_0
        (info_next (Some i) (now env) h h bal n Epoch_0) (vpending v)
        (weight_add (weight_add (vweight v) (change_representative (hashables b)) bal)
           (rep_of (vblocks v) i) (0 - bal)))"

definition receive_view ::
  "env \<Rightarrow> view \<Rightarrow> uint256 \<Rightarrow> account_info \<Rightarrow> pending_info \<Rightarrow> receive_hashables signed \<Rightarrow> view" where
  "receive_view env v a i p b =
     (let h = block_hash (digest env) (Receive_block b);
          bal = info_balance i + pending_amount p;
          n = block_count i + 1
      in vextend v a h (Receive_block b) (sideband_for env Bt_receive a bal n) Epoch_0
        (info_next (Some i) (now env) h (rep_block i) bal n Epoch_0)
        ((vpending v)(Pending_key a (receive_source (hashables b)) := None))
        (weight_add (vweight v) (rep_of (vblocks v) i) (pending_amount p)))"

definition open_view :: "env \<Rightarrow> view \<Rightarrow> pending_info \<Rightarrow> open_hashables signed \<Rightarrow> view" where
  "open_view env v p b =
     (let h = block_hash (digest env) (Open_block b);
          a = open_account (hashables b)
      in vextend v a h (Open_block b) (sideband_for env Bt_open a (pending_amount p) 1) Epoch_0
        (info_next None (now env) h h (pending_amount p) 1 Epoch_0)
        ((vpending v)(Pending_key a (open_source (hashables b)) := None))
        (weight_add (vweight v) (open_representative (hashables b)) (pending_amount p)))"

definition info_or_init :: "account_info option \<Rightarrow> account_info" where
  "info_or_init i = (case i of Some i \<Rightarrow> i | None \<Rightarrow> account_info_init)"

definition state_view ::
  "env \<Rightarrow> view \<Rightarrow> (pending_key \<rightharpoonup> pending_info) \<Rightarrow> epoch \<Rightarrow> state_hashables signed \<Rightarrow> view" where
  "state_view env v pend e b =
     (let h = block_hash (digest env) (State_block b);
          a = state_account (hashables b);
          i = vaccounts v a;
          bal = state_balance (hashables b);
          n = block_count (info_or_init i) + 1
      in vextend v a h (State_block b) (sideband_for env Bt_state a 0 n) e
        (info_next i (now env) h h bal n e) pend
        (weight_add (case i of None \<Rightarrow> vweight v
                     | Some i \<Rightarrow> weight_add (vweight v) (rep_of (vblocks v) i) (0 - info_balance i))
           (state_representative (hashables b)) bal))"

definition epoch_view :: "env \<Rightarrow> view \<Rightarrow> state_hashables signed \<Rightarrow> view" where
  "epoch_view env v b =
     (let h = block_hash (digest env) (State_block b);
          a = state_account (hashables b);
          i = vaccounts v a;
          n = block_count (info_or_init i) + 1
      in vextend v a h (State_block b) (sideband_for env Bt_state a 0 n) Epoch_1
        (info_next i (now env) h h (state_balance (hashables b)) n Epoch_1) (vpending v) (vweight v))"

definition signed_by :: "env \<Rightarrow> uint256 \<Rightarrow> block \<Rightarrow> bool" where
  "signed_by env a b \<longleftrightarrow> \<not> validate_message env a (block_hash (digest env) b) (block_signature b)"

inductive accepts :: "env \<Rightarrow> ledger \<Rightarrow> view \<Rightarrow> block \<Rightarrow> view \<Rightarrow> bool" for env l v where
  accept_send:
    "vfrontiers v (send_previous (hashables b)) = Some a \<Longrightarrow> vaccounts v a = Some i \<Longrightarrow>
     signed_by env a (Send_block b) \<Longrightarrow> send_balance (hashables b) \<le> info_balance i \<Longrightarrow>
     accepts env l v (Send_block b) (send_view env v a i b)"
| accept_change:
    "vfrontiers v (change_previous (hashables b)) = Some a \<Longrightarrow> vaccounts v a = Some i \<Longrightarrow>
     signed_by env a (Change_block b) \<Longrightarrow>
     accepts env l v (Change_block b) (change_view env v a i b)"
| accept_receive:
    "vfrontiers v (receive_previous (hashables b)) = Some a \<Longrightarrow> vaccounts v a = Some i \<Longrightarrow>
     signed_by env a (Receive_block b) \<Longrightarrow>
     vpending v (Pending_key a (receive_source (hashables b))) = Some p \<Longrightarrow> pending_epoch p = Epoch_0 \<Longrightarrow>
     accepts env l v (Receive_block b) (receive_view env v a i p b)"
| accept_open:
    "open_account (hashables b) \<noteq> burn_account \<Longrightarrow> vaccounts v (open_account (hashables b)) = None \<Longrightarrow>
     signed_by env (open_account (hashables b)) (Open_block b) \<Longrightarrow>
     vpending v (Pending_key (open_account (hashables b)) (open_source (hashables b))) = Some p \<Longrightarrow>
     pending_epoch p = Epoch_0 \<Longrightarrow>
     accepts env l v (Open_block b) (open_view env v p b)"
| accept_state_send:
    "signed_by env (state_account (hashables b)) (State_block b) \<Longrightarrow>
     vaccounts v (state_account (hashables b)) = Some i \<Longrightarrow> head i = state_previous (hashables b) \<Longrightarrow>
     state_balance (hashables b) < info_balance i \<Longrightarrow>
     accepts env l v (State_block b) (state_view env v
       ((vpending v)(Pending_key (state_link (hashables b)) (block_hash (digest env) (State_block b)) \<mapsto>
          \<lparr>pending_source = state_account (hashables b),
            pending_amount = info_balance i - state_balance (hashables b),
            pending_epoch = info_epoch i\<rparr>)) (info_epoch i) b)"
| accept_state_receive:
    "signed_by env (state_account (hashables b)) (State_block b) \<Longrightarrow> state_account (hashables b) \<noteq> 0 \<Longrightarrow>
     info = info_or_init (vaccounts v (state_account (hashables b))) \<Longrightarrow>
     head info = state_previous (hashables b) \<Longrightarrow> state_link (hashables b) \<noteq> 0 \<Longrightarrow>
     vpending v (Pending_key (state_account (hashables b)) (state_link (hashables b))) = Some p \<Longrightarrow>
     info_balance info \<le> state_balance (hashables b) \<Longrightarrow>
     pending_amount p = state_balance (hashables b) - info_balance info \<Longrightarrow>
     accepts env l v (State_block b) (state_view env v
       ((vpending v)(Pending_key (state_account (hashables b)) (state_link (hashables b)) := None))
       (max (info_epoch info) (pending_epoch p)) b)"
| accept_state_change:
    "signed_by env (state_account (hashables b)) (State_block b) \<Longrightarrow>
     vaccounts v (state_account (hashables b)) = Some i \<Longrightarrow> head i = state_previous (hashables b) \<Longrightarrow>
     state_link (hashables b) = 0 \<Longrightarrow> state_balance (hashables b) = info_balance i \<Longrightarrow>
     accepts env l v (State_block b) (state_view env v (vpending v) (info_epoch i) b)"
| accept_epoch:
    "signed_by env (epoch_signer l) (State_block b) \<Longrightarrow> state_account (hashables b) \<noteq> 0 \<Longrightarrow>
     state_link (hashables b) = epoch_link l \<Longrightarrow> epoch_link l \<noteq> 0 \<Longrightarrow>
     info = info_or_init (vaccounts v (state_account (hashables b))) \<Longrightarrow>
     head info = state_previous (hashables b) \<Longrightarrow> info_epoch info = Epoch_0 \<Longrightarrow>
     state_balance (hashables b) = info_balance info \<Longrightarrow>
     state_representative (hashables b) = rep_of (vblocks v) info \<Longrightarrow>
     accepts env l v (State_block b) (epoch_view env v b)"

section \<open>The contract of a handler\<close>

definition ledger_ok :: "env \<Rightarrow> ledger \<Rightarrow> bool" where
  "ledger_ok env l \<longleftrightarrow> store_ok (store l) \<and> ledger_inv (digest env) (view (store l))"

text \<open>
  The handler returns; with progress, the block is new and has been accepted; with any
  other code the ledger is untouched.
\<close>

definition step_ok :: "env \<Rightarrow> ledger \<Rightarrow> block \<Rightarrow> (ledger \<times> process_return) option \<Rightarrow> bool" where
  "step_ok env l b res \<longleftrightarrow> succeeds res (\<lambda>(l', r').
     if code r' = Progress
     then vblocks (view (store l)) (block_hash (digest env) b) = None \<and> store_ok (store l') \<and>
       accepts env l (view (store l)) b (view (store l')) \<and>
       l' = l\<lparr>store := store l', stats := stats l'\<rparr>
     else l' = l)"

lemma step_ok_stay [simp]: "code r \<noteq> Progress \<Longrightarrow> step_ok env l b (Some (l, r))"
  by (simp add: step_ok_def)

section \<open>Facts the handlers share\<close>

lemma fresh_hash:
  assumes "chain_inv H v" "collision_free H v b"
    and "\<not> (\<exists>b' sb. vblocks v (block_hash H b) = Some (b', sb) \<and> type_of b' = type_of b)"
    and "type_of b \<in> {Bt_receive, Bt_change} \<Longrightarrow>
      \<exists>b' sb. vblocks v (previous b) = Some (b', sb) \<and> successor sb = 0"
  shows "vblocks v (block_hash H b) = None"
proof (rule ccontr)
  assume "vblocks v (block_hash H b) \<noteq> None"
  then obtain b' sb where b': "vblocks v (block_hash H b) = Some (b', sb)" by auto
  have inv: "block_inv H v (block_hash H b) b' sb" by (rule chain_inv_block [OF assms(1) b'])
  then have eq: "hash_input b' = hash_input b"
    using assms(2) b' unfolding collision_free_def block_inv_def by blast
  from hash_input_type [OF eq] assms(3) b' have "type_of b \<in> {Bt_receive, Bt_change}" by blast
  then obtain c sc where c: "vblocks v (previous b) = Some (c, sc)" "successor sc = 0"
    using assms(4) by blast
  then have "previous b' \<noteq> 0" using hash_input_previous [OF eq] no_block_zero [OF assms(1)] by auto
  with inv c hash_input_previous [OF eq] show False by (auto simp: block_inv_def)
qed

lemma frontier_account:
  assumes "chain_inv H v" "vfrontiers v h = Some a"
  obtains i b sb where "vaccounts v a = Some i" "head i = h" "vblocks v h = Some (b, sb)" "legacy b"
    "entry_account (b, sb) = a" "successor sb = 0" "entry_balance (b, sb) = info_balance i"
    "info_epoch i = Epoch_0" "a \<noteq> 0"
proof -
  obtain i b sb where i: "vaccounts v a = Some i" "head i = h" "vblocks v h = Some (b, sb)" "legacy b"
    using assms chain_inv_frontier [OF assms(1)] unfolding frontier_inv_def by blast
  have acc: "account_inv v a i" by (rule chain_inv_account [OF assms(1) i(1)])
  moreover have "block_inv H v h b sb" by (rule chain_inv_block [OF assms(1) i(3)])
  ultimately have "info_epoch i = Epoch_0"
    using i by (auto simp: account_inv_def block_inv_def)
  with acc i no_account_zero [OF assms(1) i(1)] that show ?thesis
    by (auto simp: account_inv_def)
qed

lemma no_frontier: "chain_inv H v \<Longrightarrow> vblocks v h = None \<Longrightarrow> vfrontiers v h = None"
  by (metis frontier_account not_None_eq)

lemma no_pending:
  "chain_inv H v \<Longrightarrow> vblocks v (key_hash k) = None \<Longrightarrow> vpending v k = None"
  using chain_inv_pending [of H v k] by (cases "vpending v k") (auto simp: pending_inv_def)

lemma pending_source_account:
  assumes "chain_inv H v" "vpending v k = Some p"
  shows "\<exists>i. vaccounts v (pending_source p) = Some i"
  using chain_inv_pending [OF assms] chain_inv_block [OF assms(1)]
  unfolding pending_inv_def block_inv_def by metis

lemma pending_epochs:
  assumes "chain_inv H v" "vpending v k = Some p"
  shows "pending_epoch p \<in> {Epoch_0, Epoch_1}"
  using chain_inv_pending [OF assms] chain_inv_block [OF assms(1)]
  unfolding pending_inv_def block_inv_def by metis

lemma epochs:
  assumes "chain_inv H v" "vaccounts v a = Some i"
  shows "info_epoch i \<in> {Epoch_0, Epoch_1}"
  using chain_inv_account [OF assms] chain_inv_block [OF assms(1)]
  unfolding account_inv_def block_inv_def by metis

text \<open>A balance and a pending amount fit together into the supply.\<close>

lemma supply_bound:
  assumes "supply_inv v" "vaccounts v a = Some i" "vpending v k = Some p"
  shows "unat (info_balance i) + unat (pending_amount p) < 2 ^ 128"
proof -
  have "unat (info_balance i) + unat (pending_amount p) \<le> total_supply v"
    unfolding total_supply_def
    using assms by (intro add_mono table_sum_ge [of _ _ _ "\<lambda>i. unat (info_balance i)"]
        table_sum_ge [of _ _ _ "\<lambda>p. unat (pending_amount p)"]) (auto simp: supply_inv_def)
  also have "\<dots> < 2 ^ 128"
    using assms(1) unat_bound [of genesis_amount] by (simp add: supply_inv_def)
  finally show ?thesis .
qed

lemma unat_plus: "unat (x :: 'a::len word) + unat y < 2 ^ LENGTH('a) \<Longrightarrow> unat (x + y) = unat x + unat y"
  by (simp add: unat_word_ariths)

lemma unat_minus: "(y :: 'a::len word) \<le> x \<Longrightarrow> unat (x - y) = unat x - unat y"
  by (rule unat_sub)

section \<open>Accepted blocks extend a chain\<close>

lemmas extends_simps = extends_chain_def sideband_for_def legacy_def entry_account_def
  entry_balance_def sideband_stored_def sideband_read_back_def

lemma extends_send:
  assumes "chain_inv H v" "vaccounts v a = Some i" "head i = send_previous (hashables b)"
    and "vblocks v (block_hash H (Send_block b)) = None" "block_hash H (Send_block b) \<noteq> 0"
    and "vfrontiers v (head i) \<noteq> None" "n = block_count i + 1"
  shows "extends_chain H v a (block_hash H (Send_block b)) (Send_block b)
    (sideband_for env Bt_send a (send_balance (hashables b)) n) Epoch_0
    (info_next (Some i) t (block_hash H (Send_block b)) (rep_block i) (send_balance (hashables b)) n Epoch_0)"
  using assms head_nonzero [OF assms(1,2)] no_account_zero [OF assms(1,2)]
  by (simp add: extends_simps)

lemma extends_change:
  assumes "chain_inv H v" "vaccounts v a = Some i" "head i = change_previous (hashables b)"
    and "vblocks v (block_hash H (Change_block b)) = None" "block_hash H (Change_block b) \<noteq> 0"
    and "vfrontiers v (head i) \<noteq> None" "n = block_count i + 1"
  shows "extends_chain H v a (block_hash H (Change_block b)) (Change_block b)
    (sideband_for env Bt_change a bal n) Epoch_0
    (info_next (Some i) t (block_hash H (Change_block b)) (block_hash H (Change_block b)) bal n Epoch_0)"
  using assms head_nonzero [OF assms(1,2)] no_account_zero [OF assms(1,2)]
  by (simp add: extends_simps)

lemma extends_receive:
  assumes "chain_inv H v" "vaccounts v a = Some i" "head i = receive_previous (hashables b)"
    and "vblocks v (block_hash H (Receive_block b)) = None" "block_hash H (Receive_block b) \<noteq> 0"
    and "vfrontiers v (head i) \<noteq> None" "n = block_count i + 1"
  shows "extends_chain H v a (block_hash H (Receive_block b)) (Receive_block b)
    (sideband_for env Bt_receive a bal n) Epoch_0
    (info_next (Some i) t (block_hash H (Receive_block b)) (rep_block i) bal n Epoch_0)"
  using assms head_nonzero [OF assms(1,2)] no_account_zero [OF assms(1,2)]
  by (simp add: extends_simps)

lemma extends_open:
  assumes "open_account (hashables b) \<noteq> 0" "vaccounts v (open_account (hashables b)) = None"
    and "vblocks v (block_hash H (Open_block b)) = None" "block_hash H (Open_block b) \<noteq> 0"
  shows "extends_chain H v (open_account (hashables b)) (block_hash H (Open_block b)) (Open_block b)
    (sideband_for env Bt_open (open_account (hashables b)) bal 1) Epoch_0
    (info_next None t (block_hash H (Open_block b)) (block_hash H (Open_block b)) bal 1 Epoch_0)"
  using assms by (simp add: extends_simps)

lemma extends_state:
  assumes "chain_inv H v" "state_account (hashables b) = a" "a \<noteq> 0" "e \<in> {Epoch_0, Epoch_1}"
    and "head (info_or_init (vaccounts v a)) = state_previous (hashables b)"
    and "vblocks v (block_hash H (State_block b)) = None" "block_hash H (State_block b) \<noteq> 0"
    and "n = block_count (info_or_init (vaccounts v a)) + 1"
  shows "extends_chain H v a (block_hash H (State_block b)) (State_block b)
    (sideband_for env Bt_state a 0 n) e
    (info_next (vaccounts v a) t (block_hash H (State_block b)) (block_hash H (State_block b))
      (state_balance (hashables b)) n e)"
  using assms head_nonzero [OF assms(1), of a]
  by (cases "vaccounts v a") (auto simp: extends_simps info_or_init_def account_info_init_def)

section \<open>Accepting a block keeps the invariant\<close>

lemma pending_extends_same: "pending_extends v a h b e i (vpending v)"
  by (simp add: pending_extends_def)

lemma pending_extends_del: "pending_extends v a h b e i ((vpending v)(k := None))"
  by (simp add: pending_extends_def)

lemma ledger_invD:
  assumes "ledger_inv H v"
  shows "chain_inv H v" "supply_inv v" "finite (dom (vpending v))"
  using assms by (simp_all add: ledger_inv_def supply_inv_def)

lemma send_view_inv:
  assumes inv: "ledger_inv (digest env) v" and a: "vaccounts v a = Some i"
    and p: "head i = send_previous (hashables b)"
    and fresh: "vblocks v (block_hash (digest env) (Send_block b)) = None"
    and h0: "block_hash (digest env) (Send_block b) \<noteq> 0"
    and pos: "send_balance (hashables b) \<le> info_balance i"
    and fr: "vfrontiers v (head i) \<noteq> None"
  shows "ledger_inv (digest env) (send_view env v a i b)"
proof -
  note chain = ledger_invD(1) [OF inv] and fin = ledger_invD(3) [OF inv]
  let ?k = "Pending_key (send_destination (hashables b)) (block_hash (digest env) (Send_block b))"
  have new: "vpending v ?k = None" using no_pending [OF chain, of ?k] fresh by simp
  have p0: "send_previous (hashables b) \<noteq> 0" using head_nonzero [OF chain a] p by simp
  show ?thesis
    unfolding send_view_def Let_def
  proof (rule ledger_inv_extend [OF inv extends_send [OF chain a p fresh h0 fr refl]], goal_cases)
    case 1
    then show ?case using a p0 pos by (auto simp: pending_extends_def)
  next
    case 2
    then show ?case using fin by simp
  next
    case 3
    then show ?case
      using a unat_minus [OF pos] pos [unfolded word_le_nat_alt]
      by (simp add: table_sum_insert [OF fin new] old_balance_def)
  next
    case (4 r)
    then show ?case using a by (simp add: old_weight_def weight_add_def)
  qed
qed

lemma change_view_inv:
  assumes inv: "ledger_inv (digest env) v" and a: "vaccounts v a = Some i"
    and p: "head i = change_previous (hashables b)"
    and fresh: "vblocks v (block_hash (digest env) (Change_block b)) = None"
    and h0: "block_hash (digest env) (Change_block b) \<noteq> 0"
    and fr: "vfrontiers v (head i) \<noteq> None"
  shows "ledger_inv (digest env) (change_view env v a i b)"
proof -
  note chain = ledger_invD(1) [OF inv] and fin = ledger_invD(3) [OF inv]
  show ?thesis
    unfolding change_view_def Let_def
    using a fin by (intro ledger_inv_extend [OF inv extends_change [OF chain a p fresh h0 fr refl]]
        pending_extends_same) (auto simp: old_balance_def old_weight_def weight_add_def)
qed

lemma receive_view_inv:
  assumes inv: "ledger_inv (digest env) v" and a: "vaccounts v a = Some i"
    and p: "head i = receive_previous (hashables b)"
    and fresh: "vblocks v (block_hash (digest env) (Receive_block b)) = None"
    and h0: "block_hash (digest env) (Receive_block b) \<noteq> 0"
    and pend: "vpending v (Pending_key a (receive_source (hashables b))) = Some pd"
    and fr: "vfrontiers v (head i) \<noteq> None"
  shows "ledger_inv (digest env) (receive_view env v a i pd b)"
proof -
  note chain = ledger_invD(1) [OF inv] and fin = ledger_invD(3) [OF inv]
  have "unat (info_balance i + pending_amount pd) = unat (info_balance i) + unat (pending_amount pd)"
    using supply_bound [OF ledger_invD(2) [OF inv] a pend] by (intro unat_plus) simp
  then show ?thesis
    unfolding receive_view_def Let_def
    using a fin table_sum_delete [OF fin pend, of "\<lambda>p. unat (pending_amount p)"]
    by (intro ledger_inv_extend [OF inv extends_receive [OF chain a p fresh h0 fr refl]]
        pending_extends_del) (auto simp: old_balance_def old_weight_def weight_add_def)
qed

lemma open_view_inv:
  assumes inv: "ledger_inv (digest env) v" and a: "vaccounts v (open_account (hashables b)) = None"
    and a0: "open_account (hashables b) \<noteq> 0"
    and fresh: "vblocks v (block_hash (digest env) (Open_block b)) = None"
    and h0: "block_hash (digest env) (Open_block b) \<noteq> 0"
    and pend: "vpending v (Pending_key (open_account (hashables b)) (open_source (hashables b))) = Some pd"
  shows "ledger_inv (digest env) (open_view env v pd b)"
proof -
  note fin = ledger_invD(3) [OF inv]
  show ?thesis
    unfolding open_view_def Let_def
    using a fin table_sum_delete [OF fin pend, of "\<lambda>p. unat (pending_amount p)"]
    by (intro ledger_inv_extend [OF inv extends_open [OF a0 a fresh h0]]
        pending_extends_del) (auto simp: old_balance_def old_weight_def weight_add_def)
qed

text \<open>State blocks of every kind, given what they do to the pending table.\<close>

lemma state_view_inv:
  assumes inv: "ledger_inv (digest env) v" and a: "state_account (hashables b) = a" "a \<noteq> 0"
    and e: "e \<in> {Epoch_0, Epoch_1}"
    and p: "head (info_or_init (vaccounts v a)) = state_previous (hashables b)"
    and fresh: "vblocks v (block_hash (digest env) (State_block b)) = None"
    and h0: "block_hash (digest env) (State_block b) \<noteq> 0"
    and pend: "\<And>i. info_balance i = state_balance (hashables b) \<Longrightarrow>
      pending_extends v a (block_hash (digest env) (State_block b)) (State_block b) e i pend"
    and fin: "finite (dom pend)"
    and bal: "unat (state_balance (hashables b)) + table_sum (\<lambda>p. unat (pending_amount p)) pend =
      unat (old_balance v a) + table_sum (\<lambda>p. unat (pending_amount p)) (vpending v)"
  shows "ledger_inv (digest env) (state_view env v pend e b)"
  unfolding state_view_def Let_def a(1)
  using bal fin pend
  by (intro ledger_inv_extend [OF inv extends_state [OF ledger_invD(1) [OF inv] a e p fresh h0 refl]])
    (auto simp: old_weight_def weight_add_def split: option.split)

lemma info_or_init_balance: "info_balance (info_or_init (vaccounts v a)) = old_balance v a"
  by (simp add: info_or_init_def old_balance_def account_info_init_def split: option.split)

lemma info_or_init_Some [simp]: "info_or_init (Some i) = i"
  by (simp add: info_or_init_def)

lemma info_or_init_epoch:
  "chain_inv H v \<Longrightarrow> info_epoch (info_or_init (vaccounts v a)) \<in> {Epoch_0, Epoch_1}"
  using epochs [of H v a] by (cases "vaccounts v a") (auto simp: info_or_init_def account_info_init_def)

lemma state_send_inv:
  assumes inv: "ledger_inv (digest env) v" and i: "vaccounts v (state_account (hashables b)) = Some i"
    and p: "head i = state_previous (hashables b)"
    and fresh: "vblocks v (block_hash (digest env) (State_block b)) = None"
    and h0: "block_hash (digest env) (State_block b) \<noteq> 0"
    and neg: "state_balance (hashables b) < info_balance i"
  shows "ledger_inv (digest env) (state_view env v
    ((vpending v)(Pending_key (state_link (hashables b)) (block_hash (digest env) (State_block b)) \<mapsto>
      \<lparr>pending_source = state_account (hashables b),
        pending_amount = info_balance i - state_balance (hashables b),
        pending_epoch = info_epoch i\<rparr>)) (info_epoch i) b)"
proof -
  note chain = ledger_invD(1) [OF inv] and fin = ledger_invD(3) [OF inv]
  let ?k = "Pending_key (state_link (hashables b)) (block_hash (digest env) (State_block b))"
  have new: "vpending v ?k = None" using no_pending [OF chain, of ?k] fresh by simp
  have p0: "state_previous (hashables b) \<noteq> 0" using head_nonzero [OF chain i] p by simp
  have le: "state_balance (hashables b) \<le> info_balance i" using neg by simp
  show ?thesis
  proof (rule state_view_inv [OF inv refl no_account_zero [OF chain i] epochs [OF chain i] _ fresh h0], goal_cases)
    case 1
    then show ?case using i p by simp
  next
    case (2 j)
    then show ?case using i p0 le by (auto simp: pending_extends_def)
  next
    case 3
    then show ?case using fin by simp
  next
    case 4
    then show ?case
      using i unat_minus [OF le] le [unfolded word_le_nat_alt]
      by (simp add: table_sum_insert [OF fin new] old_balance_def)
  qed
qed

lemma state_receive_inv:
  assumes inv: "ledger_inv (digest env) v" and a0: "state_account (hashables b) \<noteq> 0"
    and info: "info = info_or_init (vaccounts v (state_account (hashables b)))"
    and p: "head info = state_previous (hashables b)"
    and fresh: "vblocks v (block_hash (digest env) (State_block b)) = None"
    and h0: "block_hash (digest env) (State_block b) \<noteq> 0"
    and pend: "vpending v (Pending_key (state_account (hashables b)) (state_link (hashables b))) = Some pd"
    and pos: "info_balance info \<le> state_balance (hashables b)"
    and amount: "pending_amount pd = state_balance (hashables b) - info_balance info"
  shows "ledger_inv (digest env) (state_view env v
    ((vpending v)(Pending_key (state_account (hashables b)) (state_link (hashables b)) := None))
    (max (info_epoch info) (pending_epoch pd)) b)"
proof -
  note chain = ledger_invD(1) [OF inv] and fin = ledger_invD(3) [OF inv]
  have e: "max (info_epoch info) (pending_epoch pd) \<in> {Epoch_0, Epoch_1}"
    using info_or_init_epoch [OF chain] pending_epochs [OF chain pend] info by (auto simp: max_def)
  have "unat (state_balance (hashables b)) = unat (info_balance info) + unat (pending_amount pd)"
    using amount unat_minus [OF pos] pos [unfolded word_le_nat_alt] by simp
  then show ?thesis
    using table_sum_delete [OF fin pend, of "\<lambda>p. unat (pending_amount p)"] fin info p
    by (intro state_view_inv [OF inv refl a0 e _ fresh h0] pending_extends_del)
      (auto simp: info_or_init_balance)
qed

lemma state_change_inv:
  assumes inv: "ledger_inv (digest env) v" and i: "vaccounts v (state_account (hashables b)) = Some i"
    and p: "head i = state_previous (hashables b)"
    and fresh: "vblocks v (block_hash (digest env) (State_block b)) = None"
    and h0: "block_hash (digest env) (State_block b) \<noteq> 0"
    and bal: "state_balance (hashables b) = info_balance i"
  shows "ledger_inv (digest env) (state_view env v (vpending v) (info_epoch i) b)"
proof -
  note chain = ledger_invD(1) [OF inv] and fin = ledger_invD(3) [OF inv]
  show ?thesis
    using i p bal fin
    by (intro state_view_inv [OF inv refl no_account_zero [OF chain i] epochs [OF chain i] _ fresh h0]
        pending_extends_same) (auto simp: old_balance_def)
qed

lemma epoch_view_inv:
  assumes inv: "ledger_inv (digest env) v" and a0: "state_account (hashables b) \<noteq> 0"
    and info: "info = info_or_init (vaccounts v (state_account (hashables b)))"
    and p: "head info = state_previous (hashables b)"
    and fresh: "vblocks v (block_hash (digest env) (State_block b)) = None"
    and h0: "block_hash (digest env) (State_block b) \<noteq> 0"
    and bal: "state_balance (hashables b) = info_balance info"
    and rep: "state_representative (hashables b) = rep_of (vblocks v) info"
  shows "ledger_inv (digest env) (epoch_view env v b)"
proof -
  note chain = ledger_invD(1) [OF inv] and fin = ledger_invD(3) [OF inv]
  have ext: "extends_chain (digest env) v (state_account (hashables b))
      (block_hash (digest env) (State_block b)) (State_block b)
      (sideband_for env Bt_state (state_account (hashables b)) 0
        (block_count (info_or_init (vaccounts v (state_account (hashables b)))) + 1)) Epoch_1
      (info_next (vaccounts v (state_account (hashables b))) t (block_hash (digest env) (State_block b))
        (block_hash (digest env) (State_block b)) (state_balance (hashables b))
        (block_count (info_or_init (vaccounts v (state_account (hashables b)))) + 1) Epoch_1)" for t
    using extends_state [OF chain refl a0 _ _ fresh h0 refl, of Epoch_1] info p by simp
  have weights: "old_weight v (state_account (hashables b)) r =
      (if state_representative (hashables b) = r then state_balance (hashables b) else 0)" for r
    using info bal rep by (cases "vaccounts v (state_account (hashables b))")
      (auto simp: old_weight_def info_or_init_def account_info_init_def)
  show ?thesis
    unfolding epoch_view_def Let_def
    using bal fin info
    by (intro ledger_inv_extend [OF inv ext] pending_extends_same)
      (auto simp: info_or_init_balance weights)
qed

theorem accepts_inv:
  assumes "accepts env l v b v'" and inv: "ledger_inv (digest env) v"
    and fresh: "vblocks v (block_hash (digest env) b) = None" and h0: "block_hash (digest env) b \<noteq> 0"
  shows "ledger_inv (digest env) v'"
  using assms(1) fresh h0
proof cases
  case (accept_send sb a i)
  then show ?thesis
    using send_view_inv [OF inv, of a i sb] frontier_account [OF ledger_invD(1) [OF inv], of _ a]
      fresh h0 by (metis option.inject option.discI)
next
  case (accept_change sb a i)
  then show ?thesis
    using change_view_inv [OF inv, of a i sb] frontier_account [OF ledger_invD(1) [OF inv], of _ a]
      fresh h0 by (metis option.inject option.discI)
next
  case (accept_receive sb a i p)
  then show ?thesis
    using receive_view_inv [OF inv, of a i sb] frontier_account [OF ledger_invD(1) [OF inv], of _ a]
      fresh h0 by (metis option.inject option.discI)
next
  case (accept_open sb p)
  then show ?thesis using open_view_inv [OF inv] fresh h0 by (simp add: burn_account_def)
next
  case (accept_state_send sb i)
  then show ?thesis using state_send_inv [OF inv] fresh h0 by simp
next
  case (accept_state_receive sb info p)
  then show ?thesis using state_receive_inv [OF inv] fresh h0 by simp
next
  case (accept_state_change sb i)
  then show ?thesis using state_change_inv [OF inv] fresh h0 by simp
next
  case (accept_epoch sb info)
  then show ?thesis using epoch_view_inv [OF inv] fresh h0 by simp
qed

end
