(* ===== verification/Processor_Prov.thy ===== *)
theory Processor_Prov
  imports Provenance Processor_Inv
begin

text \<open>Every accepted block keeps the provenance invariant.\<close>

definition view_prov :: "network \<Rightarrow> view \<Rightarrow> bool" where
  "view_prov n v \<longleftrightarrow> (\<exists>rank. prov_inv n (core v) (vversion v) (vpending v) rank)"

lemma core_Some: "vblocks v h = Some e \<Longrightarrow> core v h = Some (fst e, entry_account e, entry_balance e)"
  by (simp add: core_def)

lemma core_None [simp]: "core v h = None \<longleftrightarrow> vblocks v h = None"
  by (simp add: core_def)

lemma core_vextend:
  assumes "chain_inv H v" "extends_chain H v a h b sb e i"
  shows "core (vextend v a h b sb e i pend wt) = (core v)(h \<mapsto> (b, a, info_balance i))"
proof
  fix x
  have "entry_account (b, sideband_stored sb) = a" "entry_balance (b, sideband_stored sb) = info_balance i"
    using assms(2) by (simp_all add: extends_chain_def)
  then show "core (vextend v a h b sb e i pend wt) x = ((core v)(h \<mapsto> (b, a, info_balance i))) x"
    by (cases "vblocks v x") (auto simp: core_def vextend_blocks [OF assms])
qed

lemma bal_at_head:
  assumes "chain_inv H v" "vaccounts v a = Some i"
  shows "bal_at (core v) (head i) = info_balance i"
  using chain_inv_account [OF assms] by (auto simp: account_inv_def bal_at_def core_def)

lemma bal_at_previous:
  assumes "chain_inv H v" "extends_chain H v a h b sb e i"
  shows "bal_at (core v) (previous b) = old_balance v a"
proof (cases "previous b = 0")
  case True
  then show ?thesis
    using assms no_block_zero [OF assms(1)]
    by (simp add: extends_chain_def old_balance_def bal_at_def core_def)
next
  case False
  then obtain j where "vaccounts v a = Some j" "head j = previous b"
    using extends_previous [OF assms] by metis
  then show ?thesis using bal_at_head [OF assms(1), of a j] by (simp add: old_balance_def)
qed

lemma pending_provenance:
  assumes "chain_inv H v" "vpending v k = Some p"
  shows "pending_amount p = bal_at (core v) (prev_at (core v) (key_hash k)) - bal_at (core v) (key_hash k)"
    "pending_epoch p = vversion v (key_hash k)" "vblocks v (key_hash k) \<noteq> None"
  using chain_inv_pending [OF assms] by (auto simp: pending_inv_def core_def bal_at_def prev_at_def)

lemma extend_prov:
  assumes chain: "chain_inv H v" and ext: "extends_chain H v a h b sb e i"
    and prov: "view_prov n v" and apart: "hash_apart n h"
    and S: "S = sent_by (old_balance v a) b" and R: "R = received_by (net_epoch_link n) (old_balance v a) b"
    and down: "\<And>d. S = Some d \<Longrightarrow> previous b \<noteq> 0 \<and> info_balance i \<le> old_balance v a"
    and rec: "\<And>s. R = Some s \<Longrightarrow> S = None \<and> (\<exists>q. vpending v (Pending_key a s) = Some q \<and>
      old_balance v a \<le> info_balance i \<and> info_balance i - old_balance v a = pending_amount q \<and>
      (legacy b \<longrightarrow> pending_epoch q = Epoch_0))"
    and keep: "S = None \<Longrightarrow> R = None \<Longrightarrow> info_balance i = old_balance v a"
    and pend: "pend = pending_after h a S R p (vpending v)"
  shows "view_prov n (vextend v a h b sb e i pend wt)"
proof -
  obtain rank where rank: "prov_inv n (core v) (vversion v) (vpending v) rank"
    using prov by (auto simp: view_prov_def)
  note before = bal_at_previous [OF chain ext]
  have prev: "previous b = 0 \<or> core v (previous b) \<noteq> None"
    using extends_previous [OF chain ext] by (metis core_None option.distinct(1))
  have "\<exists>rank. prov_inv n ((core v)(h \<mapsto> (b, a, info_balance i))) ((vversion v)(h := e))
      (pending_after h a S R p (vpending v)) rank"
  proof (rule prov_extend [OF rank _ apart prev])
    show "core v h = None" using ext by (simp add: extends_chain_def)
    show "core v (previous b) \<noteq> None \<and> info_balance i \<le> bal_at (core v) (previous b)" if "S = Some d" for d
      using down [OF that] prev by (auto simp: before)
    show "S = None \<and> vpending v (Pending_key a s) \<noteq> None \<and> bal_at (core v) (previous b) \<le> info_balance i \<and>
        info_balance i - bal_at (core v) (previous b) =
          bal_at (core v) (prev_at (core v) s) - bal_at (core v) s \<and> (legacy b \<longrightarrow> vversion v s = Epoch_0)"
      if "R = Some s" for s
      using rec [OF that] pending_provenance [OF chain, of "Pending_key a s"] by (auto simp: before)
  qed (use keep in \<open>simp_all add: before S R\<close>)
  then show ?thesis
    unfolding view_prov_def pend core_vextend [OF chain ext] by (simp add: vextend_def vblock_put_def)
qed

lemma pending_after_simps:
  "pending_after h a (Some d) None p pend = pend(Pending_key d h \<mapsto> p)"
  "pending_after h a None (Some s) p pend = pend(Pending_key a s := None)"
  "pending_after h a None None p pend = pend"
  by (auto simp: pending_after_def fun_eq_iff)

section \<open>One lemma per kind of block\<close>

lemma prov_stored_apart:
  "view_prov n v \<Longrightarrow> vblocks v h \<noteq> None \<Longrightarrow> hash_apart n h"
  using prov_invD(5) [of n "core v"] unfolding view_prov_def by (metis core_None)

lemma send_view_prov:
  assumes inv: "ledger_inv (digest env) v" and prov: "view_prov n v" and a: "vaccounts v a = Some i"
    and p: "head i = send_previous (hashables b)"
    and fresh: "vblocks v (block_hash (digest env) (Send_block b)) = None"
    and apart: "hash_apart n (block_hash (digest env) (Send_block b))"
    and pos: "send_balance (hashables b) \<le> info_balance i"
    and fr: "vfrontiers v (head i) \<noteq> None"
  shows "view_prov n (send_view env v a i b)"
proof -
  note chain = ledger_invD(1) [OF inv]
  have h0: "block_hash (digest env) (Send_block b) \<noteq> 0" using apart by (simp add: hash_apart_def)
  show ?thesis
    unfolding send_view_def Let_def
    by (rule extend_prov [OF chain extends_send [OF chain a p fresh h0 fr refl] prov apart refl refl])
      (use a pos p head_nonzero [OF chain a] in
        \<open>simp_all add: pending_after_simps old_balance_def\<close>)
qed

lemma change_view_prov:
  assumes inv: "ledger_inv (digest env) v" and prov: "view_prov n v" and a: "vaccounts v a = Some i"
    and p: "head i = change_previous (hashables b)"
    and fresh: "vblocks v (block_hash (digest env) (Change_block b)) = None"
    and apart: "hash_apart n (block_hash (digest env) (Change_block b))"
    and fr: "vfrontiers v (head i) \<noteq> None"
  shows "view_prov n (change_view env v a i b)"
proof -
  note chain = ledger_invD(1) [OF inv]
  have h0: "block_hash (digest env) (Change_block b) \<noteq> 0" using apart by (simp add: hash_apart_def)
  show ?thesis
    unfolding change_view_def Let_def
    by (rule extend_prov [OF chain extends_change [OF chain a p fresh h0 fr refl] prov apart refl refl])
      (use a in \<open>simp_all add: pending_after_simps old_balance_def\<close>)
qed

lemma receive_view_prov:
  assumes inv: "ledger_inv (digest env) v" and prov: "view_prov n v" and a: "vaccounts v a = Some i"
    and p: "head i = receive_previous (hashables b)"
    and fresh: "vblocks v (block_hash (digest env) (Receive_block b)) = None"
    and apart: "hash_apart n (block_hash (digest env) (Receive_block b))"
    and fr: "vfrontiers v (head i) \<noteq> None"
    and pend: "vpending v (Pending_key a (receive_source (hashables b))) = Some q" "pending_epoch q = Epoch_0"
  shows "view_prov n (receive_view env v a i q b)"
proof -
  note chain = ledger_invD(1) [OF inv]
  have h0: "block_hash (digest env) (Receive_block b) \<noteq> 0" using apart by (simp add: hash_apart_def)
  have "unat (info_balance i + pending_amount q) = unat (info_balance i) + unat (pending_amount q)"
    using supply_bound [OF ledger_invD(2) [OF inv] a pend(1)] by (intro unat_plus) simp
  then have "info_balance i \<le> info_balance i + pending_amount q" by (simp add: word_le_nat_alt)
  then show ?thesis
    unfolding receive_view_def Let_def
    by (intro extend_prov [OF chain extends_receive [OF chain a p fresh h0 fr refl] prov apart refl refl])
      (use a pend in \<open>auto simp: pending_after_simps old_balance_def\<close>)
qed

lemma open_view_prov:
  assumes inv: "ledger_inv (digest env) v" and prov: "view_prov n v"
    and a: "vaccounts v (open_account (hashables b)) = None" and a0: "open_account (hashables b) \<noteq> 0"
    and fresh: "vblocks v (block_hash (digest env) (Open_block b)) = None"
    and apart: "hash_apart n (block_hash (digest env) (Open_block b))"
    and pend: "vpending v (Pending_key (open_account (hashables b)) (open_source (hashables b))) = Some q"
      "pending_epoch q = Epoch_0"
  shows "view_prov n (open_view env v q b)"
proof -
  note chain = ledger_invD(1) [OF inv]
  have h0: "block_hash (digest env) (Open_block b) \<noteq> 0" using apart by (simp add: hash_apart_def)
  show ?thesis
    unfolding open_view_def Let_def
    by (rule extend_prov [OF chain extends_open [OF a0 a fresh h0] prov apart refl refl])
      (use a pend in \<open>auto simp: pending_after_simps old_balance_def\<close>)
qed

text \<open>State blocks: the three kinds differ in what they send or receive only.\<close>

lemma state_extends:
  assumes "ledger_inv (digest env) v" "state_account (hashables b) \<noteq> 0" "e \<in> {Epoch_0, Epoch_1}"
    and "head (info_or_init (vaccounts v (state_account (hashables b)))) = state_previous (hashables b)"
    and "vblocks v (block_hash (digest env) (State_block b)) = None"
    and "hash_apart n (block_hash (digest env) (State_block b))"
  shows "extends_chain (digest env) v (state_account (hashables b)) (block_hash (digest env) (State_block b))
    (State_block b) (sideband_for env Bt_state (state_account (hashables b)) 0
      (block_count (info_or_init (vaccounts v (state_account (hashables b)))) + 1)) e
    (info_next (vaccounts v (state_account (hashables b))) t (block_hash (digest env) (State_block b))
      (block_hash (digest env) (State_block b)) (state_balance (hashables b))
      (block_count (info_or_init (vaccounts v (state_account (hashables b)))) + 1) e)"
  using assms by (intro extends_state) (auto simp: ledger_invD hash_apart_def)

lemma state_send_prov:
  assumes inv: "ledger_inv (digest env) v" and prov: "view_prov n v"
    and i: "vaccounts v (state_account (hashables b)) = Some i" and p: "head i = state_previous (hashables b)"
    and fresh: "vblocks v (block_hash (digest env) (State_block b)) = None"
    and apart: "hash_apart n (block_hash (digest env) (State_block b))"
    and neg: "state_balance (hashables b) < info_balance i"
  shows "view_prov n (state_view env v
    ((vpending v)(Pending_key (state_link (hashables b)) (block_hash (digest env) (State_block b)) \<mapsto> q))
    (info_epoch i) b)"
proof -
  note chain = ledger_invD(1) [OF inv]
  have ext: "head (info_or_init (vaccounts v (state_account (hashables b)))) = state_previous (hashables b)"
    using i p by simp
  show ?thesis
    unfolding state_view_def Let_def
    by (rule extend_prov [OF chain state_extends [OF inv no_account_zero [OF chain i] epochs [OF chain i]
          ext fresh apart] prov apart refl refl])
      (use i neg p head_nonzero [OF chain i] in
        \<open>simp_all add: pending_after_simps old_balance_def less_imp_le\<close>)
qed

lemma state_receive_prov:
  assumes inv: "ledger_inv (digest env) v" and prov: "view_prov n v" and a0: "state_account (hashables b) \<noteq> 0"
    and info: "info = info_or_init (vaccounts v (state_account (hashables b)))"
    and p: "head info = state_previous (hashables b)"
    and fresh: "vblocks v (block_hash (digest env) (State_block b)) = None"
    and apart: "hash_apart n (block_hash (digest env) (State_block b))"
    and link: "state_link (hashables b) \<noteq> 0"
    and pend: "vpending v (Pending_key (state_account (hashables b)) (state_link (hashables b))) = Some q"
    and pos: "info_balance info \<le> state_balance (hashables b)"
    and amount: "pending_amount q = state_balance (hashables b) - info_balance info"
  shows "view_prov n (state_view env v
    ((vpending v)(Pending_key (state_account (hashables b)) (state_link (hashables b)) := None))
    (max (info_epoch info) (pending_epoch q)) b)"
proof -
  note chain = ledger_invD(1) [OF inv]
  have e: "max (info_epoch info) (pending_epoch q) \<in> {Epoch_0, Epoch_1}"
    using info_or_init_epoch [OF chain] pending_epochs [OF chain pend] info by (auto simp: max_def)
  have el: "state_link (hashables b) \<noteq> net_epoch_link n"
    using prov_stored_apart [OF prov] pending_provenance(3) [OF chain pend] by (auto simp: hash_apart_def)
  have bal: "info_balance info = old_balance v (state_account (hashables b))"
    by (simp add: info info_or_init_balance)
  show ?thesis
    unfolding state_view_def Let_def
    by (rule extend_prov [OF chain state_extends [OF inv a0 e p [unfolded info] fresh apart] prov apart refl refl])
      (use pend pos amount link el bal in \<open>auto simp: pending_after_simps legacy_def not_less [symmetric]\<close>)
qed

lemma state_change_prov:
  assumes inv: "ledger_inv (digest env) v" and prov: "view_prov n v"
    and i: "vaccounts v (state_account (hashables b)) = Some i" and p: "head i = state_previous (hashables b)"
    and fresh: "vblocks v (block_hash (digest env) (State_block b)) = None"
    and apart: "hash_apart n (block_hash (digest env) (State_block b))"
    and bal: "state_balance (hashables b) = info_balance i" "state_link (hashables b) = 0"
  shows "view_prov n (state_view env v (vpending v) (info_epoch i) b)"
proof -
  note chain = ledger_invD(1) [OF inv]
  have ext: "head (info_or_init (vaccounts v (state_account (hashables b)))) = state_previous (hashables b)"
    using i p by simp
  show ?thesis
    unfolding state_view_def Let_def
    by (rule extend_prov [OF chain state_extends [OF inv no_account_zero [OF chain i] epochs [OF chain i]
          ext fresh apart] prov apart refl refl])
      (use i bal in \<open>simp_all add: pending_after_simps old_balance_def\<close>)
qed

lemma epoch_view_prov:
  assumes inv: "ledger_inv (digest env) v" and prov: "view_prov n v" and a0: "state_account (hashables b) \<noteq> 0"
    and info: "info = info_or_init (vaccounts v (state_account (hashables b)))"
    and p: "head info = state_previous (hashables b)"
    and fresh: "vblocks v (block_hash (digest env) (State_block b)) = None"
    and apart: "hash_apart n (block_hash (digest env) (State_block b))"
    and bal: "state_balance (hashables b) = info_balance info"
    and link: "state_link (hashables b) = net_epoch_link n"
  shows "view_prov n (epoch_view env v b)"
proof -
  note chain = ledger_invD(1) [OF inv]
  have old: "info_balance info = old_balance v (state_account (hashables b))"
    by (simp add: info info_or_init_balance)
  show ?thesis
    unfolding epoch_view_def Let_def
    by (rule extend_prov [OF chain state_extends [OF inv a0 _ p [unfolded info] fresh apart] prov apart refl refl])
      (use bal link old in \<open>simp_all add: pending_after_simps\<close>)
qed

theorem accepts_prov:
  assumes "accepts env l v b v'" and inv: "ledger_inv (digest env) v" and prov: "view_prov n v"
    and fresh: "vblocks v (block_hash (digest env) b) = None"
    and apart: "hash_apart n (block_hash (digest env) b)" and link: "net_epoch_link n = epoch_link l"
  shows "view_prov n v'"
  using assms(1) fresh apart
proof cases
  case (accept_send sb a i)
  then show ?thesis
    using send_view_prov [OF inv prov, of a i sb] frontier_account [OF ledger_invD(1) [OF inv], of _ a]
      fresh apart by (metis option.inject option.discI)
next
  case (accept_change sb a i)
  then show ?thesis
    using change_view_prov [OF inv prov, of a i sb] frontier_account [OF ledger_invD(1) [OF inv], of _ a]
      fresh apart by (metis option.inject option.discI)
next
  case (accept_receive sb a i p)
  then show ?thesis
    using receive_view_prov [OF inv prov, of a i sb] frontier_account [OF ledger_invD(1) [OF inv], of _ a]
      fresh apart by (metis option.inject option.discI)
next
  case (accept_open sb p)
  then show ?thesis using open_view_prov [OF inv prov] fresh apart by (simp add: burn_account_def)
next
  case (accept_state_send sb i)
  then show ?thesis using state_send_prov [OF inv prov] fresh apart by simp
next
  case (accept_state_receive sb info p)
  then show ?thesis using state_receive_prov [OF inv prov] fresh apart by simp
next
  case (accept_state_change sb i)
  then show ?thesis using state_change_prov [OF inv prov] fresh apart by simp
next
  case (accept_epoch sb info)
  then show ?thesis using epoch_view_prov [OF inv prov] fresh apart link by simp
qed

end
