(* ===== verification/Retract.thy ===== *)
theory Retract
  imports Processor_Prov
begin

text \<open>
  Taking the last block off a chain keeps the invariants of the ledger: the inverse of
  \<open>vextend\<close>, with what a rollback writes back into the account, the frontiers and the
  pending table.
\<close>

section \<open>Walking up a chain\<close>

lemma ranked_previous:
  assumes "ranked g (core v) rank" "vblocks v h = Some (b, sb)" "previous b \<noteq> 0"
  shows "rank (previous b) < rank h"
  using assms unfolding ranked_def by (auto simp: prev_at_def core_def dest!: spec [of _ h])

lemma chain_up:
  assumes chain: "chain_inv H v" and rank: "ranked g (core v) rank" and fin: "finite (dom (vblocks v))"
    and acc: "vaccounts v a = Some i" and top: "P (head i)"
    and step: "\<And>w b sb. vblocks v w = Some (b, sb) \<Longrightarrow> successor sb \<noteq> 0 \<Longrightarrow> rank w < rank (successor sb) \<Longrightarrow>
      P (successor sb) \<Longrightarrow> P w"
    and w: "vblocks v w = Some (b, sb)" "entry_account (b, sb) = a"
  shows "P w"
  using w
proof (induction "card {z \<in> dom (vblocks v). rank w < rank z}" arbitrary: w b sb rule: less_induct)
  case less
  have inv: "block_inv H v w b sb" by (rule chain_inv_block [OF chain less.prems(1)])
  show ?case
  proof (cases "successor sb = 0")
    case True
    then show ?thesis using inv acc less.prems(2) top by (auto simp: block_inv_def)
  next
    case False
    then obtain b' sb' where n: "vblocks v (successor sb) = Some (b', sb')" "previous b' = w"
      using inv by (auto simp: block_inv_def)
    have w0: "w \<noteq> 0" using inv by (simp add: block_inv_def)
    have "entry_account (b', sb') = a"
      using chain_inv_block [OF chain n(1)] n(2) w0 less.prems by (auto simp: block_inv_def)
    moreover have up: "rank w < rank (successor sb)"
      using ranked_previous [OF rank n(1)] n(2) w0 by simp
    moreover have "card {z \<in> dom (vblocks v). rank (successor sb) < rank z} <
        card {z \<in> dom (vblocks v). rank w < rank z}"
      using fin n(1) up by (intro psubset_card_mono psubsetI) auto
    ultimately have "P (successor sb)" using less.hyps n(1) by blast
    then show ?thesis using step less.prems(1) False up by blast
  qed
qed

lemma rank_head:
  assumes "chain_inv H v" "ranked g (core v) rank" "finite (dom (vblocks v))" "vaccounts v a = Some i"
    and "vblocks v w = Some (b, sb)" "entry_account (b, sb) = a"
  shows "rank w \<le> rank (head i)"
  by (rule chain_up [OF assms(1-4) _ _ assms(5,6)]) auto

section \<open>The last block of a chain\<close>

definition last_block :: "view \<Rightarrow> uint256 \<Rightarrow> uint256 \<Rightarrow> block \<Rightarrow> block_sideband \<Rightarrow> account_info \<Rightarrow> bool" where
  "last_block v a h b sb i \<longleftrightarrow> vaccounts v a = Some i \<and> head i = h \<and> vblocks v h = Some (b, sb)"

lemma last_block_facts:
  assumes chain: "chain_inv H v" and last: "last_block v a h b sb i"
  shows "vaccounts v a = Some i" "head i = h" "vblocks v h = Some (b, sb)" "entry_account (b, sb) = a"
    "successor sb = 0" "entry_balance (b, sb) = info_balance i" "height sb = block_count i"
    "vversion v h = info_epoch i" "rep_at (vblocks v) h (rep_block i)" "block_hash H b = h" "h \<noteq> 0" "a \<noteq> 0"
proof -
  note l = last [unfolded last_block_def]
  show "vaccounts v a = Some i" "head i = h" "vblocks v h = Some (b, sb)" using l by auto
  then show "entry_account (b, sb) = a" "successor sb = 0" "entry_balance (b, sb) = info_balance i"
    "height sb = block_count i" "vversion v h = info_epoch i" "rep_at (vblocks v) h (rep_block i)"
    using chain_inv_account [OF chain, of a i] by (auto simp: account_inv_def)
  show "block_hash H b = h" "h \<noteq> 0" using chain_inv_block [OF chain, of h b sb] l by (auto simp: block_inv_def)
  show "a \<noteq> 0" using no_account_zero [OF chain] l by blast
qed

lemma last_unreferenced:
  assumes "chain_inv H v" "last_block v a h b sb i" "vblocks v x = Some (b', sb')"
  shows "previous b' \<noteq> h"
proof
  assume p: "previous b' = h"
  have "block_inv H v x b' sb'" by (rule chain_inv_block [OF assms(1,3)])
  with p last_block_facts [OF assms(1,2)] show False by (auto simp: block_inv_def)
qed

lemma last_previous:
  assumes "chain_inv H v" "last_block v a h b sb i" "previous b \<noteq> 0"
  obtains b' sb' where "vblocks v (previous b) = Some (b', sb')" "successor sb' = h"
    "entry_account (b', sb') = a" "height sb' = block_count i - 1" "legacy b \<Longrightarrow> legacy b'" "previous b \<noteq> h"
proof -
  note f = last_block_facts [OF assms(1,2)]
  obtain b' sb' where p: "vblocks v (previous b) = Some (b', sb')" "successor sb' = h"
    "entry_account (b', sb') = entry_account (b, sb)" "height sb = height sb' + 1" "legacy b \<Longrightarrow> legacy b'"
    using chain_inv_block [OF assms(1) f(3)] assms(3) unfolding block_inv_def by blast
  moreover have "previous b \<noteq> h" using last_unreferenced [OF assms(1,2) f(3)] .
  ultimately show ?thesis using that f(4,7) by simp
qed

text \<open>A first block that is also the last one is the only block of its account.\<close>

lemma last_only:
  assumes "chain_inv H v" "ranked g (core v) rank" "finite (dom (vblocks v))"
    and last: "last_block v a h b sb i" and "previous b = 0"
    and "vblocks v x = Some (b', sb')" "entry_account (b', sb') = a"
  shows "x = h"
proof (rule chain_up [OF assms(1-3) last_block_facts(1) [OF assms(1) last] _ _ assms(6,7)])
  show "head i = h" by (rule last_block_facts(2) [OF assms(1) last])
  show "w = h" if "vblocks v w = Some (b1, sb1)" "successor sb1 \<noteq> 0" "successor sb1 = h" for w b1 sb1
    using chain_inv_block [OF assms(1) that(1)] that(2,3) last_block_facts(3) [OF assms(1) last] assms(5)
    by (auto simp: block_inv_def)
qed

section \<open>Removing it\<close>

definition retracted_info :: "view \<Rightarrow> uint64 \<Rightarrow> account_info \<Rightarrow> uint256 \<Rightarrow> block \<Rightarrow> account_info option" where
  "retracted_info v t i rep b =
     (if previous b = 0 then None
      else Some (info_next (Some i) t (previous b) rep (bal_at (core v) (previous b)) (block_count i - 1)
        (vversion v (previous b))))"

definition vretract ::
  "view \<Rightarrow> uint256 \<Rightarrow> uint256 \<Rightarrow> block \<Rightarrow> account_info option \<Rightarrow> (pending_key \<rightharpoonup> pending_info) \<Rightarrow>
    (uint256 \<Rightarrow> uint128) \<Rightarrow> view" where
  "vretract v a h b j pend wt =
     v\<lparr>vblocks := (entry_link (vblocks v) (previous b) 0)(h := None), vversion := (vversion v)(h := Epoch_0),
       vaccounts := (vaccounts v)(a := j), vpending := pend, vweight := wt,
       vfrontiers := (vfrontiers v)(h := None, previous b :=
         (if legacy_at (core v) (previous b) then Some a else None))\<rparr>"

lemma vretract_simps [simp]:
  "vversion (vretract v a h b j pend wt) = (vversion v)(h := Epoch_0)"
  "vaccounts (vretract v a h b j pend wt) = (vaccounts v)(a := j)"
  "vpending (vretract v a h b j pend wt) = pend"
  "vweight (vretract v a h b j pend wt) = wt"
  by (simp_all add: vretract_def)

lemma vretract_blocks:
  "vblocks (vretract v a h b j pend wt) x =
    (if x = h then None
     else if x = previous b then map_option (\<lambda>(b', sb'). (b', sb'\<lparr>successor := 0\<rparr>)) (vblocks v x)
     else vblocks v x)"
  by (cases "vblocks v (previous b)") (auto simp: vretract_def entry_link_def)

lemma vretract_old:
  "vblocks v x = Some (b', sb') \<Longrightarrow> x \<noteq> h \<Longrightarrow> vblocks (vretract v a h b j pend wt) x =
    Some (b', if x = previous b then sb'\<lparr>successor := 0\<rparr> else sb')"
  by (auto simp: vretract_blocks)

lemma vretract_cases:
  assumes "vblocks (vretract v a h b j pend wt) x = Some (b', sb')"
  obtains sb0 where "x \<noteq> h" "vblocks v x = Some (b', sb0)"
    "sb' = (if x = previous b then sb0\<lparr>successor := 0\<rparr> else sb0)"
  using assms by (auto simp: vretract_blocks split: if_splits)

lemma core_vretract: "core (vretract v a h b j pend wt) = (core v)(h := None)"
proof
  fix x
  show "core (vretract v a h b j pend wt) x = ((core v)(h := None)) x"
    by (cases "vblocks v x") (auto simp: core_def vretract_blocks)
qed

lemma vretract_rep_at:
  assumes "rep_at (vblocks v) x r" "x \<noteq> h"
    and "\<And>x b' sb'. vblocks v x = Some (b', sb') \<Longrightarrow> previous b' \<noteq> h"
  shows "rep_at (vblocks (vretract v a h b j pend wt)) x r"
  using assms(1,2)
proof induction
  case (rep_here x b' sb')
  then show ?case using vretract_old rep_at.rep_here by blast
next
  case (rep_back x b' sb' r)
  then show ?case using vretract_old rep_at.rep_back assms(3) by metis
qed

lemma vretract_block_inv:
  assumes chain: "chain_inv H v" and rank: "ranked g (core v) rank" and fin: "finite (dom (vblocks v))"
    and last: "last_block v a h b sb i" and x: "vblocks v x = Some (b', sb')" "x \<noteq> h"
  shows "block_inv H (vretract v a h b (retracted_info v t i rep b) pend wt) x b'
    (if x = previous b then sb'\<lparr>successor := 0\<rparr> else sb')"
proof -
  note f = last_block_facts [OF chain last]
  note unref = last_unreferenced [OF chain last]
  have inv: "block_inv H v x b' sb'" by (rule chain_inv_block [OF chain x(1)])
  have rep: "\<exists>r. rep_at (vblocks (vretract v a h b (retracted_info v t i rep b) pend wt)) x r"
    using inv vretract_rep_at [of v x _ h] x(2) unref unfolding block_inv_def by blast
  have P: "\<exists>b2 sb2. vblocks (vretract v a h b (retracted_info v t i rep b) pend wt) (previous b') = Some (b2, sb2) \<and>
      successor sb2 = x \<and> entry_account (b2, sb2) = entry_account (b', sb') \<and>
      height sb' = height sb2 + 1 \<and> (legacy b' \<longrightarrow> legacy b2)" if nz: "previous b' \<noteq> 0"
  proof -
    obtain b2 sb2 where p: "vblocks v (previous b') = Some (b2, sb2)" "successor sb2 = x"
      "entry_account (b2, sb2) = entry_account (b', sb')" "height sb' = height sb2 + 1" "legacy b' \<longrightarrow> legacy b2"
      using inv nz unfolding block_inv_def by blast
    have "previous b' \<noteq> previous b"
    proof
      assume eq: "previous b' = previous b"
      with nz obtain b3 sb3 where "vblocks v (previous b) = Some (b3, sb3)" "successor sb3 = h"
        using last_previous [OF chain last] by metis
      with p(1,2) eq x(2) show False by simp
    qed
    with p unref [OF x(1)] show ?thesis by (simp add: vretract_old)
  qed
  have S: "\<exists>b2 sb2. vblocks (vretract v a h b (retracted_info v t i rep b) pend wt) (successor sb') =
      Some (b2, sb2) \<and> previous b2 = x" if "successor sb' \<noteq> 0" "x \<noteq> previous b"
  proof -
    obtain b2 sb2 where n: "vblocks v (successor sb') = Some (b2, sb2)" "previous b2 = x"
      using inv \<open>successor sb' \<noteq> 0\<close> unfolding block_inv_def by blast
    moreover have "successor sb' \<noteq> h" using n f(3) that(2) by auto
    ultimately show ?thesis by (simp add: vretract_old)
  qed
  have A: "\<exists>j. vaccounts (vretract v a h b (retracted_info v t i rep b) pend wt) (entry_account (b', sb')) = Some j \<and>
      (x = previous b \<or> successor sb' = 0 \<longrightarrow> head j = x) \<and> (previous b' = 0 \<longrightarrow> open_block j = x)"
  proof (cases "entry_account (b', sb') = a")
    case True
    then have "previous b \<noteq> 0" using last_only [OF chain rank fin last _ x(1)] x(2) by blast
    moreover have "successor sb' \<noteq> 0" "previous b' = 0 \<longrightarrow> open_block i = x"
      using inv True f(1,2) x(2) by (auto simp: block_inv_def)
    ultimately show ?thesis using True by (simp add: retracted_info_def)
  next
    case False
    have "x \<noteq> 0" using inv by (simp add: block_inv_def)
    then have "x \<noteq> previous b" using last_previous [OF chain last] x(1) False by (metis option.inject)
    then show ?thesis using inv False by (auto simp: block_inv_def)
  qed
  let ?sb = "if x = previous b then sb'\<lparr>successor := 0\<rparr> else sb'"
  have eq: "entry_account (b', ?sb) = entry_account (b', sb')" "height ?sb = height sb'"
    "sb_type ?sb = sb_type sb'" "successor ?sb = (if x = previous b then 0 else successor sb')"
    by simp_all
  show ?thesis
    unfolding block_inv_def eq
  proof (intro conjI impI, goal_cases)
    case 7
    then show ?case by (rule P)
  next
    case 8
    then show ?case using S by (simp split: if_splits)
  next
    case 9
    then show ?case using A by auto
  next
    case 10
    then show ?case by (rule rep)
  qed (use inv x(2) in \<open>simp_all add: block_inv_def\<close>)
qed

lemma vretract_account_inv:
  assumes chain: "chain_inv H v" and last: "last_block v a h b sb i"
    and rep: "previous b \<noteq> 0 \<Longrightarrow> rep_at (vblocks v) (previous b) rep"
    and c: "vaccounts (vretract v a h b (retracted_info v t i rep b) pend wt) c = Some j"
  shows "account_inv (vretract v a h b (retracted_info v t i rep b) pend wt) c j"
proof (cases "c = a")
  case True
  note f = last_block_facts [OF chain last]
  from True c have nz: "previous b \<noteq> 0" and j: "j = info_next (Some i) t (previous b) rep
      (bal_at (core v) (previous b)) (block_count i - 1) (vversion v (previous b))"
    by (auto simp: retracted_info_def split: if_splits)
  obtain b' sb' where p: "vblocks v (previous b) = Some (b', sb')" "entry_account (b', sb') = a"
    "height sb' = block_count i - 1" "previous b \<noteq> h"
    using last_previous [OF chain last nz] by metis
  obtain b0 sb0 where o: "vblocks v (open_block i) = Some (b0, sb0)" "entry_account (b0, sb0) = a" "previous b0 = 0"
    using chain_inv_account [OF chain f(1)] unfolding account_inv_def by blast
  have "open_block i \<noteq> h" using o f(3) nz by auto
  then show ?thesis
    unfolding account_inv_def True j
    using vretract_rep_at [OF rep [OF nz] p(4) last_unreferenced [OF chain last]]
      vretract_old [OF p(1,4), of a b "retracted_info v t i rep b" pend wt]
      vretract_old [OF o(1), of h a b "retracted_info v t i rep b" pend wt] p o(2,3)
    by (simp add: bal_at_def core_def)
next
  case False
  note f = last_block_facts [OF chain last]
  have j: "account_inv v c j" using c False chain_inv_account [OF chain] by simp
  then obtain b1 sb1 b2 sb2 where head: "vblocks v (head j) = Some (b1, sb1)" "entry_account (b1, sb1) = c"
    and open_: "vblocks v (open_block j) = Some (b2, sb2)" "entry_account (b2, sb2) = c"
    and rest: "successor sb1 = 0" "entry_balance (b1, sb1) = info_balance j" "height sb1 = block_count j"
      "vversion v (head j) = info_epoch j" "previous b2 = 0" "rep_at (vblocks v) (head j) (rep_block j)"
    unfolding account_inv_def by blast
  have ne: "head j \<noteq> h" "open_block j \<noteq> h" using head open_ f(3,4) False by auto
  show ?thesis
    unfolding account_inv_def
    using vretract_rep_at [OF rest(6) ne(1) last_unreferenced [OF chain last]]
      vretract_old [OF head(1) ne(1), of a b "retracted_info v t i rep b" pend wt]
      vretract_old [OF open_(1) ne(2), of a b "retracted_info v t i rep b" pend wt] head open_ rest ne
    by auto
qed

lemma vretract_pending_inv:
  assumes chain: "chain_inv H v" and last: "last_block v a h b sb i"
    and k: "pending_inv v k p" "key_hash k \<noteq> h"
  shows "pending_inv (vretract v a h b j pend wt) k p"
proof -
  obtain b' sb' e' where s: "vblocks v (key_hash k) = Some (b', sb')" "sends_to b' (key_account k)"
    "pending_source p = entry_account (b', sb')" "pending_epoch p = vversion v (key_hash k)"
    "vblocks v (previous b') = Some e'" "entry_balance (b', sb') \<le> entry_balance e'"
    "pending_amount p = entry_balance e' - entry_balance (b', sb')"
    using k(1) unfolding pending_inv_def by blast
  have "previous b' \<noteq> h" by (rule last_unreferenced [OF chain last s(1)])
  with s k(2) show ?thesis
    unfolding pending_inv_def
    by (cases e') (auto simp: vretract_old [OF s(1) k(2)] vretract_old)
qed

lemma vretract_frontier_inv:
  assumes chain: "chain_inv H v" and last: "last_block v a h b sb i"
  shows "frontier_inv (vretract v a h b (retracted_info v t i rep b) pend wt)"
  unfolding frontier_inv_def
proof (intro allI)
  fix x c
  note f = last_block_facts [OF chain last]
  let ?v = "vretract v a h b (retracted_info v t i rep b) pend wt"
  have old: "vfrontiers v x = Some c \<longleftrightarrow>
      (\<exists>i b sb. vaccounts v c = Some i \<and> head i = x \<and> vblocks v x = Some (b, sb) \<and> legacy b)"
    using chain_inv_frontier [OF chain] unfolding frontier_inv_def by blast
  show "vfrontiers ?v x = Some c \<longleftrightarrow>
      (\<exists>i b sb. vaccounts ?v c = Some i \<and> head i = x \<and> vblocks ?v x = Some (b, sb) \<and> legacy b)"
  proof (cases "x = previous b")
    case True
    show ?thesis
    proof (cases "previous b = 0")
      case zero: True
      then show ?thesis
        using True no_block_zero [OF chain]
        by (simp add: vretract_def entry_link_def legacy_at_def core_def)
    next
      case False
      then obtain b' sb' where p: "vblocks v (previous b) = Some (b', sb')" "entry_account (b', sb') = a"
        "previous b \<noteq> h"
        using last_previous [OF chain last] by metis
      have "vfrontiers ?v x = Some c \<longleftrightarrow> legacy b' \<and> c = a"
        using True p by (auto simp: vretract_def legacy_at_def core_def)
      moreover have "c = a" if "vaccounts v c = Some i'" "head i' = x" for i'
        using chain_inv_account [OF chain that(1)] that(2) True p by (auto simp: account_inv_def)
      ultimately show ?thesis
        using True False vretract_old [OF p(1,3), of a b "retracted_info v t i rep b" pend wt]
        by (auto simp: retracted_info_def)
    qed
  next
    case ne: False
    have "vfrontiers ?v x = (if x = h then None else vfrontiers v x)"
      using ne by (simp add: vretract_def)
    moreover have "(\<exists>j. vaccounts ?v a = Some j \<and> head j = x) = False"
      using ne by (auto simp: retracted_info_def split: if_splits)
    ultimately show ?thesis
      using old f(1,2) ne by (cases "c = a") (auto simp: vretract_blocks)
  qed
qed

lemma chain_inv_retract:
  assumes "chain_inv H v" "ranked g (core v) rank" "finite (dom (vblocks v))" "last_block v a h b sb i"
    and "previous b \<noteq> 0 \<Longrightarrow> rep_at (vblocks v) (previous b) rep"
    and "\<And>k p. pend k = Some p \<Longrightarrow> key_hash k \<noteq> h \<and> pending_inv v k p"
  shows "chain_inv H (vretract v a h b (retracted_info v t i rep b) pend wt)"
  unfolding chain_inv_def
proof (intro conjI allI impI, goal_cases)
  case (1 x b' sb')
  then show ?case
    using vretract_block_inv [OF assms(1-4)] by (elim vretract_cases) simp
next
  case (2 c j)
  then show ?case using assms(5) by (intro vretract_account_inv [OF assms(1,4)])
next
  case 3
  then show ?case by (rule vretract_frontier_inv [OF assms(1,4)])
next
  case (4 k p)
  then show ?case using assms(6) by (intro vretract_pending_inv [OF assms(1,4)]) auto
qed

section \<open>Supply and weights\<close>

lemma supply_inv_retract:
  assumes sup: "supply_inv v" and acc: "vaccounts v a = Some i" and zero: "vblocks v 0 = None"
    and "finite (dom pend)"
    and "unat (bal_at (core v) (previous b)) + table_sum (\<lambda>p. unat (pending_amount p)) pend =
      unat (info_balance i) + table_sum (\<lambda>p. unat (pending_amount p)) (vpending v)"
  shows "supply_inv (vretract v a h b (retracted_info v t i rep b) pend wt)"
proof (cases "previous b = 0")
  case True
  then have "bal_at (core v) (previous b) = 0" using zero by (simp add: bal_at_def core_def)
  moreover have fin: "finite (dom (vaccounts v))" using sup by (simp add: supply_inv_def)
  ultimately show ?thesis
    using assms True table_sum_delete [OF fin acc, of "\<lambda>i. unat (info_balance i)"]
    by (simp add: supply_inv_def total_supply_def retracted_info_def)
next
  case False
  have fin: "finite (dom (vaccounts v))" using sup by (simp add: supply_inv_def)
  show ?thesis
    using assms False table_sum_update [OF fin acc, of "\<lambda>i. unat (info_balance i)" "the (retracted_info v t i rep b)"]
    by (simp add: supply_inv_def total_supply_def retracted_info_def)
qed

text \<open>The weight an account gives to \<open>r\<close> through block \<open>rep\<close>, and what removing the block changes.\<close>

definition rep_share :: "(uint256 \<rightharpoonup> block_entry) \<Rightarrow> uint256 \<Rightarrow> uint128 \<Rightarrow> uint256 \<Rightarrow> uint128" where
  "rep_share m rep x r =
     (case m rep of Some (b, sb) \<Rightarrow> if representative b = r then x else 0 | None \<Rightarrow> 0)"

lemma rep_share_zero [simp]: "rep_share m rep 0 r = 0"
  by (auto simp: rep_share_def split: option.split)

lemma rep_of_share:
  assumes "m (rep_block i) \<noteq> None"
  shows "(if rep_of m i = r then info_balance i else 0) = rep_share m (rep_block i) (info_balance i) r"
  using assms by (auto simp: rep_of_def rep_share_def)

lemma rep_block_stored: "chain_inv H v \<Longrightarrow> vaccounts v c = Some j \<Longrightarrow> vblocks v (rep_block j) \<noteq> None"
  using rep_block_set [of H v c j] by blast

lemma rep_at_stored: "rep_at m h r \<Longrightarrow> m r \<noteq> None"
  using rep_at_sets [of m h r] by auto

lemma vretract_rep_of:
  assumes "vblocks (vretract v a h b j pend wt) (rep_block k) \<noteq> None"
  shows "rep_of (vblocks (vretract v a h b j pend wt)) k = rep_of (vblocks v) k"
  using assms by (auto simp: rep_of_def vretract_blocks split: if_splits option.splits)

lemma delegated_retract:
  assumes chain: "chain_inv H v" and fin: "finite (dom (vaccounts v))" and acc: "vaccounts v a = Some i"
    and chain': "chain_inv H (vretract v a h b (retracted_info v t i rep b) pend wt)"
  shows "delegated (vretract v a h b (retracted_info v t i rep b) pend wt) r =
    delegated v r - rep_share (vblocks v) (rep_block i) (info_balance i) r +
    (if previous b = 0 then 0 else rep_share (vblocks v) rep (bal_at (core v) (previous b)) r)"
proof -
  let ?v = "vretract v a h b (retracted_info v t i rep b) pend wt"
  let ?f = "\<lambda>i. if rep_of (vblocks ?v) i = r then info_balance i else 0"
  let ?g = "\<lambda>i. if rep_of (vblocks v) i = r then info_balance i else 0"
  have same: "?f j = ?g j" if "vaccounts ?v c = Some j" for c j
    using vretract_rep_of [OF rep_block_stored [OF chain' that]] by simp
  have "delegated ?v r = table_sum ?g (vaccounts ?v)"
    unfolding delegated_def using same by (intro table_sum_cong) blast
  moreover have "?g i = rep_share (vblocks v) (rep_block i) (info_balance i) r"
    by (rule rep_of_share [of "vblocks v", OF rep_block_stored [OF chain acc]])
  moreover have "?g (the (retracted_info v t i rep b)) =
      rep_share (vblocks v) rep (bal_at (core v) (previous b)) r" if "previous b \<noteq> 0"
  proof -
    have "vblocks ?v rep \<noteq> None"
      using rep_block_stored [OF chain', of a] that by (simp add: retracted_info_def)
    then have "vblocks v rep \<noteq> None" by (auto simp: vretract_blocks split: if_splits)
    then show ?thesis using that by (auto simp: retracted_info_def rep_of_def rep_share_def)
  qed
  ultimately show ?thesis
    using table_sum_delete [OF fin acc, of ?g]
      table_sum_update [OF fin acc, of ?g "the (retracted_info v t i rep b)"]
    by (cases "previous b = 0") (auto simp: delegated_def retracted_info_def algebra_simps)
qed

section \<open>The invariant of a rollback\<close>

text \<open>
  While a rollback runs, the weights of representatives may be off by what an outer step has
  already written (\<open>off\<close>); the order \<open>rank\<close> of the blocks stays fixed.
\<close>

definition rb_inv ::
  "(byte list \<Rightarrow> uint256) \<Rightarrow> network \<Rightarrow> (uint256 \<Rightarrow> nat) \<Rightarrow> (uint256 \<Rightarrow> uint128) \<Rightarrow> view \<Rightarrow> bool" where
  "rb_inv H n rank off v \<longleftrightarrow> chain_inv H v \<and> supply_inv v \<and> (\<forall>r. vweight v r = delegated v r + off r) \<and>
     prov_inv n (core v) (vversion v) (vpending v) rank"

lemma rb_invD:
  assumes "rb_inv H n rank off v"
  shows "chain_inv H v" "supply_inv v" "\<And>r. vweight v r = delegated v r + off r"
    "prov_inv n (core v) (vversion v) (vpending v) rank" "ranked (net_genesis n) (core v) rank"
    "finite (dom (vblocks v))" "finite (dom (vaccounts v))" "finite (dom (vpending v))"
proof -
  show "chain_inv H v" "supply_inv v" "\<And>r. vweight v r = delegated v r + off r"
    and prov: "prov_inv n (core v) (vversion v) (vpending v) rank"
    using assms by (simp_all add: rb_inv_def)
  then show "ranked (net_genesis n) (core v) rank" "finite (dom (vaccounts v))" "finite (dom (vpending v))"
    using prov_invD(7) by (auto simp: supply_inv_def)
  have "dom (core v) = dom (vblocks v)" by (auto simp: core_def dom_def)
  then show "finite (dom (vblocks v))" using prov_invD(1) [OF prov] by simp
qed

lemma sent_facts:
  assumes "chain_inv H v" "sends_down (core v)" "sent (core v) s = Some d"
  obtains b sb e where "vblocks v s = Some (b, sb)" "sends_to b d" "vblocks v (previous b) = Some e"
    "entry_balance (b, sb) \<le> entry_balance e" "bal_at (core v) s = entry_balance (b, sb)"
    "bal_at (core v) (prev_at (core v) s) = entry_balance e" "account_at (core v) s = entry_account (b, sb)"
    "prev_at (core v) s = previous b"
proof -
  obtain b sb where b: "vblocks v s = Some (b, sb)"
    using assms(3) sent_stored [of "core v" s] by (metis core_None not_None_eq surj_pair option.distinct(1))
  then have p: "prev_at (core v) s = previous b" by (simp add: prev_at_def core_def)
  then obtain e where "vblocks v (previous b) = Some e" and "bal_at (core v) s \<le> bal_at (core v) (previous b)"
    using assms(2,3) unfolding sends_down_def by (metis core_None not_None_eq)
  moreover have "sends_to b d" using assms(3) b by (cases b) (auto simp: sent_def core_def split: if_splits)
  ultimately show ?thesis using that b p by (simp add: bal_at_def core_def account_at_def)
qed

lemma receipt_pending_inv:
  assumes "chain_inv H v" "sends_down (core v)" "receipt (core v) (vversion v) rank h s"
    and "p = \<lparr>pending_source = account_at (core v) s,
      pending_amount = bal_at (core v) h - bal_at (core v) (prev_at (core v) h), pending_epoch = vversion v s\<rparr>"
  shows "pending_inv v (Pending_key (account_at (core v) h) s) p"
proof -
  have r: "sent (core v) s = Some (account_at (core v) h)"
    "bal_at (core v) h - bal_at (core v) (prev_at (core v) h) =
      bal_at (core v) (prev_at (core v) s) - bal_at (core v) s"
    using assms(3) by (simp_all add: receipt_def)
  show ?thesis
    using sent_facts [OF assms(1,2) r(1)] r(2) assms(4) unfolding pending_inv_def by fastforce
qed

lemma pending_before_sum:
  assumes fin: "finite (dom pend)" and excl: "S = None \<or> R = None"
    and S: "\<And>d. S = Some d \<Longrightarrow> \<exists>q. pend (Pending_key d h) = Some q \<and> pending_amount q = x' - x \<and> x \<le> x'"
    and R: "\<And>s. R = Some s \<Longrightarrow> pend (Pending_key a s) = None \<and> pending_amount p = x - x' \<and> x' \<le> x"
    and none: "S = None \<Longrightarrow> R = None \<Longrightarrow> x = x'"
  shows "finite (dom (pending_before h a S R p pend))"
    "unat x' + table_sum (\<lambda>p. unat (pending_amount p)) (pending_before h a S R p pend) =
      unat x + table_sum (\<lambda>p. unat (pending_amount p)) pend"
proof -
  have before: "pending_before h a S R p pend =
      (case S of Some d \<Rightarrow> pend(Pending_key d h := None)
       | None \<Rightarrow> (case R of Some s \<Rightarrow> pend(Pending_key a s \<mapsto> p) | None \<Rightarrow> pend))"
    using excl by (auto simp: pending_before_def fun_eq_iff split: option.split)
  show "finite (dom (pending_before h a S R p pend))" using fin by (simp add: before split: option.split)
  show "unat x' + table_sum (\<lambda>p. unat (pending_amount p)) (pending_before h a S R p pend) =
      unat x + table_sum (\<lambda>p. unat (pending_amount p)) pend"
  proof (cases S)
    case (Some d)
    then obtain q where q: "pend (Pending_key d h) = Some q" "pending_amount q = x' - x" "x \<le> x'" using S by blast
    then show ?thesis
      unfolding before using Some table_sum_delete [OF fin q(1), of "\<lambda>p. unat (pending_amount p)"] unat_minus [OF q(3)]
        q(3) [unfolded word_le_nat_alt] by simp
  next
    case N: None
    show ?thesis
    proof (cases R)
      case None
      then show ?thesis unfolding before using N none by simp
    next
      case (Some s)
      with R have r: "pend (Pending_key a s) = None" "pending_amount p = x - x'" "x' \<le> x" by blast+
      then show ?thesis
        unfolding before using Some N table_sum_insert [OF fin r(1), of "\<lambda>p. unat (pending_amount p)" p] unat_minus [OF r(3)]
          r(3) [unfolded word_le_nat_alt] by simp
    qed
  qed
qed

lemma last_core:
  assumes "chain_inv H v" "last_block v a h b sb i"
  shows "core v h = Some (b, a, info_balance i)" "bal_at (core v) h = info_balance i"
    "prev_at (core v) h = previous b" "account_at (core v) h = a" "legacy_at (core v) h = legacy b"
  using last_block_facts [OF assms]
  by (simp_all add: core_def bal_at_def prev_at_def account_at_def legacy_at_def)

lemma retract_linked:
  assumes "chain_inv H v" "last_block v a h b sb i" "linked (core v)"
  shows "linked ((core v)(h := None))"
  unfolding linked_def
proof (intro conjI allI impI)
  show "((core v)(h := None)) 0 = None" using assms(3) by (simp add: linked_def)
  fix x b' a' y
  assume x: "((core v)(h := None)) x = Some (b', a', y)" "previous b' \<noteq> 0"
  then have "core v x = Some (b', a', y)" by (simp split: if_splits)
  moreover from this have "previous b' \<noteq> h"
    using last_unreferenced [OF assms(1,2), of x b'] by (auto simp: core_def)
  moreover from calculation have "core v (previous b') \<noteq> None"
    using assms(3) x(2) unfolding linked_def by blast
  ultimately show "((core v)(h := None)) (previous b') \<noteq> None" by simp
qed

lemma prov_inv_retract:
  assumes chain: "chain_inv H v" and prov: "prov_inv n (core v) (vversion v) (vpending v) rank"
    and last: "last_block v a h b sb i" and hg: "h \<noteq> net_genesis n"
    and S: "S = sent_by (bal_at (core v) (previous b)) b"
    and R: "R = received_by (net_epoch_link n) (bal_at (core v) (previous b)) b"
    and pending: "\<And>d. S = Some d \<Longrightarrow> vpending v (Pending_key d h) \<noteq> None"
  shows "prov_inv n ((core v)(h := None)) ((vversion v)(h := e)) (pending_before h a S R p (vpending v)) rank"
proof -
  let ?c = "(core v)(h := None)"
  note lc = last_core [OF chain last]
  have ph: "previous b \<noteq> h" using last_unreferenced [OF chain last last_block_facts(3) [OF chain last]] .
  have c: "?c(h \<mapsto> (b, a, info_balance i)) = core v" using lc(1) by auto
  have prov': "prov_inv n (?c(h \<mapsto> (b, a, info_balance i))) (vversion v) (vpending v) rank"
    unfolding c by (rule prov)
  have before: "bal_at ?c (previous b) = bal_at (core v) (previous b)" using ph by (simp add: bal_at_def)
  show ?thesis
  proof (rule prov_retract [OF prov'])
    show "previous b = 0 \<or> ?c (previous b) \<noteq> None"
      using linked_prev_at [OF prov_invD(6) [OF prov], of h] lc(3) ph by simp
    show "linked ?c" by (rule retract_linked [OF chain last prov_invD(6) [OF prov]])
  qed (use hg S R pending in \<open>simp_all add: before\<close>)
qed

theorem rb_inv_retract:
  assumes inv: "rb_inv H n rank off' v" and last: "last_block v a h b sb i" and hg: "h \<noteq> net_genesis n"
    and S: "S = sent_by (bal_at (core v) (previous b)) b"
    and R: "R = received_by (net_epoch_link n) (bal_at (core v) (previous b)) b"
    and pending: "\<And>d. S = Some d \<Longrightarrow> vpending v (Pending_key d h) \<noteq> None"
    and rep: "previous b \<noteq> 0 \<Longrightarrow> rep_at (vblocks v) (previous b) rep"
    and p: "\<And>s. R = Some s \<Longrightarrow> p = \<lparr>pending_source = account_at (core v) s,
      pending_amount = info_balance i - bal_at (core v) (previous b), pending_epoch = vversion v s\<rparr>"
    and wt: "\<And>r. wt r = delegated v r - rep_share (vblocks v) (rep_block i) (info_balance i) r +
      (if previous b = 0 then 0 else rep_share (vblocks v) rep (bal_at (core v) (previous b)) r) + off r"
  shows "rb_inv H n rank off
    (vretract v a h b (retracted_info v t i rep b) (pending_before h a S R p (vpending v)) wt)"
proof -
  note I = rb_invD [OF inv]
  note D = prov_invD [OF I(4)] and lc = last_core [OF I(1) last] and f = last_block_facts [OF I(1) last]
  let ?pend = "pending_before h a S R p (vpending v)"
  have S': "sent (core v) h = S" using S lc(1) by (simp add: sent_def)
  have R': "received_in n (core v) h = R" using R lc(1) hg by (simp add: received_def)
  have receipt: "receipt (core v) (vversion v) rank h s" if "R = Some s" for s
    using D(9) R' that by blast
  have excl: "S = None \<or> R = None" unfolding S R by (cases b) auto
  have pends: "key_hash k \<noteq> h \<and> pending_inv v k q" if k: "?pend k = Some q" for k q
  proof (cases "vpending v k = Some q")
    case True
    then show ?thesis
      using k D(12) [of k] S' chain_inv_pending [OF I(1) True] by (auto simp: pending_before_def)
  next
    case False
    then have "R = Some (key_hash k)" "k = Pending_key a (key_hash k)" "q = p"
      using k by (auto simp: pending_before_def split: if_splits)
    then show ?thesis
      using receipt_pending_inv [OF I(1) D(8) receipt, of "key_hash k" p] p [of "key_hash k"]
        receipt [of "key_hash k"] lc by (auto simp: receipt_def)
  qed
  have chain': "chain_inv H (vretract v a h b (retracted_info v t i rep b) ?pend wt)"
    using rep pends by (rule chain_inv_retract [OF I(1,5,6) last])
  have sum: "finite (dom ?pend)"
    "unat (bal_at (core v) (previous b)) + table_sum (\<lambda>p. unat (pending_amount p)) ?pend =
      unat (info_balance i) + table_sum (\<lambda>p. unat (pending_amount p)) (vpending v)"
  proof -
    have 1: "\<exists>q. vpending v (Pending_key d h) = Some q \<and>
        pending_amount q = bal_at (core v) (previous b) - info_balance i \<and>
        info_balance i \<le> bal_at (core v) (previous b)" if "S = Some d" for d
      using pending [OF that] D(8) S' that pending_provenance(1) [OF I(1), of "Pending_key d h"] lc
      unfolding sends_down_def by auto
    have 2: "vpending v (Pending_key a s) = None \<and>
        pending_amount p = info_balance i - bal_at (core v) (previous b) \<and>
        bal_at (core v) (previous b) \<le> info_balance i" if "R = Some s" for s
      using p [OF that] receipt [OF that] D(11) [of s a] R' that lc by (auto simp: receipt_def)
    have 3: "info_balance i = bal_at (core v) (previous b)" if "S = None" "R = None"
      using D(13) [of h] that S' R' hg lc by simp
    show "finite (dom ?pend)"
      "unat (bal_at (core v) (previous b)) + table_sum (\<lambda>p. unat (pending_amount p)) ?pend =
        unat (info_balance i) + table_sum (\<lambda>p. unat (pending_amount p)) (vpending v)"
      using pending_before_sum [OF I(8) excl, of h "bal_at (core v) (previous b)" "info_balance i" a p] 1 2 3
      by blast+
  qed
  have "supply_inv (vretract v a h b (retracted_info v t i rep b) ?pend wt)"
    using supply_inv_retract [OF I(2) f(1) no_block_zero [OF I(1)] sum] .
  moreover have "prov_inv n ((core v)(h := None)) ((vversion v)(h := Epoch_0)) ?pend rank"
    using prov_inv_retract [OF I(1,4) last hg S R pending] .
  ultimately show ?thesis
    unfolding rb_inv_def using chain' wt delegated_retract [OF I(1,7) f(1) chain']
    by (simp add: core_vretract)
qed

end
