(* ===== verification/Rollback_Steps.thy ===== *)
theory Rollback_Steps
  imports Rollback Retract
begin

text \<open>
  The visitor of the rollback undoes the last block of a chain: on a ledger in order, and
  once the entry of a send is pending, it returns the ledger without the block
  (\<open>vretract\<close>). Reads and writes are followed on the abstract store.
\<close>

section \<open>Deleting and unlinking blocks on the abstract store\<close>

definition spec_block_del :: "view \<Rightarrow> uint256 \<Rightarrow> view option" where
  "spec_block_del v h = do {
     assert (vblocks v h \<noteq> None);
     Some (v\<lparr>vblocks := (vblocks v)(h := None), vversion := (vversion v)(h := Epoch_0)\<rparr>) }"

definition spec_successor_clear :: "view \<Rightarrow> uint256 \<Rightarrow> view option" where
  "spec_successor_clear v h = do {
     assert (vblocks v h \<noteq> None);
     Some (v\<lparr>vblocks := entry_link (vblocks v) h 0\<rparr>) }"

definition table_del :: "store \<Rightarrow> dbi \<Rightarrow> uint256 \<Rightarrow> store" where
  "table_del s db h = s\<lparr>block_tables := (block_tables s)(db := (block_tables s db)(h := None))\<rparr>"

lemma block_del_table:
  assumes "blocks_ok s" "block_tables s db h \<noteq> None"
  shows "block_del s h = Some (table_del s db h)"
proof -
  have "block_tables s db' h = None" if "db' \<noteq> db" for db'
    using assms that unfolding blocks_ok_def by metis
  then show ?thesis
    using assms(2) by (cases db) (simp_all add: block_del_def table_del_def)
qed

lemma table_del_other [simp]:
  "frontiers (table_del s db h) = frontiers s"
  "account_get (table_del s db h) = account_get s" "accounts_ok (table_del s db h) = accounts_ok s"
  "pending_get (table_del s db h) = pending_get s" "pending_ok (table_del s db h) = pending_ok s"
  "representation_get (table_del s db h) = representation_get s"
  by (simp_all add: table_del_def fun_eq_iff account_get_def pending_get_def representation_get_def
      accounts_ok_def pending_ok_def split: option.split)

lemma table_del_tables:
  "block_tables (table_del s db h) db' x = (if db' = db \<and> x = h then None else block_tables s db' x)"
  by (simp add: table_del_def)

lemma table_del_blocks:
  assumes ok: "blocks_ok s" and db: "block_tables s db h \<noteq> None"
  shows "blocks_ok (table_del s db h)"
    "block_get_sideband (table_del s db h) = (block_get_sideband s)(h := None)"
    "block_version (table_del s db h) = (block_version s)(h := Epoch_0)"
proof -
  have only: "block_tables s db' h = None" if "db' \<noteq> db" for db'
    using assms that unfolding blocks_ok_def by metis
  show ok': "blocks_ok (table_del s db h)"
    using ok unfolding blocks_ok_def table_del_tables by (metis option.distinct(1))
  show "block_get_sideband (table_del s db h) = (block_get_sideband s)(h := None)"
  proof
    fix x
    have "block_get_sideband (table_del s db h) x = Some e \<longleftrightarrow> ((block_get_sideband s)(h := None)) x = Some e" for e
      unfolding block_get_sideband_tables [OF ok'] table_del_tables
      using only by (cases "x = h") (auto simp: block_get_sideband_tables [OF ok])
    then show "block_get_sideband (table_del s db h) x = ((block_get_sideband s)(h := None)) x"
      by (metis not_Some_eq)
  qed
  show "block_version (table_del s db h) = (block_version s)(h := Epoch_0)"
    using only by (auto simp: fun_eq_iff table_del_tables block_version_def)
qed

lemma simulates_block_del [simulation]:
  assumes "seen_as v s"
  shows "simulates (block_del s h) (spec_block_del v h)"
  unfolding simulates_def
proof (intro allI impI)
  fix v'
  assume v': "spec_block_del v h = Some v'"
  have ok: "store_ok s" "blocks_ok s" "view s = v" using assms by (simp_all add: seen_as_def store_ok_def)
  with v' have "block_get_sideband s h \<noteq> None" by (auto simp: spec_block_del_def bind_eq_Some_conv)
  then obtain db where db: "block_tables s db h \<noteq> None"
    unfolding block_get_sideband_None [OF ok(2)] by blast
  note del = table_del_blocks [OF ok(2) db]
  have "view (table_del s db h) = v'"
    using v' ok(3) del by (intro view_eqI) (auto simp: spec_block_del_def bind_eq_Some_conv)
  then show "succeeds (block_del s h) (seen_as v')"
    using block_del_table [OF ok(2) db] del(1) ok(1) by (simp add: seen_as_def store_ok_def)
qed

lemma simulates_successor_clear [simulation]:
  assumes "seen_as v s"
  shows "simulates (block_successor_clear s h) (spec_successor_clear v h)"
  unfolding simulates_def block_successor_clear_def
proof (intro allI impI)
  fix v'
  assume v': "spec_successor_clear v h = Some v'"
  then obtain b sb where b: "vblocks v h = Some (b, sb)"
    by (auto simp: spec_successor_clear_def bind_eq_Some_conv)
  with v' have v'_eq: "v' = v\<lparr>vblocks := (vblocks v)(h \<mapsto> (b, sb\<lparr>successor := 0\<rparr>))\<rparr>"
    by (auto simp: spec_successor_clear_def entry_link_def bind_eq_Some_conv)
  have "block_get_sideband s h = Some (b, sb)" using b seen_as_view(1) [OF assms] by simp
  from block_successor_put_ok [OF seen_as_view(7) [OF assms] this, of 0] v'_eq
  show "succeeds (block_successor_put s h 0) (seen_as v')"
    using assms unfolding succeeds_def seen_as_def by metis
qed

section \<open>Reads\<close>

definition reads :: "'a option \<Rightarrow> 'a option \<Rightarrow> bool" where
  "reads m vm \<longleftrightarrow> (\<forall>x. vm = Some x \<longrightarrow> m = Some x)"

lemma simulates_read [simulation]:
  "reads m vm \<Longrightarrow> (\<And>x. simulates (f x) (vf x)) \<Longrightarrow> simulates (m \<bind> f) (vm \<bind> vf)"
  by (cases vm) (auto simp: reads_def simulates_def)

lemma rep_at_det: "rep_at m h r \<Longrightarrow> rep_at m h r' \<Longrightarrow> r' = r"
proof (induction rule: rep_at.induct)
  case (rep_here h b sb)
  from rep_here(3,1,2) show ?case by cases auto
next
  case (rep_back h b sb r)
  from rep_back(5,1-4) show ?case by cases auto
qed

definition hashes_ok :: "(byte list \<Rightarrow> uint256) \<Rightarrow> view \<Rightarrow> bool" where
  "hashes_ok H v \<longleftrightarrow> (\<forall>h b sb. vblocks v h = Some (b, sb) \<longrightarrow> block_hash H b = h \<and> h \<noteq> 0)"

lemma rep_at_computed:
  assumes "rep_at (vblocks v) h r" "seen_as v s" "hashes_ok H v"
  shows "ledger_representative H s h = Some r"
proof -
  have get: "block_get s h = Some b" if "vblocks v h = Some (b, sb)" for h b sb
    using that seen_as_view(1) [OF assms(2)] by (simp add: block_get_view)
  have r: "\<exists>b sb. vblocks v r = Some (b, sb)" using rep_at_stored [OF assms(1)] by auto
  have "representative_compute H s h 0 = Some r"
    using assms(1)
  proof induction
    case (rep_here h b sb)
    then have h: "block_hash H b = h" "h \<noteq> 0" using assms(3) by (auto simp: hashes_ok_def)
    have "representative_visit H b h = (h, block_hash H b)" using rep_here(2) by (cases b) auto
    then show ?case
      using get [OF rep_here(1)] h
      by (simp add: representative_compute.simps [of H s h 0] representative_compute.simps [of H s h h])
  next
    case (rep_back h b sb r)
    have "representative_visit H b h = (previous b, 0)" using rep_back(2) by (cases b) auto
    then show ?case
      using get [OF rep_back(1)] rep_back(4) by (simp add: representative_compute.simps [of H s h 0])
  qed
  moreover have "block_exists s r"
    using r seen_as_view(1) [OF assms(2)] by (auto simp: block_exists_view)
  ultimately show ?thesis by (simp add: ledger_representative_def representative_calculated_def)
qed

definition spec_representative :: "(byte list \<Rightarrow> uint256) \<Rightarrow> view \<Rightarrow> uint256 \<Rightarrow> uint256 option" where
  "spec_representative H v h =
     (if hashes_ok H v \<and> (\<exists>r. rep_at (vblocks v) h r) then Some (THE r. rep_at (vblocks v) h r) else None)"

lemma spec_representative_eq:
  assumes "hashes_ok H v" "rep_at (vblocks v) h r"
  shows "spec_representative H v h = Some r"
proof -
  have "(THE r. rep_at (vblocks v) h r) = r"
    using assms(2) rep_at_det by (intro the_equality)
  then show ?thesis using assms unfolding spec_representative_def by auto
qed

lemma reads_representative [simulation]:
  assumes "seen_as v s"
  shows "reads (ledger_representative H s h) (spec_representative H v h)"
proof (cases "hashes_ok H v \<and> (\<exists>r. rep_at (vblocks v) h r)")
  case True
  then obtain r where "rep_at (vblocks v) h r" by blast
  then show ?thesis
    using True rep_at_computed [OF _ assms] by (simp add: reads_def spec_representative_eq)
next
  case False
  then show ?thesis by (auto simp: reads_def spec_representative_def)
qed

definition spec_balance :: "view \<Rightarrow> uint256 \<Rightarrow> uint128 option" where
  "spec_balance v h = (if h = 0 then Some 0 else map_option entry_balance (vblocks v h))"

lemma reads_balance [simulation]: "seen_as v s \<Longrightarrow> reads (ledger_balance s h) (spec_balance v h)"
  by (simp add: reads_def spec_balance_def ledger_balance_def block_balance_def seen_as_view)

lemma hashes_ok_frame [simp]:
  "hashes_ok H (v\<lparr>vpending := x1\<rparr>) = hashes_ok H v"
  "hashes_ok H (v\<lparr>vweight := x2\<rparr>) = hashes_ok H v"
  by (simp_all add: hashes_ok_def)

lemma spec_representative_frame [simp]:
  "spec_representative H (v\<lparr>vpending := x1\<rparr>) h = spec_representative H v h"
  "spec_representative H (v\<lparr>vweight := x2\<rparr>) h = spec_representative H v h"
  by (simp_all add: spec_representative_def)

lemma spec_balance_frame [simp]:
  "spec_balance (v\<lparr>vpending := x1\<rparr>) h = spec_balance v h"
  "spec_balance (v\<lparr>vweight := x2\<rparr>) h = spec_balance v h"
  by (simp_all add: spec_balance_def)

lemma chain_hashes: "chain_inv H v \<Longrightarrow> hashes_ok H v"
  unfolding hashes_ok_def using chain_inv_block [of H v] by (auto simp: block_inv_def)

lemma spec_balance_eq:
  assumes "chain_inv H v" "h = 0 \<or> vblocks v h \<noteq> None"
  shows "spec_balance v h = Some (bal_at (core v) h)"
  using assms(2) no_block_zero [OF assms(1)] by (auto simp: spec_balance_def bal_at_def core_def)

section \<open>Undoing legacy blocks\<close>

lemma legacy_last:
  assumes "chain_inv H v" "last_block v a h b sb i" "legacy b"
  shows "vfrontiers v h = Some a" "vversion v h = Epoch_0"
  using last_block_facts [OF assms(1,2)] assms(3) chain_inv_frontier [OF assms(1)]
    chain_inv_block [OF assms(1), of h b sb]
  by (auto simp: frontier_inv_def block_inv_def)

lemma legacy_previous:
  assumes "chain_inv H v" "last_block v a h b sb i" "legacy b" "previous b \<noteq> 0"
  obtains b' sb' where "vblocks v (previous b) = Some (b', sb')" "previous b \<noteq> h" "legacy b'"
    "vversion v (previous b) = Epoch_0" "entry_account (b', sb') = a" "legacy_at (core v) (previous b)"
    "spec_balance v (previous b) = Some (bal_at (core v) (previous b))" "entry_balance (b', sb') = bal_at (core v) (previous b)"
proof -
  obtain b' sb' where p: "vblocks v (previous b) = Some (b', sb')" "entry_account (b', sb') = a"
    "legacy b'" "previous b \<noteq> h"
    using last_previous [OF assms(1,2,4)] assms(3) by blast
  moreover have "vversion v (previous b) = Epoch_0"
    using chain_inv_block [OF assms(1) p(1)] p(3) by (simp add: block_inv_def)
  moreover have "entry_balance (b', sb') = bal_at (core v) (previous b)" "legacy_at (core v) (previous b)"
    using p by (simp_all add: bal_at_def core_def legacy_at_def)
  moreover have "spec_balance v (previous b) = Some (bal_at (core v) (previous b))"
    using spec_balance_eq [OF assms(1), of "previous b"] p(1) by simp
  ultimately show ?thesis using that by blast
qed

lemma send_undo:
  assumes at0: "seen_as v s" and chain: "chain_inv (digest env) v"
    and last: "last_block v a h (Send_block b) sb i"
    and rb: "vblocks v (rep_block i) = Some (rb, sbr)"
    and k: "k = Pending_key (send_destination (hashables b)) h" "vpending v k \<noteq> None"
    and prev: "previous (Send_block b) \<noteq> 0"
  shows "succeeds (do {
      s \<leftarrow> pending_del s k;
      rep \<leftarrow> ledger_representative (digest env) s h;
      s \<leftarrow> representation_add s rep d;
      balance \<leftarrow> ledger_balance s (send_previous (hashables b));
      s \<leftarrow> change_latest (now env) s a (send_previous (hashables b)) (rep_block i) balance (block_count i - 1) Epoch_0;
      s \<leftarrow> block_del s h;
      s \<leftarrow> frontier_del s h;
      block_successor_clear (frontier_put s (send_previous (hashables b)) a) (send_previous (hashables b)) })
    (seen_as (vretract v a h (Send_block b) (retracted_info v (now env) i (rep_block i) (Send_block b))
      ((vpending v)(k := None)) (weight_add (vweight v) (representative rb) d)))"
    (is "succeeds ?run _")
proof -
  note f = last_block_facts [OF chain last]
  have legacy: "legacy (Send_block b)" by (simp add: legacy_def)
  obtain b' sb' where p: "vblocks v (send_previous (hashables b)) = Some (b', sb')"
    "send_previous (hashables b) \<noteq> h" "vversion v (send_previous (hashables b)) = Epoch_0"
    "legacy_at (core v) (send_previous (hashables b))"
    "spec_balance v (send_previous (hashables b)) = Some (bal_at (core v) (send_previous (hashables b)))"
    using legacy_previous [OF chain last legacy prev] unfolding previous.simps by metis
  have "simulates ?run (do {
      v \<leftarrow> spec_pending_del v k;
      rep \<leftarrow> spec_representative (digest env) v h;
      v \<leftarrow> spec_representation_add v rep d;
      balance \<leftarrow> spec_balance v (send_previous (hashables b));
      v \<leftarrow> spec_change_latest (now env) v a (send_previous (hashables b)) (rep_block i) balance (block_count i - 1) Epoch_0;
      v \<leftarrow> spec_block_del v h;
      v \<leftarrow> spec_frontier_del v h;
      spec_successor_clear (spec_frontier_put v (send_previous (hashables b)) a) (send_previous (hashables b)) })"
    by (intro simulation at0)
  moreover have "\<dots> = Some (vretract v a h (Send_block b) (retracted_info v (now env) i (rep_block i) (Send_block b))
      ((vpending v)(k := None)) (weight_add (vweight v) (representative rb) d))"
    using k prev p f legacy_last [OF chain last legacy] rb
    by (simp add: spec_defs spec_block_del_def spec_successor_clear_def
        spec_representative_eq [OF chain_hashes [OF chain] f(9)])
      (rule view.equality; simp add: vretract_def retracted_info_def entry_link_def fun_upd_twist [OF p(2)])
  ultimately show ?thesis by (rule simulatesD)
qed

lemma receive_undo:
  assumes at0: "seen_as v s" and chain: "chain_inv (digest env) v"
    and last: "last_block v a h (Receive_block b) sb i"
    and rb: "vblocks v (rep_block i) = Some (rb, sbr)"
    and k: "vpending v k = None" "pending_epoch q = Epoch_0"
    and prev: "previous (Receive_block b) \<noteq> 0"
  shows "succeeds (do {
      s \<leftarrow> representation_add s (rep_block i) d;
      balance \<leftarrow> ledger_balance s (receive_previous (hashables b));
      s \<leftarrow> change_latest (now env) s a (receive_previous (hashables b)) rep balance (block_count i - 1) Epoch_0;
      s \<leftarrow> block_del s h;
      s \<leftarrow> pending_put s k q;
      s \<leftarrow> frontier_del s h;
      block_successor_clear (frontier_put s (receive_previous (hashables b)) a) (receive_previous (hashables b)) })
    (seen_as (vretract v a h (Receive_block b) (retracted_info v (now env) i rep (Receive_block b))
      ((vpending v)(k \<mapsto> q)) (weight_add (vweight v) (representative rb) d)))"
    (is "succeeds ?run _")
proof -
  note f = last_block_facts [OF chain last]
  have legacy: "legacy (Receive_block b)" by (simp add: legacy_def)
  obtain b' sb' where p: "vblocks v (receive_previous (hashables b)) = Some (b', sb')"
    "receive_previous (hashables b) \<noteq> h" "vversion v (receive_previous (hashables b)) = Epoch_0"
    "legacy_at (core v) (receive_previous (hashables b))"
    "spec_balance v (receive_previous (hashables b)) = Some (bal_at (core v) (receive_previous (hashables b)))"
    using legacy_previous [OF chain last legacy prev] unfolding previous.simps by metis
  have "simulates ?run (do {
      v \<leftarrow> spec_representation_add v (rep_block i) d;
      balance \<leftarrow> spec_balance v (receive_previous (hashables b));
      v \<leftarrow> spec_change_latest (now env) v a (receive_previous (hashables b)) rep balance (block_count i - 1) Epoch_0;
      v \<leftarrow> spec_block_del v h;
      v \<leftarrow> spec_pending_put v k q;
      v \<leftarrow> spec_frontier_del v h;
      spec_successor_clear (spec_frontier_put v (receive_previous (hashables b)) a) (receive_previous (hashables b)) })"
    by (intro simulation at0)
  moreover have "\<dots> = Some (vretract v a h (Receive_block b) (retracted_info v (now env) i rep (Receive_block b))
      ((vpending v)(k \<mapsto> q)) (weight_add (vweight v) (representative rb) d))"
    using k prev p f legacy_last [OF chain last legacy] rb
    by (simp add: spec_defs spec_block_del_def spec_successor_clear_def)
      (rule view.equality; simp add: vretract_def retracted_info_def entry_link_def fun_upd_twist [OF p(2)])
  ultimately show ?thesis by (rule simulatesD)
qed

lemma open_undo:
  assumes at0: "seen_as v s" and chain: "chain_inv (digest env) v"
    and last: "last_block v a h (Open_block b) sb i"
    and k: "vpending v k = None" "pending_epoch q = Epoch_0"
  shows "succeeds (do {
      s \<leftarrow> representation_add s h d;
      s \<leftarrow> change_latest (now env) s a 0 0 0 0 Epoch_0;
      s \<leftarrow> block_del s h;
      s \<leftarrow> pending_put s k q;
      frontier_del s h })
    (seen_as (vretract v a h (Open_block b) (retracted_info v (now env) i rep (Open_block b))
      ((vpending v)(k \<mapsto> q)) (weight_add (vweight v) (open_representative (hashables b)) d)))"
    (is "succeeds ?run _")
proof -
  note f = last_block_facts [OF chain last]
  have legacy: "legacy (Open_block b)" by (simp add: legacy_def)
  have zero: "vblocks v 0 = None" "vfrontiers v 0 = None"
    using no_block_zero [OF chain] no_frontier [OF chain] by auto
  have "simulates ?run (do {
      v \<leftarrow> spec_representation_add v h d;
      v \<leftarrow> spec_change_latest (now env) v a 0 0 0 0 Epoch_0;
      v \<leftarrow> spec_block_del v h;
      v \<leftarrow> spec_pending_put v k q;
      spec_frontier_del v h })"
    by (intro simulation at0)
  moreover have "\<dots> = Some (vretract v a h (Open_block b) (retracted_info v (now env) i rep (Open_block b))
      ((vpending v)(k \<mapsto> q)) (weight_add (vweight v) (open_representative (hashables b)) d))"
    using k f legacy_last [OF chain last legacy] zero
    by (simp add: spec_defs spec_block_del_def)
      (rule view.equality; simp add: vretract_def retracted_info_def entry_link_def legacy_at_def core_def fun_upd_idem)
  ultimately show ?thesis by (rule simulatesD)
qed

lemma change_undo:
  assumes at0: "seen_as v s" and chain: "chain_inv (digest env) v"
    and last: "last_block v a h (Change_block b) sb i"
    and rb: "vblocks v rep = Some (rb, sbr)"
    and bal: "info_balance i = bal_at (core v) (change_previous (hashables b))"
    and prev: "previous (Change_block b) \<noteq> 0"
  shows "succeeds (do {
      s \<leftarrow> representation_add s rep d;
      s \<leftarrow> representation_add s h d';
      s \<leftarrow> block_del s h;
      s \<leftarrow> change_latest (now env) s a (change_previous (hashables b)) rep (info_balance i) (block_count i - 1) Epoch_0;
      s \<leftarrow> frontier_del s h;
      block_successor_clear (frontier_put s (change_previous (hashables b)) a) (change_previous (hashables b)) })
    (seen_as (vretract v a h (Change_block b) (retracted_info v (now env) i rep (Change_block b)) (vpending v)
      (weight_add (weight_add (vweight v) (representative rb) d) (change_representative (hashables b)) d')))"
    (is "succeeds ?run _")
proof -
  note f = last_block_facts [OF chain last]
  have legacy: "legacy (Change_block b)" by (simp add: legacy_def)
  obtain b' sb' where p: "vblocks v (change_previous (hashables b)) = Some (b', sb')"
    "change_previous (hashables b) \<noteq> h" "vversion v (change_previous (hashables b)) = Epoch_0"
    "legacy_at (core v) (change_previous (hashables b))"
    using legacy_previous [OF chain last legacy prev] unfolding previous.simps by metis
  have "simulates ?run (do {
      v \<leftarrow> spec_representation_add v rep d;
      v \<leftarrow> spec_representation_add v h d';
      v \<leftarrow> spec_block_del v h;
      v \<leftarrow> spec_change_latest (now env) v a (change_previous (hashables b)) rep (info_balance i) (block_count i - 1) Epoch_0;
      v \<leftarrow> spec_frontier_del v h;
      spec_successor_clear (spec_frontier_put v (change_previous (hashables b)) a) (change_previous (hashables b)) })"
    by (intro simulation at0)
  moreover have "\<dots> = Some (vretract v a h (Change_block b) (retracted_info v (now env) i rep (Change_block b))
      (vpending v)
      (weight_add (weight_add (vweight v) (representative rb) d) (change_representative (hashables b)) d'))"
    using prev p f legacy_last [OF chain last legacy] rb bal
    by (simp add: spec_defs spec_block_del_def spec_successor_clear_def)
      (rule view.equality; simp add: vretract_def retracted_info_def entry_link_def fun_upd_twist [OF p(2)])
  ultimately show ?thesis by (rule simulatesD)
qed

section \<open>Undoing state blocks\<close>

definition ledger_step :: "view \<Rightarrow> ledger \<Rightarrow> ledger \<Rightarrow> bool" where
  "ledger_step v l l' \<longleftrightarrow> seen_as v (store l') \<and> l' = l\<lparr>store := store l', stats := stats l'\<rparr>"

lemma state_previous_entry:
  assumes "chain_inv H v" "last_block v a h (State_block b) sb i" "state_previous (hashables b) \<noteq> 0"
  shows "\<exists>c sc. vblocks v (state_previous (hashables b)) = Some (c, sc) \<and> entry_account (c, sc) = a \<and>
    state_previous (hashables b) \<noteq> h"
proof -
  have "previous (State_block b) \<noteq> 0" using assms(3) by simp
  from last_previous [OF assms(1,2) this] show ?thesis unfolding previous.simps by blast
qed

lemma state_no_frontier:
  assumes "chain_inv H v" "vblocks v h = Some (State_block b, sb)"
  shows "vfrontiers v h = None"
proof (rule ccontr)
  assume "vfrontiers v h \<noteq> None"
  then obtain a where "vfrontiers v h = Some a" by auto
  then obtain b' sb' where "vblocks v h = Some (b', sb')" "legacy b'"
    using frontier_account [OF assms(1)] by metis
  with assms(2) show False by (simp add: legacy_def)
qed

lemma seen_as_if [simulation]:
  "(c \<Longrightarrow> seen_as v s) \<Longrightarrow> (\<not> c \<Longrightarrow> seen_as v' s') \<Longrightarrow> seen_as (if c then v else v') (if c then s else s')"
  by simp

lemma state_unlink_store:
  assumes at0: "seen_as (v\<lparr>vpending := pend\<rparr>) s" and chain: "chain_inv (digest env) v"
    and last: "last_block v a h (State_block b) sb i" and prev: "previous (State_block b) \<noteq> 0"
    and p: "vblocks v (state_previous (hashables b)) = Some (c, sc)"
  shows "succeeds (do {
      s \<leftarrow> change_latest (now env) s a (state_previous (hashables b)) rep
        (bal_at (core v) (state_previous (hashables b))) (block_count i - 1) (block_version s (state_previous (hashables b)));
      s \<leftarrow> block_successor_clear s (state_previous (hashables b));
      block_del (if type_of c \<noteq> Bt_state then frontier_put s (state_previous (hashables b)) a else s) h })
    (seen_as (vretract v a h (State_block b) (retracted_info v (now env) i rep (State_block b)) pend (vweight v)))"
    (is "succeeds ?run _")
proof -
  note f = last_block_facts [OF chain last]
  let ?p = "state_previous (hashables b)"
  have ver: "block_version s ?p = vversion v ?p" using seen_as_view(2) [OF at0] by simp
  have ph: "?p \<noteq> h" using last_unreferenced [OF chain last f(3)] by simp
  have e: "vversion v ?p \<in> {Epoch_0, Epoch_1}" using chain_inv_block [OF chain p] by (simp add: block_inv_def)
  have fr: "vfrontiers v h = None" by (rule state_no_frontier [OF chain f(3)])
  have fp: "vfrontiers v ?p = None"
  proof (rule ccontr)
    assume "vfrontiers v ?p \<noteq> None"
    then obtain a' where "vfrontiers v ?p = Some a'" by auto
    from frontier_account [OF chain this] p
    obtain i' where "vaccounts v a' = Some i'" "head i' = ?p" "entry_account (c, sc) = a'"
      by (metis option.inject)
    with state_previous_entry [OF chain last] prev p f(1,2) ph show False by simp
  qed
  have "simulates ?run (do {
      v \<leftarrow> spec_change_latest (now env) (v\<lparr>vpending := pend\<rparr>) a ?p rep (bal_at (core v) ?p) (block_count i - 1) (vversion v ?p);
      v \<leftarrow> spec_successor_clear v ?p;
      spec_block_del (if type_of c \<noteq> Bt_state then spec_frontier_put v ?p a else v) h })"
    unfolding ver
    by (intro simulation at0)
  moreover have "\<dots> = Some (vretract v a h (State_block b) (retracted_info v (now env) i rep (State_block b)) pend (vweight v))"
    using prev p ph f fr fp e
    by (simp add: spec_defs spec_block_del_def spec_successor_clear_def entry_link_Some)
      (intro conjI impI; rule view.equality;
        simp add: vretract_def retracted_info_def legacy_at_def core_def legacy_def fun_upd_idem)
  ultimately show ?thesis by (rule simulatesD)
qed

lemma state_unlink:
  assumes at0: "seen_as (v\<lparr>vpending := pend\<rparr>) (store l)" and chain: "chain_inv (digest env) v"
    and last: "last_block v a h (State_block b) sb i" and count: "block_count info = block_count i"
    and bal: "balance = bal_at (core v) (state_previous (hashables b))"
    and h: "block_hash (digest env) (State_block b) = h" and a: "state_account (hashables b) = a"
  shows "succeeds (rollback_state_unlink env l info rep balance b)
    (ledger_step (vretract v a h (State_block b) (retracted_info v (now env) i rep (State_block b)) pend (vweight v)) l)"
proof (cases "state_previous (hashables b) = 0")
  case True
  note f = last_block_facts [OF chain last]
  let ?e = "block_version (store l) (state_previous (hashables b))"
  have zero: "vblocks v 0 = None" "vfrontiers v 0 = None" "vfrontiers v h = None"
    using no_block_zero [OF chain] no_frontier [OF chain] state_no_frontier [OF chain f(3)] by auto
  have "spec_change_latest (now env) (v\<lparr>vpending := pend\<rparr>) a 0 rep balance (block_count i - 1) ?e =
      Some (v\<lparr>vpending := pend, vaccounts := (vaccounts v)(a := None)\<rparr>)"
    using f(1) by (simp add: spec_change_latest_def)
  from simulatesD [OF simulates_change_latest [OF at0] this]
  obtain s1 where s1: "change_latest (now env) (store l) a 0 rep balance (block_count i - 1) ?e = Some s1"
    "seen_as (v\<lparr>vpending := pend, vaccounts := (vaccounts v)(a := None)\<rparr>) s1"
    by (rule succeedsE)
  have "succeeds (block_del s1 h) (seen_as (vretract v a h (State_block b)
      (retracted_info v (now env) i rep (State_block b)) pend (vweight v)))"
    using f True zero
    by (intro simulatesD [OF simulates_block_del [OF s1(2)]])
      (auto simp: spec_block_del_def vretract_def retracted_info_def entry_link_def legacy_at_def core_def
        fun_upd_idem intro!: view.equality)
  moreover have "block_get s1 0 = None" using seen_as_view(1) [OF s1(2)] zero by (simp add: block_get_view)
  ultimately show ?thesis
    using s1(1) True a h count
    by (auto simp: rollback_state_unlink_def rollback_stat_def ledger_step_def succeeds_def Let_def)
next
  case False
  let ?p = "state_previous (hashables b)"
  note f = last_block_facts [OF chain last]
  obtain c sc where p: "vblocks v ?p = Some (c, sc)"
    using state_previous_entry [OF chain last False] by blast
  obtain s1 s2 s3 where run: "change_latest (now env) (store l) a ?p rep balance (block_count i - 1)
      (block_version (store l) ?p) = Some s1" "block_successor_clear s1 ?p = Some s2"
    "block_del (if type_of c \<noteq> Bt_state then frontier_put s2 ?p a else s2) h = Some s3"
    and s3: "seen_as (vretract v a h (State_block b) (retracted_info v (now env) i rep (State_block b)) pend
      (vweight v)) s3"
    using state_unlink_store [OF at0 chain last _ p, of rep] False bal
    by (auto simp: succeeds_def bind_eq_Some_conv)
  have "vversion v ?p \<in> {Epoch_0, Epoch_1}" using chain_inv_block [OF chain p] by (simp add: block_inv_def)
  then have "spec_change_latest (now env) (v\<lparr>vpending := pend\<rparr>) a ?p rep balance (block_count i - 1)
      (vversion v ?p) = Some (v\<lparr>vpending := pend, vaccounts := (vaccounts v)
        (a \<mapsto> info_next (Some i) (now env) ?p rep balance (block_count i - 1) (vversion v ?p))\<rparr>)"
    using f(1) False by (simp add: spec_change_latest_def)
  from simulatesD [OF simulates_change_latest [OF at0] this] run(1) seen_as_view(2) [OF at0]
  have "seen_as (v\<lparr>vpending := pend, vaccounts := (vaccounts v)
      (a \<mapsto> info_next (Some i) (now env) ?p rep balance (block_count i - 1) (vversion v ?p))\<rparr>) s1"
    by simp
  from seen_as_view(1) [OF this] p have "block_get s1 ?p = Some c" by (simp add: block_get_view)
  with run s3 a h count show ?thesis
    by (auto simp: rollback_state_unlink_def ledger_step_def succeeds_def Let_def)
qed

end
