(* ===== verification/Rollback_Run.thy ===== *)
theory Rollback_Run
  imports Rollback_Steps
begin

text \<open>
  \<open>ledger::rollback\<close> is correct: on a ledger in order it ends, takes the block off together
  with everything that builds on it and nothing older, leaves a ledger in order, and reports
  exactly the blocks it has taken off. The rank of a block, which its predecessor and its
  source precede, bounds the nesting of the calls.
\<close>

section \<open>Contracts\<close>

abbreviation lview :: "ledger \<Rightarrow> view" where
  "lview l \<equiv> view (store l)"

definition rb_ok :: "env \<Rightarrow> network \<Rightarrow> (uint256 \<Rightarrow> nat) \<Rightarrow> (uint256 \<Rightarrow> uint128) \<Rightarrow> ledger \<Rightarrow> bool" where
  "rb_ok env n rank off l \<longleftrightarrow> store_ok (store l) \<and> rb_inv (digest env) n rank off (lview l) \<and>
     net_epoch_link n = epoch_link l \<and> net_genesis_account n = genesis_account env"

text \<open>
  The blocks \<open>hs\<close>, none of a rank below \<open>m\<close>, have come off; of the others at most the link
  to the successor has been cleared. Of the ledger only the store and the counters change.
\<close>

definition rolled :: "(uint256 \<Rightarrow> nat) \<Rightarrow> nat \<Rightarrow> uint256 list \<Rightarrow> view \<Rightarrow> view \<Rightarrow> bool" where
  "rolled rank m hs v v' \<longleftrightarrow> distinct hs \<and>
     (\<forall>x\<in>set hs. m \<le> rank x \<and> vblocks v x \<noteq> None \<and> vblocks v' x = None) \<and>
     (\<forall>x. vblocks v x = None \<longrightarrow> vblocks v' x = None) \<and>
     (\<forall>x b sb. x \<notin> set hs \<longrightarrow> vblocks v x = Some (b, sb) \<longrightarrow>
        vblocks v' x = Some (b, sb) \<or> vblocks v' x = Some (b, sb\<lparr>successor := 0\<rparr>))"

definition keeps :: "ledger \<Rightarrow> ledger \<Rightarrow> bool" where
  "keeps l l' \<longleftrightarrow> l' = l\<lparr>store := store l', stats := stats l'\<rparr>"

lemma rolled_refl: "rolled rank m [] v v"
  by (simp add: rolled_def)

lemma rolled_mono: "rolled rank m hs v v' \<Longrightarrow> m' \<le> m \<Longrightarrow> rolled rank m' hs v v'"
  unfolding rolled_def by (meson le_trans)

lemma rolled_at:
  "rolled rank m hs v v' \<Longrightarrow> vblocks v x = Some (b, sb) \<Longrightarrow> x \<notin> set hs \<Longrightarrow>
    vblocks v' x = Some (b, sb) \<or> vblocks v' x = Some (b, sb\<lparr>successor := 0\<rparr>)"
  unfolding rolled_def by blast

lemma rolled_gone:
  "rolled rank m hs v v' \<Longrightarrow> vblocks v x = None \<or> x \<in> set hs \<Longrightarrow> vblocks v' x = None"
  unfolding rolled_def by blast

lemma rolled_trans:
  assumes r: "rolled rank m hs v v'" and r': "rolled rank m hs' v' v''"
  shows "rolled rank m (hs @ hs') v v''"
proof -
  have dis: "x \<notin> set hs'" if "x \<in> set hs" for x
    using that rolled_gone [OF r, of x] r' unfolding rolled_def by blast
  have there: "vblocks v x \<noteq> None" if "x \<in> set hs'" for x
    using that r r' unfolding rolled_def by blast
  have "vblocks v'' x = Some (b, sb) \<or> vblocks v'' x = Some (b, sb\<lparr>successor := 0\<rparr>)"
    if x: "x \<notin> set (hs @ hs')" "vblocks v x = Some (b, sb)" for x b sb
    using rolled_at [OF r x(2)] rolled_at [OF r', of x b] x(1) by fastforce
  then show ?thesis
    using r r' dis there rolled_gone [OF r'] rolled_gone [OF r] unfolding rolled_def by auto
qed

lemma keeps_refl [simp]: "keeps l l"
  by (simp add: keeps_def)

lemma keeps_trans: "keeps l l' \<Longrightarrow> keeps l' l'' \<Longrightarrow> keeps l l''"
  by (cases l; cases l'; cases l'') (simp add: keeps_def)

lemma rb_okD:
  assumes "rb_ok env n rank off l"
  shows "store_ok (store l)" "rb_inv (digest env) n rank off (lview l)" "seen_as (lview l) (store l)"
    "net_epoch_link n = epoch_link l" "net_genesis_account n = genesis_account env"
    "chain_inv (digest env) (lview l)" "prov_inv n (core (lview l)) (vversion (lview l)) (vpending (lview l)) rank"
  using assms rb_invD [of "digest env" n rank off "lview l"]
  by (simp_all add: rb_ok_def seen_as_def)

section \<open>Blocks that need no wait\<close>

lemma source_reads:
  assumes ok: "rb_ok env n rank off l" and s: "sent (core (lview l)) x = Some d"
  shows "ledger_amount env (store l) x =
      Some (bal_at (core (lview l)) (prev_at (core (lview l)) x) - bal_at (core (lview l)) x)"
    "block_account (store l) x = Some (account_at (core (lview l)) x)"
proof -
  note O = rb_okD [OF ok]
  note D = prov_invD [OF O(7)]
  obtain b sb e where b: "vblocks (lview l) x = Some (b, sb)" "vblocks (lview l) (previous b) = Some e"
    "entry_balance (b, sb) \<le> entry_balance e" "bal_at (core (lview l)) x = entry_balance (b, sb)"
    "bal_at (core (lview l)) (prev_at (core (lview l)) x) = entry_balance e"
    "account_at (core (lview l)) x = entry_account (b, sb)"
    by (rule sent_facts [OF O(6) D(8) s])
  have x: "x \<noteq> 0" "x \<noteq> genesis_account env"
    using D(5) [of x] b(1) O(5) by (auto simp: hash_apart_def)
  have "previous b \<noteq> 0" using b(2) no_block_zero [OF O(6)] by auto
  with b x show "ledger_amount env (store l) x =
      Some (bal_at (core (lview l)) (prev_at (core (lview l)) x) - bal_at (core (lview l)) x)"
    by (simp add: ledger_amount_def ledger_balance_def block_balance_def block_get_view not_less [symmetric])
  have "entry_account (b, sb) \<noteq> 0" using chain_inv_block [OF O(6) b(1)] by (simp add: block_inv_def)
  with b show "block_account (store l) x = Some (account_at (core (lview l)) x)"
    by (simp add: block_account_def entry_account_def Let_def)
qed

lemma own_reads:
  assumes "chain_inv (digest env) (lview l)" "last_block (lview l) a h b sb i"
  shows "block_account (store l) h = Some a" "account_get (store l) a = Some i"
  using last_block_facts [OF assms] by (simp_all add: block_account_def entry_account_def Let_def)

lemma rep_reads:
  assumes "seen_as v s" "chain_inv H v" "rep_at (vblocks v) h r"
  shows "ledger_representative H s h = Some r"
  by (rule rep_at_computed [OF assms(3,1) chain_hashes [OF assms(2)]])

lemma rolled_retract:
  assumes "vblocks v h \<noteq> None" "m \<le> rank h"
  shows "rolled rank m [h] v (vretract v a h b j pend wt)"
  using assms by (auto simp: rolled_def vretract_blocks)

lemma share_move:
  assumes "vblocks v rep = Some (rb, sbr)"
  shows "weight_add w (representative rb) (y - x) r =
    w r - rep_share (vblocks v) rep x r + rep_share (vblocks v) rep y r"
  using assms by (simp add: weight_add_def rep_share_def)

definition undone ::
  "env \<Rightarrow> network \<Rightarrow> (uint256 \<Rightarrow> nat) \<Rightarrow> (uint256 \<Rightarrow> uint128) \<Rightarrow> uint256 \<Rightarrow>
    rollback_state \<Rightarrow> rollback_state \<Rightarrow> bool" where
  "undone env n rank off h st st' \<longleftrightarrow> rb_ok env n rank off (fst st') \<and> keeps (fst st) (fst st') \<and>
     (\<exists>hs. snd st' = snd st @ hs \<and> rolled rank (rank h) (h # hs) (lview (fst st)) (lview (fst st')))"

lemma keeps_epoch: "keeps l l' \<Longrightarrow> epoch_link l' = epoch_link l"
  by (cases l; cases l') (simp add: keeps_def)

lemma undone_retract:
  assumes ok: "rb_ok env n rank off' l" and "seen_as (vretract (lview l) a h b j pend wt) (store l')"
    and "rb_inv (digest env) n rank off (vretract (lview l) a h b j pend wt)"
    and "vblocks (lview l) h \<noteq> None" "keeps l l'"
  shows "undone env n rank off h (l, list) (l', list)"
proof -
  have v: "lview l' = vretract (lview l) a h b j pend wt" "store_ok (store l')"
    using assms(2) by (simp_all add: seen_as_def)
  have "rb_ok env n rank off l'"
    unfolding rb_ok_def v(1) using v(2) assms(3) rb_okD(4,5) [OF ok] keeps_epoch [OF assms(5)] by simp
  moreover have "rolled rank (rank h) [h] (lview l) (lview l')"
    unfolding v(1) by (rule rolled_retract [OF assms(4) le_refl])
  ultimately show ?thesis using assms(5) by (auto simp: undone_def)
qed

lemma rollback_stat_keeps: "keeps l (rollback_stat (l\<lparr>store := s\<rparr>) d)" "store (rollback_stat (l\<lparr>store := s\<rparr>) d) = s"
  by (simp_all add: keeps_def rollback_stat_def)

lemma pending_before_simps:
  "pending_before h a (Some d) None p pend = pend(Pending_key d h := None)"
  "pending_before h a None (Some s) p pend = pend(Pending_key a s \<mapsto> p)"
  "pending_before h a None None p pend = pend"
  by (auto simp: pending_before_def fun_eq_iff)

text \<open>What the invariants say of a block that has received from \<open>src\<close>.\<close>

lemma receipt_facts:
  assumes ok: "rb_ok env n rank off l" and last: "last_block (lview l) a h b sb i"
    and r: "received_in n (core (lview l)) h = Some src"
  shows "sent (core (lview l)) src = Some a" "vpending (lview l) (Pending_key a src) = None"
    "info_balance i - bal_at (core (lview l)) (previous b) =
      bal_at (core (lview l)) (prev_at (core (lview l)) src) - bal_at (core (lview l)) src"
    "legacy b \<Longrightarrow> vversion (lview l) src = Epoch_0" "src \<noteq> 0"
proof -
  note O = rb_okD [OF ok]
  note D = prov_invD [OF O(7)] and lc = last_core [OF O(6) last]
  have rc: "receipt (core (lview l)) (vversion (lview l)) rank h src" by (rule D(9) [OF r])
  with lc show s: "sent (core (lview l)) src = Some a" 
    "info_balance i - bal_at (core (lview l)) (previous b) =
      bal_at (core (lview l)) (prev_at (core (lview l)) src) - bal_at (core (lview l)) src"
    "legacy b \<Longrightarrow> vversion (lview l) src = Epoch_0"
    by (simp_all add: receipt_def)
  show "vpending (lview l) (Pending_key a src) = None" using D(11) [OF s(1)] r by blast
  show "src \<noteq> 0" using D(5) [of src] sent_stored [OF s(1)] by (auto simp: hash_apart_def)
qed

lemma visit_receive:
  assumes ok: "rb_ok env n rank off l" and last: "last_block (lview l) a h (Receive_block b) sb i"
    and hg: "h \<noteq> net_genesis n"
  shows "succeeds (rollback_receive_block env (l, list) b) (undone env n rank off h (l, list))"
proof -
  note O = rb_okD [OF ok]
  note f = last_block_facts [OF O(6) last] and lc = last_core [OF O(6) last]
  let ?src = "receive_source (hashables b)" and ?p = "receive_previous (hashables b)"
  let ?amount = "info_balance i - bal_at (core (lview l)) ?p"
  have r: "received_in n (core (lview l)) h = Some ?src" using lc(1) hg by (simp add: received_def)
  note src = receipt_facts [OF ok last r]
  have rep: "rep_at (vblocks (lview l)) ?p (rep_block i)"
    using f(9) f(3) by cases auto
  have prev: "previous (Receive_block b) \<noteq> 0"
    using rep no_block_zero [OF O(6)] by (auto elim: rep_at.cases)
  obtain rb sbr where rb: "vblocks (lview l) (rep_block i) = Some (rb, sbr)"
    using rep_at_stored [OF f(9)] by auto
  let ?q = "\<lparr>pending_source = account_at (core (lview l)) ?src, pending_amount = ?amount, pending_epoch = Epoch_0\<rparr>"
  let ?v = "vretract (lview l) a h (Receive_block b)
    (retracted_info (lview l) (now env) i (rep_block i) (Receive_block b))
    ((vpending (lview l))(Pending_key a ?src \<mapsto> ?q)) (weight_add (vweight (lview l)) (representative rb) (0 - ?amount))"
  have inv: "rb_inv (digest env) n rank off ?v"
    unfolding pending_before_simps(2) [of h a ?src, symmetric]
  proof (rule rb_inv_retract [OF O(2) last hg])
    show "weight_add (vweight (lview l)) (representative rb) (0 - ?amount) r =
        delegated (lview l) r - rep_share (vblocks (lview l)) (rep_block i) (info_balance i) r +
        (if previous (Receive_block b) = 0 then 0 else rep_share (vblocks (lview l)) (rep_block i)
          (bal_at (core (lview l)) (previous (Receive_block b))) r) + off r" for r
      using share_move [OF rb, of "vweight (lview l)" "bal_at (core (lview l)) ?p" "info_balance i" r]
        rb_invD(3) [OF O(2)] prev by simp
  qed (use rep src(4) in \<open>simp_all add: legacy_def\<close>)
  obtain s1 bal s2 s3 s4 s5 s' where run: "representation_add (store l) (rep_block i) (0 - ?amount) = Some s1"
    "ledger_balance s1 ?p = Some bal"
    "change_latest (now env) s1 a ?p (rep_block i) bal (block_count i - 1) Epoch_0 = Some s2"
    "block_del s2 h = Some s3" "pending_put s3 (Pending_key a ?src) ?q = Some s4" "frontier_del s4 h = Some s5"
    "block_successor_clear (frontier_put s5 ?p a) ?p = Some s'" and s': "seen_as ?v s'"
    using receive_undo [OF O(3,6) last rb, where k = "Pending_key a ?src" and q = ?q and
        rep = "rep_block i" and d = "0 - ?amount"] src prev
    by (auto simp: succeeds_def bind_eq_Some_conv)
  note reads = source_reads [OF ok src(1), folded src(3)] own_reads [OF O(6) last]
    rep_reads [OF O(3,6) rep] rep_reads [OF O(3,6) f(9)]
  have "rollback_receive_block env (l, list) b = Some (rollback_stat (l\<lparr>store := s'\<rparr>) Sd_receive, list)"
    using run reads f(10) by (simp add: rollback_receive_block_def)
  then show ?thesis
    using undone_retract [OF ok _ inv _ rollback_stat_keeps(1)] s' f(3) rollback_stat_keeps(2) by simp
qed

lemma visit_open:
  assumes ok: "rb_ok env n rank off l" and last: "last_block (lview l) a h (Open_block b) sb i"
    and hg: "h \<noteq> net_genesis n"
  shows "succeeds (rollback_open_block env (l, list) b) (undone env n rank off h (l, list))"
proof -
  note O = rb_okD [OF ok]
  note f = last_block_facts [OF O(6) last] and lc = last_core [OF O(6) last]
  let ?src = "open_source (hashables b)"
  have r: "received_in n (core (lview l)) h = Some ?src" using lc(1) hg by (simp add: received_def)
  note src = receipt_facts [OF ok last r]
  have zero: "bal_at (core (lview l)) 0 = 0"
    using no_block_zero [OF O(6)] by (simp add: bal_at_def core_def)
  have rep: "rep_block i = h" using f(9) f(3) by cases auto
  let ?q = "\<lparr>pending_source = account_at (core (lview l)) ?src, pending_amount = info_balance i, pending_epoch = Epoch_0\<rparr>"
  let ?v = "vretract (lview l) a h (Open_block b) (retracted_info (lview l) (now env) i 0 (Open_block b))
    ((vpending (lview l))(Pending_key a ?src \<mapsto> ?q))
    (weight_add (vweight (lview l)) (open_representative (hashables b)) (0 - info_balance i))"
  have inv: "rb_inv (digest env) n rank off ?v"
    unfolding pending_before_simps(2) [of h a ?src, symmetric]
  proof (rule rb_inv_retract [OF O(2) last hg])
    show "weight_add (vweight (lview l)) (open_representative (hashables b)) (0 - info_balance i) r =
        delegated (lview l) r - rep_share (vblocks (lview l)) (rep_block i) (info_balance i) r +
        (if previous (Open_block b) = 0 then 0 else rep_share (vblocks (lview l)) 0
          (bal_at (core (lview l)) (previous (Open_block b))) r) + off r" for r
      using share_move [OF f(3), of "vweight (lview l)" 0 "info_balance i" r] rb_invD(3) [OF O(2)]
      by (simp add: rep)
  qed (use src(4) zero in \<open>simp_all add: legacy_def\<close>)
  obtain s1 s2 s3 s4 s' where run: "representation_add (store l) h (0 - info_balance i) = Some s1"
    "change_latest (now env) s1 a 0 0 0 0 Epoch_0 = Some s2" "block_del s2 h = Some s3"
    "pending_put s3 (Pending_key a ?src) ?q = Some s4" "frontier_del s4 h = Some s'" and s': "seen_as ?v s'"
    using open_undo [OF O(3,6) last, where k = "Pending_key a ?src" and q = ?q and d = "0 - info_balance i"
        and rep = 0] src by (auto simp: succeeds_def bind_eq_Some_conv)
  note reads = source_reads [OF ok src(1), folded src(3)] own_reads [OF O(6) last]
    rep_reads [OF O(3,6) f(9), unfolded rep]
  have "rollback_open_block env (l, list) b = Some (rollback_stat (l\<lparr>store := s'\<rparr>) Sd_open, list)"
    using run reads f(10) by (simp add: rollback_open_block_def zero)
  then show ?thesis
    using undone_retract [OF ok _ inv _ rollback_stat_keeps(1)] s' f(3) rollback_stat_keeps(2) by simp
qed

lemma rep_at_exists: "chain_inv H v \<Longrightarrow> vblocks v h = Some (b, sb) \<Longrightarrow> \<exists>r. rep_at (vblocks v) h r"
  using chain_inv_block [of H v h b sb] by (auto simp: block_inv_def)

lemma first_type:
  assumes "chain_inv H v" "vblocks v h = Some (b, sb)" "previous b = 0"
  shows "type_of b \<in> {Bt_open, Bt_state}"
  using chain_inv_block [OF assms(1,2)] assms(3) unfolding block_inv_def by blast

lemma visit_change:
  assumes ok: "rb_ok env n rank off l" and last: "last_block (lview l) a h (Change_block b) sb i"
    and hg: "h \<noteq> net_genesis n"
  shows "succeeds (rollback_change_block env (l, list) b) (undone env n rank off h (l, list))"
proof -
  note O = rb_okD [OF ok]
  note f = last_block_facts [OF O(6) last] and lc = last_core [OF O(6) last]
  let ?p = "change_previous (hashables b)"
  have bal: "info_balance i = bal_at (core (lview l)) ?p"
    using prov_invD(13) [OF O(7), of h] lc hg by (simp add: sent_def received_def)
  have prev: "previous (Change_block b) \<noteq> 0"
    using first_type [OF O(6) f(3)] by auto
  have legacy: "legacy (Change_block b)" by (simp add: legacy_def)
  obtain c sc where c: "vblocks (lview l) ?p = Some (c, sc)" "entry_account (c, sc) = a"
    using legacy_previous [OF O(6) last legacy prev] unfolding previous.simps by metis
  obtain rep where rep: "rep_at (vblocks (lview l)) ?p rep" using rep_at_exists [OF O(6) c(1)] by blast
  obtain rb sbr where rb: "vblocks (lview l) rep = Some (rb, sbr)" using rep_at_stored [OF rep] by auto
  have own: "rep_block i = h" using f(9) f(3) by cases auto
  let ?wt = "weight_add (weight_add (vweight (lview l)) (representative rb) (info_balance i))
    (change_representative (hashables b)) (0 - info_balance i)"
  let ?v = "vretract (lview l) a h (Change_block b)
    (retracted_info (lview l) (now env) i rep (Change_block b)) (vpending (lview l)) ?wt"
  have "rb_inv (digest env) n rank off (vretract (lview l) a h (Change_block b)
      (retracted_info (lview l) (now env) i rep (Change_block b))
      (pending_before h a None None undefined (vpending (lview l))) ?wt)"
  proof (rule rb_inv_retract [OF O(2) last hg])
    show "?wt r = delegated (lview l) r - rep_share (vblocks (lview l)) (rep_block i) (info_balance i) r +
        (if previous (Change_block b) = 0 then 0 else rep_share (vblocks (lview l)) rep
          (bal_at (core (lview l)) (previous (Change_block b))) r) + off r" for r
      using share_move [OF rb, of "vweight (lview l)" "info_balance i" 0 r]
        share_move [OF f(3), of "weight_add (vweight (lview l)) (representative rb) (info_balance i)" 0 "info_balance i" r]
        rb_invD(3) [OF O(2)] prev bal by (simp add: own)
  qed (use rep in simp_all)
  then have inv: "rb_inv (digest env) n rank off ?v" unfolding pending_before_simps(3) .
  obtain s1 s2 s3 s4 s5 s' where run: "representation_add (store l) rep (info_balance i) = Some s1"
    "representation_add s1 h (0 - info_balance i) = Some s2" "block_del s2 h = Some s3"
    "change_latest (now env) s3 a ?p rep (info_balance i) (block_count i - 1) Epoch_0 = Some s4"
    "frontier_del s4 h = Some s5" "block_successor_clear (frontier_put s5 ?p a) ?p = Some s'" and s': "seen_as ?v s'"
    using change_undo [OF O(3,6) last rb bal prev, where d = "info_balance i" and d' = "0 - info_balance i"]
    by (auto simp: succeeds_def bind_eq_Some_conv)
  have "block_account (store l) ?p = Some a" "ledger_balance (store l) ?p = Some (info_balance i)"
    using c f(12) prev bal
    by (simp_all add: block_account_def entry_account_def ledger_balance_def block_balance_def bal_at_def core_def)
  note reads = this own_reads(2) [OF O(6) last] rep_reads [OF O(3,6) rep]
  have "rollback_change_block env (l, list) b = Some (rollback_stat (l\<lparr>store := s'\<rparr>) Sd_change, list)"
    using run reads f(10) by (simp add: rollback_change_block_def)
  then show ?thesis
    using undone_retract [OF ok _ inv _ rollback_stat_keeps(1)] s' f(3) rollback_stat_keeps(2) by simp
qed

section \<open>Blocks that wait for their send to be pending\<close>

definition above :: "(uint256 \<Rightarrow> nat) \<Rightarrow> view \<Rightarrow> uint256 \<Rightarrow> nat" where
  "above rank v h = card {z \<in> dom (vblocks v). rank h < rank z}"

definition waited ::
  "env \<Rightarrow> network \<Rightarrow> (uint256 \<Rightarrow> nat) \<Rightarrow> (uint256 \<Rightarrow> uint128) \<Rightarrow> uint256 \<Rightarrow> uint256 \<Rightarrow>
    rollback_state \<Rightarrow> rollback_state \<Rightarrow> bool" where
  "waited env n rank off d h st st' \<longleftrightarrow> rb_ok env n rank off (fst st') \<and> keeps (fst st) (fst st') \<and>
     (\<exists>hs. snd st' = snd st @ hs \<and> rolled rank (Suc (rank h)) hs (lview (fst st)) (lview (fst st'))) \<and>
     vpending (lview (fst st')) (Pending_key d h) \<noteq> None"

definition wait_ok :: "env \<Rightarrow> network \<Rightarrow> (uint256 \<Rightarrow> nat) \<Rightarrow> nat \<Rightarrow> uint256 \<Rightarrow> rollback_wait \<Rightarrow> bool" where
  "wait_ok env n rank m h w \<longleftrightarrow> (\<forall>off l list a b sb i d. rb_ok env n rank off l \<longrightarrow>
     above rank (lview l) h \<le> m \<longrightarrow> last_block (lview l) a h b sb i \<longrightarrow> sent (core (lview l)) h = Some d \<longrightarrow>
     succeeds (w (Pending_key d h) d (l, list)) (waited env n rank off d h (l, list)))"

lemma rolled_last:
  assumes inv: "chain_inv H v'" and last: "last_block v a h b sb i" and chain: "chain_inv H v"
    and r: "rolled rank m hs v v'" "rank h < m"
  obtains i' where "last_block v' a h b sb i'" "block_count i' = block_count i"
proof -
  note f = last_block_facts [OF chain last]
  have "h \<notin> set hs" using r unfolding rolled_def by auto
  then have "vblocks v' h = Some (b, sb) \<or> vblocks v' h = Some (b, sb\<lparr>successor := 0\<rparr>)"
    by (rule rolled_at [OF r(1) f(3)])
  moreover have "sb\<lparr>successor := 0\<rparr> = sb" using f(5) by (cases sb) simp
  ultimately have h: "vblocks v' h = Some (b, sb)" by simp
  obtain i' where i': "vaccounts v' a = Some i'" "head i' = h"
    using chain_inv_block [OF inv h] f(4,5) unfolding block_inv_def by auto
  then have "last_block v' a h b sb i'" using h by (simp add: last_block_def)
  moreover from last_block_facts(7) [OF inv this] f(7) have "block_count i' = block_count i" by simp
  ultimately show ?thesis by (rule that)
qed

lemma waited_last:
  assumes w: "waited env n rank off d h (l, list) (l1, list1)" and ok: "rb_ok env n rank off l"
    and last: "last_block (lview l) a h b sb i"
  obtains i1 where "last_block (lview l1) a h b sb i1" "block_count i1 = block_count i"
proof -
  obtain hs where r: "rolled rank (Suc (rank h)) hs (lview l) (lview l1)" and ok1: "rb_ok env n rank off l1"
    using w by (auto simp: waited_def)
  show ?thesis
    by (rule rolled_last [OF rb_okD(6) [OF ok1] last rb_okD(6) [OF ok] r]) (auto intro: that)
qed

lemma undone_after_wait:
  assumes w: "waited env n rank off d h (l, list) (l1, list1)"
    and u: "undone env n rank off' h (l1, list1) (l2, list1)"
  shows "undone env n rank off' h (l, list) (l2, list1)"
proof -
  obtain hs where hs: "list1 = list @ hs" "rolled rank (Suc (rank h)) hs (lview l) (lview l1)"
    using w by (auto simp: waited_def)
  have h: "rolled rank (rank h) [h] (lview l1) (lview l2)" using u by (auto simp: undone_def)
  have r: "rolled rank (rank h) (hs @ [h]) (lview l) (lview l2)"
    using rolled_trans [OF rolled_mono [OF hs(2)] h] by simp
  then have "rolled rank (rank h) (h # hs) (lview l) (lview l2)" by (auto simp: rolled_def)
  moreover have "keeps l l2" using keeps_trans w u by (auto simp: waited_def undone_def)
  ultimately show ?thesis using u hs(1) by (auto simp: undone_def)
qed

lemma visit_send:
  assumes ok: "rb_ok env n rank off l" and last: "last_block (lview l) a h (Send_block b) sb i"
    and hg: "h \<noteq> net_genesis n" and wait: "wait_ok env n rank (above rank (lview l) h) h w"
  shows "succeeds (rollback_send_block w env (l, list) b) (undone env n rank off h (l, list))"
proof -
  let ?k = "Pending_key (send_destination (hashables b)) h" and ?p = "send_previous (hashables b)"
  have s: "sent (core (lview l)) h = Some (send_destination (hashables b))"
    using last_core(1) [OF rb_okD(6) [OF ok] last] by (simp add: sent_def)
  obtain l1 list1 where st: "w ?k (send_destination (hashables b)) (l, list) = Some (l1, list1)"
    and w: "waited env n rank off (send_destination (hashables b)) h (l, list) (l1, list1)"
    using wait ok last s unfolding wait_ok_def succeeds_def by (metis le_refl surj_pair)
  have ok1: "rb_ok env n rank off l1" using w by (simp add: waited_def)
  note O = rb_okD [OF ok1]
  obtain i1 where last1: "last_block (lview l1) a h (Send_block b) sb i1"
    by (rule waited_last [OF w ok last])
  note f = last_block_facts [OF O(6) last1] and lc = last_core [OF O(6) last1]
  obtain pd where pd: "vpending (lview l1) ?k = Some pd" using w by (auto simp: waited_def)
  have amount: "pending_amount pd = bal_at (core (lview l1)) ?p - info_balance i1"
    using pending_provenance(1) [OF O(6) pd] lc by simp
  have src: "pending_source pd = a" using chain_inv_pending [OF O(6) pd] f(3,4) by (auto simp: pending_inv_def)
  have rep: "rep_at (vblocks (lview l1)) ?p (rep_block i1)" using f(9) f(3) by cases auto
  have prev: "previous (Send_block b) \<noteq> 0" using first_type [OF O(6) f(3)] by auto
  obtain rb sbr where rb: "vblocks (lview l1) (rep_block i1) = Some (rb, sbr)"
    using rep_at_stored [OF f(9)] by auto
  let ?v = "vretract (lview l1) a h (Send_block b)
    (retracted_info (lview l1) (now env) i1 (rep_block i1) (Send_block b))
    ((vpending (lview l1))(?k := None)) (weight_add (vweight (lview l1)) (representative rb) (pending_amount pd))"
  have inv: "rb_inv (digest env) n rank off ?v"
    unfolding pending_before_simps(1) [where a = a and p = undefined, symmetric]
  proof (rule rb_inv_retract [OF O(2) last1 hg])
    show "weight_add (vweight (lview l1)) (representative rb) (pending_amount pd) r =
        delegated (lview l1) r - rep_share (vblocks (lview l1)) (rep_block i1) (info_balance i1) r +
        (if previous (Send_block b) = 0 then 0 else rep_share (vblocks (lview l1)) (rep_block i1)
          (bal_at (core (lview l1)) (previous (Send_block b))) r) + off r" for r
      using share_move [OF rb, of "vweight (lview l1)" "bal_at (core (lview l1)) ?p" "info_balance i1" r]
        rb_invD(3) [OF O(2)] prev by (simp add: amount)
  qed (use rep pd in simp_all)
  obtain s' where "succeeds (rollback_send_block w env (l, list) b)
      (\<lambda>st. st = (rollback_stat (l1\<lparr>store := s'\<rparr>) Sd_send, list1))" and s': "seen_as ?v s'"
    using send_undo [OF O(3,6) last1 rb refl _ prev, where d = "pending_amount pd"] pd st src f(1) f(10)
    by (auto simp: succeeds_def bind_eq_Some_conv rollback_send_block_def)
  then show ?thesis
    using undone_after_wait [OF w undone_retract [OF ok1 _ inv _ rollback_stat_keeps(1)]] f(3)
      rollback_stat_keeps(2) by (auto simp: succeeds_def)
qed

text \<open>A state block writes the weights first; the invariant then holds up to that change.\<close>

lemma chain_inv_weight: "chain_inv H (v\<lparr>vweight := w\<rparr>) = chain_inv H v"
  by (simp add: chain_inv_def block_inv_def account_inv_def frontier_inv_def pending_inv_def)

lemma core_weight [simp]: "core (v\<lparr>vweight := w\<rparr>) = core v"
  by (simp add: core_def fun_eq_iff)

lemma rb_inv_weight:
  assumes "rb_inv H n rank off v" "\<And>r. w r = vweight v r + d r"
  shows "rb_inv H n rank (\<lambda>r. off r + d r) (v\<lparr>vweight := w\<rparr>)"
  using assms
  by (simp add: rb_inv_def chain_inv_weight supply_inv_def total_supply_def delegated_def)

lemma last_block_weight [simp]: "last_block (v\<lparr>vweight := w\<rparr>) a h b sb i = last_block v a h b sb i"
  by (simp add: last_block_def)

lemma rolled_weight [simp]: "rolled rank m hs (v\<lparr>vweight := w\<rparr>) v' = rolled rank m hs v v'"
  by (simp add: rolled_def)

lemma above_weight [simp]: "above rank (v\<lparr>vweight := w\<rparr>) h = above rank v h"
  by (simp add: above_def)

definition state_shift :: "view \<Rightarrow> uint256 \<Rightarrow> uint256 \<Rightarrow> state_hashables signed \<Rightarrow> uint256 \<Rightarrow> uint128" where
  "state_shift v h rep b r =
     (if state_previous (hashables b) = 0 then 0
      else rep_share (vblocks v) rep (bal_at (core v) (state_previous (hashables b))) r) -
     rep_share (vblocks v) h (state_balance (hashables b)) r"

lemma state_last_facts:
  assumes chain: "chain_inv H v" and last: "last_block v a h (State_block b) sb i"
  shows "state_account (hashables b) = a" "info_balance i = state_balance (hashables b)" "rep_block i = h"
proof -
  note f = last_block_facts [OF assms]
  show "info_balance i = state_balance (hashables b)" using f(6) by (simp add: entry_balance_def)
  show "rep_block i = h" using f(9) f(3) by cases auto
  have "state_account (hashables b) \<noteq> 0"
    using chain_inv_block [OF chain f(3)] unfolding block_inv_def by auto
  then show "state_account (hashables b) = a" using f(4) by (simp add: entry_account_def)
qed

lemma state_finish:
  assumes ok: "rb_ok env n rank off' l" and last: "last_block (lview l) a h (State_block b) sb i"
    and hg: "h \<noteq> net_genesis n" and count: "block_count info = block_count i"
    and S: "S = sent_by (bal_at (core (lview l)) (state_previous (hashables b))) (State_block b)"
    and R: "R = received_by (net_epoch_link n) (bal_at (core (lview l)) (state_previous (hashables b))) (State_block b)"
    and pending: "\<And>d. S = Some d \<Longrightarrow> vpending (lview l) (Pending_key d h) \<noteq> None"
    and p: "\<And>s. R = Some s \<Longrightarrow> p = \<lparr>pending_source = account_at (core (lview l)) s,
      pending_amount = info_balance i - bal_at (core (lview l)) (state_previous (hashables b)),
      pending_epoch = vversion (lview l) s\<rparr>"
    and rep: "state_previous (hashables b) \<noteq> 0 \<Longrightarrow> rep_at (vblocks (lview l)) (state_previous (hashables b)) rep"
    and off: "\<And>r. off' r = off r + state_shift (lview l) h rep b r"
    and at: "seen_as ((lview l)\<lparr>vpending := pending_before h a S R p (vpending (lview l))\<rparr>) (store l1)" "keeps l l1"
    and bal: "balance = bal_at (core (lview l)) (state_previous (hashables b))"
  shows "succeeds (rollback_state_unlink env l1 info rep balance b)
    (\<lambda>l2. undone env n rank off h (l, list) (l2, list))"
proof -
  note O = rb_okD [OF ok]
  note f = last_block_facts [OF O(6) last] and sf = state_last_facts [OF O(6) last]
  let ?v = "vretract (lview l) a h (State_block b) (retracted_info (lview l) (now env) i rep (State_block b))
    (pending_before h a S R p (vpending (lview l))) (vweight (lview l))"
  have inv: "rb_inv (digest env) n rank off ?v"
  proof (rule rb_inv_retract [OF O(2) last hg])
    show "vweight (lview l) r =
        delegated (lview l) r - rep_share (vblocks (lview l)) (rep_block i) (info_balance i) r +
        (if previous (State_block b) = 0 then 0 else rep_share (vblocks (lview l)) rep
          (bal_at (core (lview l)) (previous (State_block b))) r) + off r" for r
      using rb_invD(3) [OF O(2), of r] off [of r] by (simp add: state_shift_def sf)
  qed (use rep p S R pending in simp_all)
  have "succeeds (rollback_state_unlink env l1 info rep balance b) (ledger_step ?v l1)"
    by (rule state_unlink [OF at(1) O(6) last count bal f(10) sf(1)])
  then show ?thesis
    using undone_retract [OF ok _ inv, of _ list] f(3) keeps_trans [OF at(2)]
    by (auto simp: succeeds_def ledger_step_def keeps_def [symmetric])
qed

lemma rolled_old: "rolled rank m hs v v' \<Longrightarrow> rank x < m \<Longrightarrow> x \<notin> set hs"
  unfolding rolled_def by (meson not_le)

lemma rolled_core:
  assumes "rolled rank m hs v v'" "rank x < m"
  shows "core v' x = core v x"
proof (cases "vblocks v x")
  case None
  then show ?thesis using rolled_gone [OF assms(1), of x] by (simp add: core_def)
next
  case (Some e)
  obtain b sb where "e = (b, sb)" by (cases e)
  then show ?thesis
    using Some rolled_at [OF assms(1), of x b sb] rolled_old [OF assms] by (auto simp: core_def)
qed

lemma rolled_share:
  assumes "rolled rank m hs v v'" "rank x < m"
  shows "rep_share (vblocks v') x y r = rep_share (vblocks v) x y r"
proof (cases "vblocks v x")
  case None
  then show ?thesis using rolled_gone [OF assms(1), of x] by (simp add: rep_share_def)
next
  case (Some e)
  obtain b sb where "e = (b, sb)" by (cases e)
  then show ?thesis
    using Some rolled_at [OF assms(1), of x b sb] rolled_old [OF assms] by (auto simp: rep_share_def)
qed

lemma rolled_rep_at:
  assumes "rolled rank m hs v v'" "ranked g (core v) rank" "chain_inv H v"
    and "rep_at (vblocks v) x r" "rank x < m"
  shows "rep_at (vblocks v') x r \<and> rank r < m"
  using assms(4,5)
proof induction
  case (rep_here x b sb)
  then obtain sb' where "vblocks v' x = Some (b, sb')"
    using rolled_at [OF assms(1)] rolled_old [OF assms(1)] by blast
  then show ?case using rep_here rep_at.rep_here by blast
next
  case (rep_back x b sb r)
  then obtain sb' where v': "vblocks v' x = Some (b, sb')"
    using rolled_at [OF assms(1)] rolled_old [OF assms(1)] by blast
  have "previous b \<noteq> 0" using first_type [OF assms(3) rep_back(1)] rep_back(2) by auto
  from ranked_previous [OF assms(2) rep_back(1) this]
  show ?case using rep_back v' rep_at.rep_back by (meson less_trans)
qed

text \<open>The writes of a state block that come first.\<close>

lemma state_weights:
  assumes ok: "rb_ok env n rank off l" and last: "last_block (lview l) a h (State_block b) sb i"
  obtains rep s1 s2 w where
    "(if state_previous (hashables b) \<noteq> 0
      then ledger_representative (digest env) (store l) (state_previous (hashables b)) else Some 0) = Some rep"
    "state_previous (hashables b) \<noteq> 0 \<Longrightarrow> rep_at (vblocks (lview l)) (state_previous (hashables b)) rep"
    "representation_add (store l) h (0 - state_balance (hashables b)) = Some s1"
    "(if rep \<noteq> 0 then representation_add s1 rep (bal_at (core (lview l)) (state_previous (hashables b)))
      else Some s1) = Some s2"
    "seen_as ((lview l)\<lparr>vweight := w\<rparr>) s2" "\<And>r. w r = vweight (lview l) r + state_shift (lview l) h rep b r"
proof -
  note O = rb_okD [OF ok]
  note f = last_block_facts [OF O(6) last]
  let ?p = "state_previous (hashables b)" and ?x = "state_balance (hashables b)"
  let ?w1 = "weight_add (vweight (lview l)) (representative (State_block b)) (0 - ?x)"
  have "succeeds (representation_add (store l) h (0 - ?x)) (seen_as ((lview l)\<lparr>vweight := ?w1\<rparr>))"
    by (rule simulatesD [OF simulates_representation_add [OF O(3)]])
      (use f(3) in \<open>simp add: spec_representation_add_def\<close>)
  then obtain s1 where s1: "representation_add (store l) h (0 - ?x) = Some s1"
    "seen_as ((lview l)\<lparr>vweight := ?w1\<rparr>) s1"
    by (rule succeedsE)
  have w1: "?w1 r = vweight (lview l) r - rep_share (vblocks (lview l)) h ?x r" for r
    using share_move [OF f(3), of "vweight (lview l)" 0 ?x r] by simp
  show ?thesis
  proof (cases "?p = 0")
    case True
    then show ?thesis using that [of 0 s1 s1 ?w1] s1 w1 by (simp add: state_shift_def)
  next
    case False
    obtain c sc where c: "vblocks (lview l) ?p = Some (c, sc)"
      using state_previous_entry [OF O(6) last False] by blast
    obtain rep where rep: "rep_at (vblocks (lview l)) ?p rep" using rep_at_exists [OF O(6) c] by blast
    obtain rb sbr where rb: "vblocks (lview l) rep = Some (rb, sbr)" using rep_at_stored [OF rep] by auto
    let ?y = "bal_at (core (lview l)) ?p"
    let ?w2 = "weight_add ?w1 (representative rb) ?y"
    have "succeeds (representation_add s1 rep ?y) (seen_as ((lview l)\<lparr>vweight := ?w2\<rparr>))"
      by (rule simulatesD [OF simulates_representation_add [OF s1(2)]])
        (use rb in \<open>simp add: spec_representation_add_def\<close>)
    then obtain s2 where s2: "representation_add s1 rep ?y = Some s2" "seen_as ((lview l)\<lparr>vweight := ?w2\<rparr>) s2"
      by (rule succeedsE)
    have "?w2 r = vweight (lview l) r + state_shift (lview l) h rep b r" for r
      using share_move [OF rb, of ?w1 ?y 0 r] w1 [of r] False by (simp add: state_shift_def)
    moreover have "rep \<noteq> 0" using rb no_block_zero [OF O(6)] by auto
    ultimately show ?thesis
      using that [of rep s1 s2 ?w2] s1(1) s2 rep False rep_reads [OF O(3,6) rep] by simp
  qed
qed

lemma state_undo_send:
  assumes ok: "rb_ok env n rank off' l" and last: "last_block (lview l) a h (State_block b) sb i"
    and hg: "h \<noteq> net_genesis n" and wait: "wait_ok env n rank (above rank (lview l) h) h w"
    and rep: "state_previous (hashables b) \<noteq> 0 \<Longrightarrow> rep_at (vblocks (lview l)) (state_previous (hashables b)) rep"
    and off: "\<And>r. off' r = off r + state_shift (lview l) h rep b r"
    and bal: "balance = bal_at (core (lview l)) (state_previous (hashables b))"
    and neg: "state_balance (hashables b) < balance"
  shows "succeeds (do {
      (l1, list) \<leftarrow> rollback_state_pending w env (l, list) balance b;
      l2 \<leftarrow> rollback_state_unlink env l1 i rep balance b;
      Some (l2, list) }) (undone env n rank off h (l, list))"
proof -
  let ?d = "state_link (hashables b)" and ?p = "state_previous (hashables b)"
  note O = rb_okD [OF ok]
  have s: "sent (core (lview l)) h = Some ?d"
    using last_core(1) [OF O(6) last] neg bal by (simp add: sent_def)
  obtain l1 list1 where st: "w (Pending_key ?d h) ?d (l, list) = Some (l1, list1)"
    and w: "waited env n rank off' ?d h (l, list) (l1, list1)"
    using wait ok last s unfolding wait_ok_def succeeds_def by (metis le_refl surj_pair)
  have ok1: "rb_ok env n rank off' l1" and pd: "vpending (lview l1) (Pending_key ?d h) \<noteq> None"
    using w by (auto simp: waited_def)
  obtain hs where r: "rolled rank (Suc (rank h)) hs (lview l) (lview l1)" using w by (auto simp: waited_def)
  note O1 = rb_okD [OF ok1]
  obtain i1 where last1: "last_block (lview l1) a h (State_block b) sb i1" and count: "block_count i = block_count i1"
    by (rule waited_last [OF w ok last]) auto
  have p0: "?p \<noteq> 0" using neg bal no_block_zero [OF O(6)] by (auto simp: bal_at_def core_def)
  have rp: "rank ?p < Suc (rank h)"
    using ranked_previous [OF prov_invD(7) [OF O(7)] last_block_facts(3) [OF O(6) last]] p0 by simp
  note rep1 = rolled_rep_at [OF r prov_invD(7) [OF O(7)] O(6) rep [OF p0] rp]
  have same: "bal_at (core (lview l1)) ?p = balance" using rolled_core [OF r rp] by (simp add: bal bal_at_def)
  have shift: "state_shift (lview l1) h rep b r' = state_shift (lview l) h rep b r'" for r'
    using rolled_share [OF r] rep1 by (simp add: state_shift_def same bal)
  obtain s' where s': "pending_del (store l1) (Pending_key ?d h) = Some s'"
    "seen_as ((lview l1)\<lparr>vpending := (vpending (lview l1))(Pending_key ?d h := None)\<rparr>) s'"
    by (rule succeedsE [OF simulatesD [OF simulates_pending_del [OF O1(3)]]])
      (use pd in \<open>simp_all add: spec_pending_del_def\<close>)
  have pend: "rollback_state_pending w env (l, list) balance b =
      Some (rollback_stat (l1\<lparr>store := s'\<rparr>) Sd_send, list1)"
    using st s'(1) neg last_block_facts(10) [OF O(6) last] by (simp add: rollback_state_pending_def Let_def)
  have "succeeds (rollback_state_unlink env (rollback_stat (l1\<lparr>store := s'\<rparr>) Sd_send) i rep balance b)
      (\<lambda>l2. undone env n rank off h (l1, list1) (l2, list1))"
    by (rule state_finish [OF ok1 last1 hg count, where S = "Some ?d" and R = None and p = undefined])
      (use neg same pd rep1 off shift s'(2) in
        \<open>simp_all add: pending_before_simps rollback_stat_keeps\<close>)
  then show ?thesis using pend undone_after_wait [OF w] by (auto simp: succeeds_def)
qed

lemma state_undo_other:
  assumes ok: "rb_ok env n rank off' l" and last: "last_block (lview l) a h (State_block b) sb i"
    and hg: "h \<noteq> net_genesis n"
    and rep: "state_previous (hashables b) \<noteq> 0 \<Longrightarrow> rep_at (vblocks (lview l)) (state_previous (hashables b)) rep"
    and off: "\<And>r. off' r = off r + state_shift (lview l) h rep b r"
    and bal: "balance = bal_at (core (lview l)) (state_previous (hashables b))"
    and pos: "\<not> state_balance (hashables b) < balance"
  shows "succeeds (do {
      (l1, list) \<leftarrow> rollback_state_pending w env (l, list) balance b;
      l2 \<leftarrow> rollback_state_unlink env l1 i rep balance b;
      Some (l2, list) }) (undone env n rank off h (l, list))"
proof (cases "state_link (hashables b) \<noteq> 0 \<and> \<not> is_epoch_link l (state_link (hashables b))")
  case True
  let ?src = "state_link (hashables b)"
  note O = rb_okD [OF ok]
  note f = last_block_facts [OF O(6) last] and sf = state_last_facts [OF O(6) last]
  have r: "received_in n (core (lview l)) h = Some ?src"
    using last_core(1) [OF O(6) last] hg pos bal True O(4) by (simp add: received_def is_epoch_link_def)
  note src = receipt_facts [OF ok last r]
  let ?q = "\<lparr>pending_source = account_at (core (lview l)) ?src,
    pending_amount = state_balance (hashables b) - balance, pending_epoch = vversion (lview l) ?src\<rparr>"
  have e: "vversion (lview l) ?src \<in> {Epoch_0, Epoch_1}"
    using sent_stored [OF src(1)] chain_inv_block [OF O(6), of ?src] by (auto simp: block_inv_def)
  have "spec_pending_put (lview l) (Pending_key a ?src) ?q =
      Some ((lview l)\<lparr>vpending := (vpending (lview l))(Pending_key a ?src \<mapsto> ?q)\<rparr>)"
    using src(2) e by (simp add: spec_pending_put_def)
  from simulatesD [OF simulates_pending_put [OF O(3)] this]
  obtain s' where s': "pending_put (store l) (Pending_key a ?src) ?q = Some s'"
    "seen_as ((lview l)\<lparr>vpending := (vpending (lview l))(Pending_key a ?src \<mapsto> ?q)\<rparr>) s'"
    by (rule succeedsE)
  have pend: "rollback_state_pending w env (l, list) balance b =
      Some (rollback_stat (l\<lparr>store := s'\<rparr>) Sd_receive, list)"
    using s'(1) pos True source_reads(2) [OF ok src(1)] sf(1) by (simp add: rollback_state_pending_def Let_def)
  have "succeeds (rollback_state_unlink env (rollback_stat (l\<lparr>store := s'\<rparr>) Sd_receive) i rep balance b)
      (\<lambda>l2. undone env n rank off h (l, list) (l2, list))"
    by (rule state_finish [OF ok last hg refl, where S = None and R = "Some ?src" and p = ?q])
      (use pos bal True O(4) sf rep off s'(2) in
        \<open>simp_all add: pending_before_simps rollback_stat_keeps is_epoch_link_def\<close>)
  then show ?thesis using pend by (auto simp: succeeds_def)
next
  case False
  note O = rb_okD [OF ok]
  have pend: "rollback_state_pending w env (l, list) balance b = Some (l, list)"
    using pos False by (auto simp: rollback_state_pending_def Let_def)
  have same: "(lview l)\<lparr>vpending := pending_get (store l)\<rparr> = lview l" by (simp add: view_def)
  have "succeeds (rollback_state_unlink env l i rep balance b)
      (\<lambda>l2. undone env n rank off h (l, list) (l2, list))"
    by (rule state_finish [OF ok last hg refl, where S = None and R = None and p = undefined])
      (use pos bal False O(3,4) rep off in \<open>auto simp: pending_before_simps is_epoch_link_def same\<close>)
  then show ?thesis using pend by (auto simp: succeeds_def)
qed

lemma undone_weight:
  assumes "lview l1 = (lview l)\<lparr>vweight := w\<rparr>" "keeps l l1" "undone env n rank off h (l1, list) st"
  shows "undone env n rank off h (l, list) st"
  using assms(3) keeps_trans [OF assms(2)] unfolding undone_def fst_conv snd_conv assms(1) rolled_weight by blast

lemma visit_state:
  assumes ok: "rb_ok env n rank off l" and last: "last_block (lview l) a h (State_block b) sb i"
    and hg: "h \<noteq> net_genesis n" and wait: "wait_ok env n rank (above rank (lview l) h) h w"
  shows "succeeds (rollback_state_block w env (l, list) b) (undone env n rank off h (l, list))"
proof -
  let ?p = "state_previous (hashables b)"
  let ?bal = "bal_at (core (lview l)) ?p"
  note O = rb_okD [OF ok]
  note f = last_block_facts [OF O(6) last] and sf = state_last_facts [OF O(6) last]
  obtain rep s1 s2 wt where run:
      "(if ?p \<noteq> 0 then ledger_representative (digest env) (store l) ?p else Some 0) = Some rep"
      "representation_add (store l) h (0 - state_balance (hashables b)) = Some s1"
      "(if rep \<noteq> 0 then representation_add s1 rep ?bal else Some s1) = Some s2"
    and rep: "?p \<noteq> 0 \<Longrightarrow> rep_at (vblocks (lview l)) ?p rep"
    and s2: "seen_as ((lview l)\<lparr>vweight := wt\<rparr>) s2"
    and wt: "\<And>r. wt r = vweight (lview l) r + state_shift (lview l) h rep b r"
    by (rule state_weights [OF ok last]) blast
  let ?l = "l\<lparr>store := s2\<rparr>" and ?off = "\<lambda>r. off r + state_shift (lview l) h rep b r"
  have v: "lview ?l = (lview l)\<lparr>vweight := wt\<rparr>" "store_ok s2" using s2 by (simp_all add: seen_as_def)
  have ok1: "rb_ok env n rank ?off ?l"
    unfolding rb_ok_def v(1) using v(2) O(4,5) rb_inv_weight [OF O(2) wt] by simp
  have last1: "last_block (lview ?l) a h (State_block b) sb i" unfolding v(1) using last by simp
  have shift: "state_shift (lview ?l) h rep b r = state_shift (lview l) h rep b r" for r
    unfolding v(1) by (simp add: state_shift_def)
  have bal: "?bal = bal_at (core (lview ?l)) ?p" unfolding v(1) by simp
  have rep1: "?p \<noteq> 0 \<Longrightarrow> rep_at (vblocks (lview ?l)) ?p rep" unfolding v(1) using rep by simp
  have wait1: "wait_ok env n rank (above rank (lview ?l) h) h w" unfolding v(1) using wait by simp
  have "succeeds (do {
      (l1, list) \<leftarrow> rollback_state_pending w env (?l, list) ?bal b;
      l2 \<leftarrow> rollback_state_unlink env l1 i rep ?bal b;
      Some (l2, list) }) (undone env n rank off h (?l, list))"
    using state_undo_send [OF ok1 last1 hg wait1 rep1 _ bal] state_undo_other [OF ok1 last1 hg rep1 _ bal]
      shift by (cases "state_balance (hashables b) < ?bal") simp_all
  moreover have "ledger_balance (store l) ?p = Some ?bal"
    using reads_balance [OF O(3), of ?p] spec_balance_eq [OF O(6), of ?p] state_previous_entry [OF O(6) last]
    by (cases "?p = 0") (auto simp: reads_def)
  moreover have "account_get s2 (state_account (hashables b)) = Some i"
    using seen_as_view(3) [OF s2] f(1) sf(1) by simp
  ultimately have "succeeds (rollback_state_block w env (l, list) b) (undone env n rank off h (?l, list))"
    using run f(10) by (simp add: rollback_state_block_def Let_def)
  moreover have "keeps l ?l" by (simp add: keeps_def)
  ultimately show ?thesis
    using undone_weight [OF v(1)] unfolding succeeds_def by blast
qed

section \<open>The loops\<close>

definition visit_ok :: "env \<Rightarrow> network \<Rightarrow> (uint256 \<Rightarrow> nat) \<Rightarrow> nat \<Rightarrow> bool" where
  "visit_ok env n rank m \<longleftrightarrow> (\<forall>off l list a h b sb i. rb_ok env n rank off l \<longrightarrow> above rank (lview l) h < m \<longrightarrow>
     last_block (lview l) a h b sb i \<longrightarrow> h \<noteq> net_genesis n \<longrightarrow>
     succeeds (rollback_visit (wait_of (\<lambda>t. rollback_run t env) b) env (l, list) b)
       (undone env n rank off h (l, list)))"

text \<open>One round of \<open>Rollback_while\<close> at the head of a chain.\<close>

lemma while_step:
  assumes ok: "rb_ok env n rank off l" and last: "last_block (lview l) a y b sb i" and yg: "y \<noteq> net_genesis n"
    and visit: "visit_ok env n rank m" and m: "above rank (lview l) y < m"
    and x: "block_exists (store l) x"
  obtains l1 hs where "rb_ok env n rank off l1" "keeps l l1" "rolled rank (rank y) (y # hs) (lview l) (lview l1)"
    "rollback_run (Rollback_while x a) env (l, list) =
      rollback_run (Rollback_while x a) env (l1, list @ y # hs)"
proof -
  note f = last_block_facts [OF rb_okD(6) [OF ok] last]
  obtain l1 list1 where v: "rollback_visit (wait_of (\<lambda>t. rollback_run t env) b) env (l, list @ [y]) b = Some (l1, list1)"
    and u: "undone env n rank off y (l, list @ [y]) (l1, list1)"
    using visit ok last yg m unfolding visit_ok_def succeeds_def by (metis surj_pair)
  from u obtain hs where hs: "list1 = (list @ [y]) @ hs" "rolled rank (rank y) (y # hs) (lview l) (lview l1)"
    "rb_ok env n rank off l1" "keeps l l1"
    by (auto simp: undone_def)
  have "rollback_run (Rollback_while x a) env (l, list) = rollback_run (Rollback_while x a) env (l1, list1)"
    using x f(1-3) v by (subst rollback_run.simps) (simp add: block_get_view)
  with that hs show ?thesis by simp
qed

lemma while_done:
  "\<not> block_exists (store l) x \<Longrightarrow> rollback_run (Rollback_while x a) env (l, list) = Some (l, list)"
  by (subst rollback_run.simps) simp

text \<open>Rolling back a head takes one round.\<close>

lemma rollback_head:
  assumes ok: "rb_ok env n rank off l" and last: "last_block (lview l) a y b sb i" and yg: "y \<noteq> net_genesis n"
    and visit: "visit_ok env n rank m" and m: "above rank (lview l) y < m"
  obtains l1 hs where "rb_ok env n rank off l1" "keeps l l1" "rolled rank (rank y) (y # hs) (lview l) (lview l1)"
    "rollback_run (Rollback y) env (l, list) = Some (l1, list @ y # hs)"
proof -
  note f = last_block_facts [OF rb_okD(6) [OF ok] last]
  have ex: "block_exists (store l) y" using f(3) by (simp add: block_exists_view)
  obtain l1 hs where l1: "rb_ok env n rank off l1" "keeps l l1" "rolled rank (rank y) (y # hs) (lview l) (lview l1)"
    "rollback_run (Rollback_while y a) env (l, list) = rollback_run (Rollback_while y a) env (l1, list @ y # hs)"
    by (rule while_step [OF ok last yg visit m ex])
  have "\<not> block_exists (store l1) y"
    using rolled_gone [OF l1(3), of y] by (simp add: block_exists_view)
  then have "rollback_run (Rollback y) env (l, list) = Some (l1, list @ y # hs)"
    using ex own_reads(1) [OF rb_okD(6) [OF ok] last] l1(4) while_done
    by (subst rollback_run.simps) simp
  with that l1 show ?thesis by blast
qed

text \<open>
  A send that is no longer pending has been received: the chain of its destination ends in a
  block of a higher rank.
\<close>

lemma unreceived_head:
  assumes ok: "rb_ok env n rank off l" and s: "sent (core (lview l)) h = Some d"
    and none: "vpending (lview l) (Pending_key d h) = None"
  obtains y b sb i where "last_block (lview l) d y b sb i" "rank h < rank y" "y \<noteq> net_genesis n"
    "latest (store l) d = y"
proof -
  note O = rb_okD [OF ok] note D = prov_invD [OF O(7)]
  obtain w where w: "received_in n (core (lview l)) w = Some h" using D(11) [OF s] none by blast
  then have r: "sent (core (lview l)) h = Some (account_at (core (lview l)) w)" "rank h < rank w"
    using D(9) [OF w] by (simp_all add: receipt_def)
  have d: "account_at (core (lview l)) w = d" using r(1) s by simp
  obtain b sb where b: "vblocks (lview l) w = Some (b, sb)"
    using received_stored [OF w] by (metis core_None not_None_eq surj_pair)
  then have a: "entry_account (b, sb) = d" using d by (simp add: account_at_def core_def)
  obtain i where i: "vaccounts (lview l) d = Some i"
    using chain_inv_block [OF O(6) b] a by (auto simp: block_inv_def)
  obtain y sy where y: "vblocks (lview l) (head i) = Some (y, sy)"
    using chain_inv_account [OF O(6) i] by (auto simp: account_inv_def)
  have "rank w \<le> rank (head i)"
    by (rule rank_head [OF O(6) D(7) rb_invD(6) [OF O(2)] i b a])
  moreover from this have "head i \<noteq> net_genesis n" using r(2) D(7) by (auto simp: ranked_def)
  moreover have "latest (store l) d = head i" using i by (simp add: latest_def)
  ultimately show ?thesis using that [of "head i" y sy i] i y r(2) by (simp add: last_block_def)
qed

lemma rolled_sent:
  assumes r: "rolled rank m hs v v'" and rank: "ranked g (core v) rank" and m: "rank h < m" and h: "core v h \<noteq> None"
    and link: "linked (core v)"
  shows "sent (core v') h = sent (core v) h"
proof -
  obtain b a x where c: "core v h = Some (b, a, x)" using h by (metis not_None_eq prod_cases3)
  have p: "core v' (previous b) = core v (previous b)"
  proof (cases "previous b = 0")
    case True
    then show ?thesis using link rolled_gone [OF r, of 0] by (simp add: linked_def core_def)
  next
    case False
    have "prev_at (core v) h = previous b" using c by (simp add: prev_at_def)
    then have "rank (previous b) < rank h" using rank h False unfolding ranked_def by metis
    with m show ?thesis by (intro rolled_core [OF r]) simp
  qed
  then show ?thesis using rolled_core [OF r m] c by (simp add: sent_def bal_at_def)
qed

lemma above_mono:
  assumes "rolled rank m hs v v'" "finite (dom (vblocks v))"
  shows "above rank v' h \<le> above rank v h"
  unfolding above_def using assms by (intro card_mono) (auto simp: rolled_def)

lemma above_less:
  assumes "rank h < rank y" "vblocks v y \<noteq> None" "finite (dom (vblocks v))"
  shows "above rank v y < above rank v h"
  unfolding above_def using assms by (intro psubset_card_mono) auto

lemma rolled_less:
  assumes "rolled rank m (y # hs) v v'" "finite (dom (vblocks v))"
  shows "card (dom (vblocks v')) < card (dom (vblocks v))"
proof (rule psubset_card_mono [OF assms(2)])
  have "y \<in> dom (vblocks v)" "y \<notin> dom (vblocks v')" "dom (vblocks v') \<subseteq> dom (vblocks v)"
    using assms(1) by (auto simp: rolled_def)
  then show "dom (vblocks v') \<subset> dom (vblocks v)" by blast
qed

text \<open>The two wait loops, which differ in how they look the pending entry up.\<close>

lemma wait_step:
  assumes "rb_ok env n rank off l" "t \<in> {Send_wait, State_wait}"
  shows "rollback_run (t k d) env (l, list) = (if vpending (lview l) k = None
    then Option.bind (rollback_run (Rollback (latest (store l) d)) env (l, list)) (rollback_run (t k d) env)
    else Some (l, list))"
proof -
  have "pending_exists (store l) k \<longleftrightarrow> pending_get (store l) k \<noteq> None"
    using rb_invD(8) [OF rb_okD(2) [OF assms(1)]] by (intro pending_exists_view) simp
  then show ?thesis using assms(2) by (subst rollback_run.simps) auto
qed

lemma wait_loop:
  assumes visit: "visit_ok env n rank m" and t: "t \<in> {Send_wait, State_wait}"
  shows "wait_ok env n rank m h (\<lambda>k d. rollback_run (t k d) env)"
  unfolding wait_ok_def
proof (intro allI impI)
  fix off l list a b sb i d
  assume "rb_ok env n rank off l" "above rank (lview l) h \<le> m" "last_block (lview l) a h b sb i"
    "sent (core (lview l)) h = Some d"
  then show "succeeds (rollback_run (t (Pending_key d h) d) env (l, list)) (waited env n rank off d h (l, list))"
  proof (induction "card (dom (vblocks (lview l)))" arbitrary: l list i rule: less_induct)
    case less
    note ok = less.prems(1) note O = rb_okD [OF ok] and fin = rb_invD(6) [OF rb_okD(2) [OF ok]]
    show ?case
    proof (cases "vpending (lview l) (Pending_key d h) = None")
      case False
      then show ?thesis
        unfolding wait_step [OF ok t] if_not_P [OF False] by (simp add: succeeds_def waited_def ok rolled_refl)
    next
      case True
      obtain y yb ysb yi where y: "last_block (lview l) d y yb ysb yi" "rank h < rank y" "y \<noteq> net_genesis n"
        "latest (store l) d = y"
        by (rule unreceived_head [OF ok less.prems(4) True])
      have "above rank (lview l) y < m"
        using above_less [OF y(2) _ fin] y(1) less.prems(2) by (simp add: last_block_def)
      then obtain l1 hs where l1: "rb_ok env n rank off l1" "keeps l l1"
        "rolled rank (rank y) (y # hs) (lview l) (lview l1)"
        "rollback_run (Rollback y) env (l, list) = Some (l1, list @ y # hs)"
        using rollback_head [OF ok y(1,3) visit] by blast
      obtain i1 where i1: "last_block (lview l1) a h b sb i1"
        by (rule rolled_last [OF rb_okD(6) [OF l1(1)] less.prems(3) O(6) l1(3) y(2)])
      have "sent (core (lview l1)) h = Some d"
        using rolled_sent [OF l1(3) prov_invD(7) [OF O(7)] y(2)] less.prems(4) sent_stored
          prov_invD(6) [OF O(7)] by metis
      then have "succeeds (rollback_run (t (Pending_key d h) d) env (l1, list @ y # hs))
          (waited env n rank off d h (l1, list @ y # hs))"
        using less.hyps [OF rolled_less [OF l1(3) fin] l1(1) _ i1] above_mono [OF l1(3) fin, of h] less.prems(2)
        by (meson le_trans)
      moreover have "waited env n rank off d h (l, list) st" if "waited env n rank off d h (l1, list @ y # hs) st" for st
        using that keeps_trans [OF l1(2)] rolled_trans [OF rolled_mono [OF l1(3)], of "Suc (rank h)"] y(2)
        unfolding waited_def by fastforce
      ultimately show ?thesis
        unfolding wait_step [OF ok t] if_P [OF True] y(4) l1(4) by (auto simp: succeeds_def)
    qed
  qed
qed

lemma wait_ok_mono: "wait_ok env n rank m h w \<Longrightarrow> m' \<le> m \<Longrightarrow> wait_ok env n rank m' h w"
  unfolding wait_ok_def by (meson le_trans)

lemma wait_of_eq:
  "wait_of (\<lambda>t. rollback_run t env) (Send_block x) = (\<lambda>k d. rollback_run (Send_wait k d) env)"
  "wait_of (\<lambda>t. rollback_run t env) (State_block y) = (\<lambda>k d. rollback_run (State_wait k d) env)"
  by (simp_all add: fun_eq_iff)

text \<open>Every block at the head of a chain can be undone, whatever has to be rolled back first.\<close>

lemma visit_all: "visit_ok env n rank m"
proof (induction m)
  case 0
  then show ?case by (simp add: visit_ok_def)
next
  case (Suc m)
  have "succeeds (rollback_visit (wait_of (\<lambda>t. rollback_run t env) b) env (l, list) b) (undone env n rank off h (l, list))"
    if ok: "rb_ok env n rank off l" and m: "above rank (lview l) h < Suc m"
      and last: "last_block (lview l) a h b sb i" and hg: "h \<noteq> net_genesis n" for off l list a h b sb i
  proof -
    have w: "wait_ok env n rank (above rank (lview l) h) h (\<lambda>k d. rollback_run (t k d) env)"
      if "t \<in> {Send_wait, State_wait}" for t
      using wait_ok_mono [OF wait_loop [OF Suc that]] m by simp
    show ?thesis
    proof (cases b)
      case (Send_block x)
      show ?thesis using visit_send [OF ok last [unfolded Send_block] hg w [of Send_wait]]
        unfolding Send_block wait_of_eq rollback_visit.simps by simp
    next
      case (State_block x)
      show ?thesis using visit_state [OF ok last [unfolded State_block] hg w [of State_wait]]
        unfolding State_block wait_of_eq rollback_visit.simps by simp
    qed (use visit_receive [OF ok _ hg] visit_open [OF ok _ hg] visit_change [OF ok _ hg] last in auto)
  qed
  then show ?case unfolding visit_ok_def by blast
qed

lemma while_loop:
  assumes "rb_ok env n rank off l" "vblocks (lview l) h = Some (b, sb)" "entry_account (b, sb) = a"
    "h \<noteq> net_genesis n"
  shows "\<exists>l' hs. rollback_run (Rollback_while h a) env (l, list) = Some (l', list @ hs) \<and>
    rb_ok env n rank off l' \<and> keeps l l' \<and> rolled rank (rank h) hs (lview l) (lview l') \<and> h \<in> set hs"
  using assms
proof (induction "card (dom (vblocks (lview l)))" arbitrary: l list sb rule: less_induct)
  case less
  note ok = less.prems(1) note O = rb_okD [OF ok] and fin = rb_invD(6) [OF rb_okD(2) [OF ok]]
  have D: "ranked (net_genesis n) (core (lview l)) rank" by (rule prov_invD(7) [OF O(7)])
  obtain i where i: "vaccounts (lview l) a = Some i"
    using chain_inv_block [OF O(6) less.prems(2)] less.prems(3) by (auto simp: block_inv_def)
  obtain y sy where y: "vblocks (lview l) (head i) = Some (y, sy)"
    using chain_inv_account [OF O(6) i] by (auto simp: account_inv_def)
  have le: "rank h \<le> rank (head i)" by (rule rank_head [OF O(6) D fin i less.prems(2,3)])
  have "0 < rank h" using D less.prems(2,4) by (auto simp: ranked_def core_def)
  with le have yg: "head i \<noteq> net_genesis n" using D by (auto simp: ranked_def)
  have last: "last_block (lview l) a (head i) y sy i" using i y by (simp add: last_block_def)
  have ex: "block_exists (store l) h" using less.prems(2) by (simp add: block_exists_view)
  obtain l1 hs where l1: "rb_ok env n rank off l1" "keeps l l1"
    "rolled rank (rank (head i)) (head i # hs) (lview l) (lview l1)"
    "rollback_run (Rollback_while h a) env (l, list) = rollback_run (Rollback_while h a) env (l1, list @ head i # hs)"
    by (rule while_step [OF ok last yg visit_all lessI ex])
  note r = rolled_mono [OF l1(3) le]
  show ?case
  proof (cases "h \<in> set (head i # hs)")
    case True
    then have "\<not> block_exists (store l1) h"
      using rolled_gone [OF l1(3), of h] by (simp add: block_exists_view)
    with True l1 r show ?thesis by (auto simp: while_done)
  next
    case False
    obtain sb1 where sb1: "vblocks (lview l1) h = Some (b, sb1)" "entry_account (b, sb1) = a"
      using rolled_at [OF r less.prems(2) False] less.prems(3) by (auto simp: entry_account_def)
    obtain l' hs' where "rollback_run (Rollback_while h a) env (l1, list @ head i # hs) = Some (l', (list @ head i # hs) @ hs')"
      "rb_ok env n rank off l'" "keeps l1 l'" "rolled rank (rank h) hs' (lview l1) (lview l')" "h \<in> set hs'"
      using less.hyps [OF rolled_less [OF l1(3) fin] l1(1) sb1 less.prems(4)] by blast
    then show ?thesis
      using l1(4) keeps_trans [OF l1(2)] rolled_trans [OF r]
      by (intro exI [of _ l'] exI [of _ "head i # hs @ hs'"]) simp
  qed
qed

lemma rollback_ranked:
  assumes ok: "rb_ok env n rank off l" and h: "vblocks (lview l) h \<noteq> None" "h \<noteq> net_genesis n"
  shows "\<exists>l' hs. rollback_list env l h list = Some (l', list @ hs) \<and> rb_ok env n rank off l' \<and> keeps l l' \<and>
    rolled rank (rank h) hs (lview l) (lview l') \<and> h \<in> set hs"
proof -
  obtain b sb where b: "vblocks (lview l) h = Some (b, sb)" using h(1) by auto
  have "entry_account (b, sb) \<noteq> 0"
    using chain_inv_block [OF rb_okD(6) [OF ok] b] by (simp add: block_inv_def)
  then have "block_account (store l) h = Some (entry_account (b, sb))" "block_exists (store l) h"
    using b by (simp_all add: block_account_def entry_account_def Let_def block_exists_view)
  then have "rollback_list env l h list = rollback_run (Rollback_while h (entry_account (b, sb))) env (l, list)"
    unfolding rollback_list_def by (subst rollback_run.simps) simp
  then show ?thesis using while_loop [OF ok b refl h(2)] by simp
qed

end
