(* ===== verification/Rollback_Exact.thy ===== *)
theory Rollback_Exact
  imports Rollback_Run
begin

text \<open>
  What \<open>ledger::rollback\<close> takes off: exactly the blocks that depend on the one it was asked
  to roll back. A rank that puts those above all others bounds the run from below, and the
  invariant of the resulting ledger leaves none of them in it.
\<close>

section \<open>Dependence\<close>

text \<open>A block depends on itself, on its predecessor and on the send that it receives.\<close>

inductive depends :: "network \<Rightarrow> core_map \<Rightarrow> uint256 \<Rightarrow> uint256 \<Rightarrow> bool" for n c h where
  depends_self: "c h \<noteq> None \<Longrightarrow> depends n c h h"
| depends_previous: "c x \<noteq> None \<Longrightarrow> depends n c h (prev_at c x) \<Longrightarrow> depends n c h x"
| depends_source: "received_in n c x = Some s \<Longrightarrow> depends n c h s \<Longrightarrow> depends n c h x"

lemma depends_stored: "depends n c h x \<Longrightarrow> c x \<noteq> None"
  by (induction rule: depends.induct) (use received_stored in blast)+

lemma depends_rank:
  assumes "prov_inv n c ver pend rank" "depends n c h x"
  shows "rank h \<le> rank x"
  using assms(2)
proof induction
  case (depends_previous x)
  have "c (prev_at c x) \<noteq> None" using depends_stored depends_previous(2) by blast
  then have "prev_at c x \<noteq> 0" using prov_invD(6) [OF assms(1)] by (metis linked_def)
  then show ?case using depends_previous prov_invD(7) [OF assms(1)] unfolding ranked_def by fastforce
next
  case (depends_source x s)
  then show ?case using prov_invD(9) [OF assms(1)] by (fastforce simp: receipt_def)
qed simp

text \<open>The rank that lifts what depends on \<open>h\<close> above every other block.\<close>

definition lifted :: "network \<Rightarrow> core_map \<Rightarrow> (uint256 \<Rightarrow> nat) \<Rightarrow> uint256 \<Rightarrow> uint256 \<Rightarrow> nat" where
  "lifted n c rank h x = (if depends n c h x then rank x + Suc (\<Sum>y\<in>dom c. rank y) else rank x)"

lemma lifted_above:
  assumes "finite (dom c)" "c h \<noteq> None" "c x \<noteq> None" "lifted n c rank h h \<le> lifted n c rank h x"
  shows "depends n c h x"
proof (rule ccontr)
  assume "\<not> depends n c h x"
  moreover have "depends n c h h" using assms(2) by (rule depends_self)
  moreover have "rank x \<le> (\<Sum>y\<in>dom c. rank y)" using assms(1,3) by (intro member_le_sum) auto
  ultimately show False using assms(4) by (simp add: lifted_def)
qed

lemma lifted_less:
  assumes "rank x < rank y" "depends n c h x \<longrightarrow> depends n c h y"
  shows "lifted n c rank h x < lifted n c rank h y"
  using assms by (simp add: lifted_def)

lemma lifted_prov:
  assumes prov: "prov_inv n c ver pend rank" and h: "h \<noteq> net_genesis n" "c h \<noteq> None"
  shows "prov_inv n c ver pend (lifted n c rank h)"
proof -
  note D = prov_invD [OF prov]
  have "\<not> depends n c h (net_genesis n)"
    using depends_rank [OF prov, of h "net_genesis n"] D(7) h unfolding ranked_def by (metis not_le)
  then have "lifted n c rank h (net_genesis n) = 0" using D(7) by (simp add: lifted_def ranked_def)
  moreover have "0 < lifted n c rank h x" if "c x \<noteq> None" "x \<noteq> net_genesis n" for x
    using that D(7) by (simp add: lifted_def ranked_def)
  moreover have "lifted n c rank h (prev_at c x) < lifted n c rank h x" if "c x \<noteq> None" "prev_at c x \<noteq> 0" for x
    using that D(7) depends_previous by (intro lifted_less) (auto simp: ranked_def)
  ultimately have "ranked (net_genesis n) c (lifted n c rank h)" by (simp add: ranked_def)
  moreover have "receipt c ver (lifted n c rank h) x s" if "received_in n c x = Some s" for x s
    using D(9) [OF that] lifted_less [of rank s x n c h] depends_source [OF that] by (simp add: receipt_def)
  ultimately show ?thesis
    using prov unfolding prov_inv_def by blast
qed

section \<open>Exactly the dependents come off\<close>

lemma rolled_core_at:
  assumes "rolled rank m hs v v'"
  shows "core v' x = (if x \<in> set hs then None else core v x)"
proof (cases "x \<in> set hs \<or> vblocks v x = None")
  case True
  then show ?thesis using rolled_gone [OF assms, of x] by (auto simp: core_def)
next
  case False
  then obtain b sb where "vblocks v x = Some (b, sb)" by auto
  then show ?thesis using False rolled_at [OF assms, of x b sb] by (auto simp: core_def)
qed

lemma rolled_link:
  assumes r: "rolled rank m hs v v'" and link: "linked (core v')" "linked (core v)"
    and c: "core v x = Some (b, a, y)" and x: "x \<notin> set hs"
  shows "core v' x = Some (b, a, y)" "core v' (previous b) = core v (previous b)"
    "previous b \<noteq> 0 \<Longrightarrow> previous b \<notin> set hs"
proof -
  show c': "core v' x = Some (b, a, y)" using c x by (simp add: rolled_core_at [OF r])
  show "previous b \<notin> set hs" if "previous b \<noteq> 0"
    using that link(1) c' rolled_core_at [OF r, of "previous b"] unfolding linked_def by metis
  then show "core v' (previous b) = core v (previous b)"
    using link unfolding linked_def by (cases "previous b = 0") (metis, simp add: rolled_core_at [OF r])
qed

lemma dependents_gone:
  assumes r: "rolled rank m hs v v'" and prov: "prov_inv n (core v') ver pend rank'" and link: "linked (core v)"
    and h: "h \<in> set hs" and x: "depends n (core v) h x"
  shows "x \<in> set hs"
  using x
proof induction
  case (depends_previous x)
  have p: "prev_at (core v) x \<noteq> 0"
    using depends_stored [OF depends_previous(2)] link by (metis linked_def)
  obtain b a y where c: "core v x = Some (b, a, y)" using depends_previous(1) by (metis not_None_eq prod_cases3)
  then show ?case
    using rolled_link(3) [OF r prov_invD(6) [OF prov] link c] p depends_previous(3) by (auto simp: prev_at_def)
next
  case (depends_source x s)
  obtain b a y where c: "core v x = Some (b, a, y)"
    using received_stored [OF depends_source(1)] by (metis not_None_eq prod_cases3)
  show ?case
  proof (rule ccontr)
    assume "x \<notin> set hs"
    note l = rolled_link [OF r prov_invD(6) [OF prov] link c this]
    have "received_in n (core v') x = Some s"
      using depends_source(1) c l(1,2) by (simp add: received_def bal_at_def split: if_splits)
    then have "core v' s \<noteq> None" using prov_invD(9) [OF prov] sent_stored by (metis receipt_def)
    then show False using depends_source(3) by (simp add: rolled_core_at [OF r])
  qed
qed (rule h)

text \<open>
  On a ledger in order, rolling back a stored block other than the genesis block ends, takes
  off exactly the blocks that depend on it, appends them to the list once each, and leaves a
  ledger in order.
\<close>

lemma rollback_exact:
  assumes ok: "rb_ok env n rank off l" and h: "vblocks (lview l) h \<noteq> None" "h \<noteq> net_genesis n"
  obtains l' hs where "rollback_list env l h list = Some (l', list @ hs)" "\<exists>rank. rb_ok env n rank off l'"
    "keeps l l'" "distinct hs" "set hs = {x. depends n (core (lview l)) h x}"
    "\<And>x. core (lview l') x = (if x \<in> set hs then None else core (lview l) x)"
proof -
  let ?c = "core (lview l)"
  let ?rank = "lifted n ?c rank h"
  note O = rb_okD [OF ok]
  have "rb_ok env n ?rank off l"
    using ok h lifted_prov [OF O(7) h(2)] by (simp add: rb_ok_def rb_inv_def)
  from rollback_ranked [OF this h] obtain l' hs where
    l': "rollback_list env l h list = Some (l', list @ hs)" "rb_ok env n ?rank off l'" "keeps l l'"
      "rolled ?rank (?rank h) hs (lview l) (lview l')" "h \<in> set hs" by blast
  have "depends n ?c h x" if "x \<in> set hs" for x
    using that l'(4) h by (intro lifted_above [OF prov_invD(1) [OF O(7)]]) (auto simp: rolled_def)
  moreover have "x \<in> set hs" if "depends n ?c h x" for x
    by (rule dependents_gone [OF l'(4) rb_okD(7) [OF l'(2)] prov_invD(6) [OF O(7)] l'(5) that])
  ultimately have "set hs = {x. depends n ?c h x}" by blast
  moreover have "distinct hs" using l'(4) by (simp add: rolled_def)
  ultimately show ?thesis using that l' rolled_core_at [OF l'(4)] by blast
qed

end
