(* ===== verification/Processor_Steps.thy ===== *)
theory Processor_Steps
  imports Processor_Inv
begin

text \<open>
  The handlers of the processor refine the relation \<open>accepts\<close>: on a ledger in order each of
  them returns, has accepted the block if it reports progress, and has changed nothing
  otherwise. The writes of a handler are followed on the abstract store.
\<close>

section \<open>The writes of the handlers\<close>

lemmas extend_simps = vextend_def vblock_put_def sideband_for_def legacy_def Let_def

lemma head_entry:
  assumes "chain_inv H v" "vaccounts v a = Some i" "vblocks v h = None"
  obtains b sb where "vblocks v (head i) = Some (b, sb)" "entry_balance (b, sb) = info_balance i"
    "head i \<noteq> 0" "head i \<noteq> h"
  using chain_inv_account [OF assms(1,2)] head_nonzero [OF assms(1,2)] assms(3)
  unfolding account_inv_def by (metis option.distinct(1))

lemma send_writes:
  assumes at0: "seen_as v s" and chain: "chain_inv (digest env) v" and a: "vaccounts v a = Some i"
    and p: "head i = send_previous (hashables b)" and f: "vfrontiers v (head i) \<noteq> None"
    and h: "h = block_hash (digest env) (Send_block b)" and fresh: "vblocks v h = None" and h0: "h \<noteq> 0"
  shows "succeeds (do {
      s \<leftarrow> representation_add s (rep_block i) (0 - (info_balance i - send_balance (hashables b)));
      s \<leftarrow> block_put (digest env) s h (Send_block b)
        (sideband_for env Bt_send a (send_balance (hashables b)) (block_count i + 1)) Epoch_0;
      s \<leftarrow> change_latest (now env) s a h (rep_block i) (send_balance (hashables b)) (block_count i + 1) Epoch_0;
      s \<leftarrow> pending_put s (Pending_key (send_destination (hashables b)) h)
        \<lparr>pending_source = a, pending_amount = info_balance i - send_balance (hashables b),
          pending_epoch = Epoch_0\<rparr>;
      s \<leftarrow> frontier_del s (head i);
      Some (frontier_put s h a) }) (seen_as (send_view env v a i b))"
    (is "succeeds ?run _")
proof -
  obtain c sc where c: "vblocks v (head i) = Some (c, sc)" "head i \<noteq> 0" "head i \<noteq> h"
    using head_entry [OF chain a fresh] by blast
  obtain rb sbr where rb: "vblocks v (rep_block i) = Some (rb, sbr)" "rep_of (vblocks v) i = representative rb"
    using rep_block_set [OF chain a] by blast
  have new: "vpending v (Pending_key (send_destination (hashables b)) h) = None"
    using no_pending [OF chain, of "Pending_key (send_destination (hashables b)) h"] fresh by simp
  have "simulates ?run (do {
      v \<leftarrow> spec_representation_add v (rep_block i) (0 - (info_balance i - send_balance (hashables b)));
      v \<leftarrow> spec_block_put (digest env) v h (Send_block b)
        (sideband_for env Bt_send a (send_balance (hashables b)) (block_count i + 1)) Epoch_0;
      v \<leftarrow> spec_change_latest (now env) v a h (rep_block i) (send_balance (hashables b)) (block_count i + 1) Epoch_0;
      v \<leftarrow> spec_pending_put v (Pending_key (send_destination (hashables b)) h)
        \<lparr>pending_source = a, pending_amount = info_balance i - send_balance (hashables b),
          pending_epoch = Epoch_0\<rparr>;
      v \<leftarrow> spec_frontier_del v (head i);
      Some (spec_frontier_put v h a) })"
    by (intro simulation at0)
  moreover have "\<dots> = Some (send_view env v a i b)"
    using a p f fresh h0 h c rb new
    by (simp add: spec_defs vblock_put_def sideband_for_def)
      (rule view.equality; simp add: send_view_def extend_simps)
  ultimately show ?thesis by (rule simulatesD)
qed

lemma change_writes:
  assumes at0: "seen_as v s" and chain: "chain_inv (digest env) v" and a: "vaccounts v a = Some i"
    and p: "head i = change_previous (hashables b)" and f: "vfrontiers v (head i) \<noteq> None"
    and h: "h = block_hash (digest env) (Change_block b)" and fresh: "vblocks v h = None" and h0: "h \<noteq> 0"
  shows "succeeds (do {
      s \<leftarrow> block_put (digest env) s h (Change_block b)
        (sideband_for env Bt_change a (info_balance i) (block_count i + 1)) Epoch_0;
      s \<leftarrow> representation_add s h (info_balance i);
      s \<leftarrow> representation_add s (rep_block i) (0 - info_balance i);
      s \<leftarrow> change_latest (now env) s a h h (info_balance i) (block_count i + 1) Epoch_0;
      s \<leftarrow> frontier_del s (head i);
      Some (frontier_put s h a) }) (seen_as (change_view env v a i b))"
    (is "succeeds ?run _")
proof -
  obtain c sc where c: "vblocks v (head i) = Some (c, sc)" "head i \<noteq> 0" "head i \<noteq> h"
    using head_entry [OF chain a fresh] by blast
  obtain rb sbr where rb: "vblocks v (rep_block i) = Some (rb, sbr)" "rep_of (vblocks v) i = representative rb"
    "rep_block i \<noteq> h"
    using rep_block_set [OF chain a] fresh by (metis option.distinct(1))
  have "simulates ?run (do {
      v \<leftarrow> spec_block_put (digest env) v h (Change_block b)
        (sideband_for env Bt_change a (info_balance i) (block_count i + 1)) Epoch_0;
      v \<leftarrow> spec_representation_add v h (info_balance i);
      v \<leftarrow> spec_representation_add v (rep_block i) (0 - info_balance i);
      v \<leftarrow> spec_change_latest (now env) v a h h (info_balance i) (block_count i + 1) Epoch_0;
      v \<leftarrow> spec_frontier_del v (head i);
      Some (spec_frontier_put v h a) })"
    by (intro simulation at0)
  moreover have "\<dots> = Some (change_view env v a i b)"
    using a p f fresh h0 h c rb
    by (simp add: spec_defs vblock_put_def sideband_for_def entry_link_Some)
      (rule view.equality; simp add: change_view_def extend_simps entry_link_Some)
  ultimately show ?thesis by (rule simulatesD)
qed

lemma receive_writes:
  assumes at0: "seen_as v s" and chain: "chain_inv (digest env) v" and a: "vaccounts v a = Some i"
    and p: "head i = receive_previous (hashables b)" and f: "vfrontiers v (head i) \<noteq> None"
    and h: "h = block_hash (digest env) (Receive_block b)" and fresh: "vblocks v h = None" and h0: "h \<noteq> 0"
    and k: "vpending v (Pending_key a (receive_source (hashables b))) = Some pd"
  shows "succeeds (do {
      s \<leftarrow> pending_del s (Pending_key a (receive_source (hashables b)));
      s \<leftarrow> block_put (digest env) s h (Receive_block b)
        (sideband_for env Bt_receive a (info_balance i + pending_amount pd) (block_count i + 1)) Epoch_0;
      s \<leftarrow> change_latest (now env) s a h (rep_block i) (info_balance i + pending_amount pd) (block_count i + 1) Epoch_0;
      s \<leftarrow> representation_add s (rep_block i) (pending_amount pd);
      s \<leftarrow> frontier_del s (head i);
      Some (frontier_put s h a) }) (seen_as (receive_view env v a i pd b))"
    (is "succeeds ?run _")
proof -
  obtain c sc where c: "vblocks v (head i) = Some (c, sc)" "head i \<noteq> 0" "head i \<noteq> h"
    using head_entry [OF chain a fresh] by blast
  obtain rb sbr where rb: "vblocks v (rep_block i) = Some (rb, sbr)" "rep_of (vblocks v) i = representative rb"
    "rep_block i \<noteq> h"
    using rep_block_set [OF chain a] fresh by (metis option.distinct(1))
  have "simulates ?run (do {
      v \<leftarrow> spec_pending_del v (Pending_key a (receive_source (hashables b)));
      v \<leftarrow> spec_block_put (digest env) v h (Receive_block b)
        (sideband_for env Bt_receive a (info_balance i + pending_amount pd) (block_count i + 1)) Epoch_0;
      v \<leftarrow> spec_change_latest (now env) v a h (rep_block i) (info_balance i + pending_amount pd) (block_count i + 1) Epoch_0;
      v \<leftarrow> spec_representation_add v (rep_block i) (pending_amount pd);
      v \<leftarrow> spec_frontier_del v (head i);
      Some (spec_frontier_put v h a) })"
    by (intro simulation at0)
  moreover have "\<dots> = Some (receive_view env v a i pd b)"
    using a p f fresh h0 h c rb k
    by (simp add: spec_defs vblock_put_def sideband_for_def entry_link_Some)
      (rule view.equality; simp add: receive_view_def extend_simps entry_link_Some)
  ultimately show ?thesis by (rule simulatesD)
qed

lemma open_writes:
  assumes at0: "seen_as v s" and chain: "chain_inv (digest env) v" and a: "vaccounts v a = None"
    and b: "a = open_account (hashables b)"
    and h: "h = block_hash (digest env) (Open_block b)" and fresh: "vblocks v h = None" and h0: "h \<noteq> 0"
    and k: "vpending v (Pending_key a (open_source (hashables b))) = Some pd"
  shows "succeeds (do {
      s \<leftarrow> pending_del s (Pending_key a (open_source (hashables b)));
      s \<leftarrow> block_put (digest env) s h (Open_block b)
        (sideband_for env Bt_open a (pending_amount pd) 1) Epoch_0;
      s \<leftarrow> change_latest (now env) s a h h (pending_amount pd) 1 Epoch_0;
      s \<leftarrow> representation_add s h (pending_amount pd);
      Some (frontier_put s h a) }) (seen_as (open_view env v pd b))"
    (is "succeeds ?run _")
proof -
  have zero: "vblocks v 0 = None" "vfrontiers v 0 = None"
    using no_block_zero [OF chain] no_frontier [OF chain] by auto
  have "simulates ?run (do {
      v \<leftarrow> spec_pending_del v (Pending_key a (open_source (hashables b)));
      v \<leftarrow> spec_block_put (digest env) v h (Open_block b)
        (sideband_for env Bt_open a (pending_amount pd) 1) Epoch_0;
      v \<leftarrow> spec_change_latest (now env) v a h h (pending_amount pd) 1 Epoch_0;
      v \<leftarrow> spec_representation_add v h (pending_amount pd);
      Some (spec_frontier_put v h a) })"
    by (intro simulation at0)
  moreover have "\<dots> = Some (open_view env v pd b)"
    using a b fresh h0 h k zero
    by (simp add: spec_defs vblock_put_def sideband_for_def entry_link_Some fun_upd_idem)
      (rule view.equality; simp add: open_view_def extend_simps entry_link_Some fun_upd_idem)
  ultimately show ?thesis by (rule simulatesD)
qed

lemma frontier_not_zero: "chain_inv H v \<Longrightarrow> vfrontiers v h \<noteq> Some 0"
  using frontier_account [of H v h 0] by blast

definition spec_state_block_apply ::
  "env \<Rightarrow> view \<Rightarrow> account_info \<Rightarrow> bool \<Rightarrow> uint128 \<Rightarrow> epoch \<Rightarrow> state_hashables signed \<Rightarrow> view option" where
  "spec_state_block_apply env v info sends amount e b =
     (let hash = block_hash (digest env) (State_block b);
          h = hashables b
      in do {
        v \<leftarrow> spec_block_put (digest env) v hash (State_block b)
          (sideband_for env Bt_state (state_account h) 0 (block_count info + 1)) e;
        v \<leftarrow> (if rep_block info \<noteq> 0
              then spec_representation_add v (rep_block info) (0 - info_balance info) else Some v);
        v \<leftarrow> spec_representation_add v hash (state_balance h);
        v \<leftarrow> (if sends
              then spec_pending_put v (Pending_key (state_link h) hash)
                \<lparr>pending_source = state_account h, pending_amount = amount, pending_epoch = e\<rparr>
              else if state_link h \<noteq> 0
              then spec_pending_del v (Pending_key (state_account h) (state_link h))
              else Some v);
        v \<leftarrow> spec_change_latest (now env) v (state_account h) hash hash (state_balance h)
          (block_count info + 1) e;
        spec_frontier_drop v (head info) })"

lemma simulates_state_block_apply [simulation]:
  "seen_as v s \<Longrightarrow>
    simulates (state_block_apply env s info sends amount e b) (spec_state_block_apply env v info sends amount e b)"
  unfolding state_block_apply_def spec_state_block_apply_def Let_def sideband_for_def
  by (intro simulation)

definition state_pending ::
  "env \<Rightarrow> view \<Rightarrow> bool \<Rightarrow> uint128 \<Rightarrow> epoch \<Rightarrow> state_hashables signed \<Rightarrow> (pending_key \<rightharpoonup> pending_info)" where
  "state_pending env v sends amount e b =
     (if sends
      then (vpending v)(Pending_key (state_link (hashables b)) (block_hash (digest env) (State_block b)) \<mapsto>
        \<lparr>pending_source = state_account (hashables b), pending_amount = amount, pending_epoch = e\<rparr>)
      else if state_link (hashables b) \<noteq> 0
      then (vpending v)(Pending_key (state_account (hashables b)) (state_link (hashables b)) := None)
      else vpending v)"

lemma state_writes:
  assumes at0: "seen_as v s" and chain: "chain_inv (digest env) v"
    and a: "state_account (hashables b) = a" and info: "info = info_or_init (vaccounts v a)"
    and p: "head info = state_previous (hashables b)" and e: "e \<in> {Epoch_0, Epoch_1}"
    and h: "h = block_hash (digest env) (State_block b)" and fresh: "vblocks v h = None" and h0: "h \<noteq> 0"
    and k: "\<not> sends \<Longrightarrow> state_link (hashables b) \<noteq> 0 \<Longrightarrow>
      vpending v (Pending_key a (state_link (hashables b))) \<noteq> None"
  shows "succeeds (state_block_apply env s info sends amount e b)
    (seen_as (state_view env v (state_pending env v sends amount e b) e b))"
proof -
  have new: "vpending v (Pending_key d h) = None" for d
    using no_pending [OF chain, of "Pending_key d h"] fresh by simp
  have zero: "vblocks v 0 = None" "vfrontiers v h = None" "vfrontiers v x \<noteq> Some 0" for x
    using no_block_zero [OF chain] no_frontier [OF chain fresh] frontier_not_zero [OF chain] by auto
  have db: "\<exists>db. block_database Bt_state e = Some db" using e by auto
  have "spec_state_block_apply env v info sends amount e b =
      Some (state_view env v (state_pending env v sends amount e b) e b)"
  proof (cases "vaccounts v a")
    case None
    then have "info = account_info_init" "state_previous (hashables b) = 0"
      using info p by (simp_all add: info_or_init_def account_info_init_def)
    then show ?thesis
      using None a fresh h0 h k zero new e db unfolding spec_state_block_apply_def
      by (auto simp: spec_defs account_info_init_def state_view_def state_pending_def extend_simps
          entry_link_Some info_or_init_def fun_upd_idem intro!: view.equality)
  next
    case (Some i)
    obtain c sc where c: "vblocks v (head i) = Some (c, sc)" "head i \<noteq> 0" "head i \<noteq> h"
      using head_entry [OF chain Some fresh] by blast
    obtain rb sbr where rb: "vblocks v (rep_block i) = Some (rb, sbr)" "rep_of (vblocks v) i = representative rb"
      "rep_block i \<noteq> h" "rep_block i \<noteq> 0"
      using rep_block_set [OF chain Some] fresh zero(1) by (metis option.distinct(1))
    show ?thesis
      using Some a fresh h0 h k zero new e db info p c rb unfolding spec_state_block_apply_def
      by (auto simp: spec_defs state_view_def state_pending_def extend_simps
          entry_link_Some fun_upd_idem intro!: view.equality)
  qed
  then show ?thesis by (rule simulatesD [OF simulates_state_block_apply [OF at0]])
qed

lemma epoch_writes:
  assumes at0: "seen_as v s" and chain: "chain_inv (digest env) v"
    and a: "state_account (hashables b) = a" and info: "info = info_or_init (vaccounts v a)"
    and p: "head info = state_previous (hashables b)" and bal: "state_balance (hashables b) = info_balance info"
    and h: "h = block_hash (digest env) (State_block b)" and fresh: "vblocks v h = None" and h0: "h \<noteq> 0"
  shows "succeeds (do {
      s \<leftarrow> block_put (digest env) s h (State_block b)
        (sideband_for env Bt_state a 0 (block_count info + 1)) Epoch_1;
      s \<leftarrow> change_latest (now env) s a h h (info_balance info) (block_count info + 1) Epoch_1;
      (if frontier_get s (head info) \<noteq> 0 then frontier_del s (head info) else Some s) })
    (seen_as (epoch_view env v b))"
    (is "succeeds ?run _")
proof -
  have zero: "vblocks v 0 = None" "vfrontiers v h = None" "vfrontiers v x \<noteq> Some 0" for x
    using no_block_zero [OF chain] no_frontier [OF chain fresh] frontier_not_zero [OF chain] by auto
  have "simulates ?run (do {
      v \<leftarrow> spec_block_put (digest env) v h (State_block b)
        (sideband_for env Bt_state a 0 (block_count info + 1)) Epoch_1;
      v \<leftarrow> spec_change_latest (now env) v a h h (info_balance info) (block_count info + 1) Epoch_1;
      spec_frontier_drop v (head info) })"
    by (intro simulation at0)
  moreover have "\<dots> = Some (epoch_view env v b)"
  proof (cases "vaccounts v a")
    case None
    then have "info = account_info_init" "state_previous (hashables b) = 0"
      using info p by (simp_all add: info_or_init_def account_info_init_def)
    then show ?thesis
      using None a fresh h0 h zero bal
      by (auto simp: spec_defs account_info_init_def epoch_view_def extend_simps
          entry_link_Some info_or_init_def fun_upd_idem intro!: view.equality)
  next
    case (Some i)
    obtain c sc where c: "vblocks v (head i) = Some (c, sc)" "head i \<noteq> 0" "head i \<noteq> h"
      using head_entry [OF chain Some fresh] by blast
    show ?thesis
      using Some a fresh h0 h zero info p c bal
      by (auto simp: spec_defs epoch_view_def extend_simps
          entry_link_Some fun_upd_idem intro!: view.equality)
  qed
  ultimately show ?thesis by (rule simulatesD)
qed

section \<open>The handlers\<close>

text \<open>A handler that wrote a store seen as \<open>v'\<close> has made an accepted step.\<close>

lemma step_ok_progress:
  assumes "accepts env l (view (store l)) b v'"
    and "vblocks (view (store l)) (block_hash (digest env) b) = None"
    and "seen_as v' s'" "code r = Progress"
  shows "step_ok env l b (Some (l\<lparr>store := s', stats := st\<rparr>, r))"
  using assms by (simp add: step_ok_def seen_as_def)

lemma ledger_ok_seen:
  assumes "ledger_ok env l"
  shows "seen_as (view (store l)) (store l)" "ledger_inv (digest env) (view (store l))"
    "chain_inv (digest env) (view (store l))"
  using assms by (simp_all add: ledger_ok_def seen_as_def ledger_inv_def)

lemma new_hash:
  assumes "ledger_ok env l" "collision_free (digest env) (view (store l)) b"
    and "\<not> block_exists_type (store l) (type_of b) (block_hash (digest env) b)"
    and "type_of b \<in> {Bt_receive, Bt_change} \<Longrightarrow> vfrontiers (view (store l)) (previous b) = Some a"
  shows "vblocks (view (store l)) (block_hash (digest env) b) = None" "block_hash (digest env) b \<noteq> 0"
proof -
  note chain = ledger_ok_seen(3) [OF assms(1)]
  have "blocks_ok (store l)" using assms(1) by (simp add: ledger_ok_def store_ok_def)
  then have "\<not> (\<exists>b' sb. vblocks (view (store l)) (block_hash (digest env) b) = Some (b', sb) \<and>
      type_of b' = type_of b)"
    using assms(3) block_exists_type_view by simp
  moreover have "type_of b \<in> {Bt_receive, Bt_change} \<Longrightarrow>
      \<exists>b' sb. vblocks (view (store l)) (previous b) = Some (b', sb) \<and> successor sb = 0"
    using frontier_account [OF chain assms(4)] by metis
  ultimately show "vblocks (view (store l)) (block_hash (digest env) b) = None"
    by (rule fresh_hash [OF chain assms(2)])
  show "block_hash (digest env) b \<noteq> 0" using assms(2) by (simp add: collision_free_def)
qed

lemma send_block_process_ok:
  assumes ok: "ledger_ok env l" and free: "collision_free (digest env) (view (store l)) (Send_block b)"
    and sound: "verification_sound env l (Send_block b) (verified r)"
  shows "step_ok env l (Send_block b) (send_block_process env l r b)"
proof -
  define s where "s = store l"
  define h where "h = block_hash (digest env) (Send_block b)"
  define p where "p = send_previous (hashables b)"
  define a where "a = frontier_get s p"
  let ?v = "view s"
  have chain: "chain_inv (digest env) ?v" and at0: "seen_as ?v s"
    using ledger_ok_seen [OF ok] by (simp_all add: s_def)
  note defs = send_block_process_def Let_def s_def [symmetric] h_def [symmetric]
    p_def [symmetric] a_def [symmetric]
  consider (old) "block_exists_type s Bt_send h" | (gap) "block_get s p = None"
    | (position) c where "block_get s p = Some c" "\<not> valid_predecessor (Send_block b) c"
    | (fork) "a = 0" | (sig) "verified r \<noteq> Sv_valid" "validate_message env a h (signature b)"
    | (fits) c where "\<not> block_exists_type s Bt_send h" "block_get s p = Some c"
      "valid_predecessor (Send_block b) c" "a \<noteq> 0"
      "\<not> (verified r \<noteq> Sv_valid \<and> validate_message env a h (signature b))"
    by (cases "block_get s p"; blast)
  then show ?thesis
  proof cases
    case (fits c)
    then have a: "vfrontiers ?v p = Some a"
      by (auto simp: a_def frontier_get_def split: option.splits)
    then obtain i where i: "account_get s a = Some i" "head i = p"
      using frontier_account [OF chain a] by (metis view_simps(3))
    have sig: "\<not> validate_message env a h (signature b)"
      using fits(4,5) sound by (auto simp: verification_sound_def a_def p_def s_def h_def)
    have h: "vblocks ?v h = None" "h \<noteq> 0"
      using new_hash [OF ok free] fits(1) by (simp_all add: s_def h_def)
    show ?thesis
    proof (cases "send_balance (hashables b) \<le> info_balance i")
      case False
      then show ?thesis using fits i by (simp add: defs sig)
    next
      case True
      have acc: "accepts env l ?v (Send_block b) (send_view env ?v a i b)"
        using accept_send [of ?v b a i] a i sig True by (simp add: signed_by_def h_def p_def)
      have "head i = send_previous (hashables b)" "vfrontiers ?v (head i) \<noteq> None"
        using a i(2) by (simp_all add: p_def)
      with send_writes [OF at0 chain _ _ _ h_def h, of a i] i(1)
      show ?thesis
        using fits i True
        by (auto simp: defs sig sideband_for_def bind_eq_Some_conv elim!: succeedsE
            intro!: step_ok_progress [OF acc [unfolded s_def] h(1) [unfolded s_def h_def]])
    qed
  qed (auto simp: defs split: option.split)
qed

lemma ledger_balance_put:
  assumes at0: "seen_as v s" and chain: "chain_inv H v" and i: "vaccounts v a = Some i"
    and b: "previous b = head i" "vblocks v h = None" "block_hash H b = h" "type_of b = sb_type sb"
    "successor sb = 0" "block_database (type_of b) e = Some db"
    and put: "block_put H s h b sb e = Some s1"
  shows "ledger_balance s1 (head i) = Some (info_balance i)"
proof -
  obtain c sc where c: "vblocks v (head i) = Some (c, sc)" "entry_balance (c, sc) = info_balance i"
    "head i \<noteq> 0" "head i \<noteq> h"
    using head_entry [OF chain i b(2)] by blast
  have "spec_block_put H v h b sb e = Some (vblock_put v h b sb e)"
    using b c by (simp add: spec_block_put_def)
  then have "seen_as (vblock_put v h b sb e) s1"
    using simulatesD [OF simulates_block_put [OF at0]] put by (metis option.inject succeedsE)
  then have "block_get_sideband s1 (head i) = Some (c, sc\<lparr>successor := h\<rparr>)"
    using c b(1) by (simp add: seen_as_view(1) vblock_put_def entry_link_Some)
  then show ?thesis using c by (simp add: ledger_balance_def block_balance_def)
qed

lemma change_block_process_ok:
  assumes ok: "ledger_ok env l" and free: "collision_free (digest env) (view (store l)) (Change_block b)"
    and sound: "verification_sound env l (Change_block b) (verified r)"
  shows "step_ok env l (Change_block b) (change_block_process env l r b)"
proof -
  define s where "s = store l"
  define h where "h = block_hash (digest env) (Change_block b)"
  define p where "p = change_previous (hashables b)"
  define a where "a = frontier_get s p"
  let ?v = "view s"
  have chain: "chain_inv (digest env) ?v" and at0: "seen_as ?v s"
    using ledger_ok_seen [OF ok] by (simp_all add: s_def)
  note defs = change_block_process_def Let_def s_def [symmetric] h_def [symmetric]
    p_def [symmetric] a_def [symmetric]
  consider (old) "block_exists_type s Bt_change h" | (gap) "block_get s p = None"
    | (position) c where "block_get s p = Some c" "\<not> valid_predecessor (Change_block b) c"
    | (fork) "a = 0"
    | (fits) c where "\<not> block_exists_type s Bt_change h" "block_get s p = Some c"
      "valid_predecessor (Change_block b) c" "a \<noteq> 0"
    by (cases "block_get s p"; blast)
  then show ?thesis
  proof cases
    case (fits c)
    then have a: "vfrontiers ?v p = Some a"
      by (auto simp: a_def frontier_get_def split: option.splits)
    then obtain i where i: "account_get s a = Some i" "head i = p"
      using frontier_account [OF chain a] by (metis view_simps(3))
    have h: "vblocks ?v h = None" "h \<noteq> 0"
      using new_hash [OF ok free] fits(1) a by (simp_all add: s_def h_def p_def)
    show ?thesis
    proof (cases "verified r \<noteq> Sv_valid \<and> validate_message env a h (signature b)")
      case True
      then show ?thesis using fits i by (simp add: defs)
    next
      case False
      have sig: "\<not> validate_message env a h (signature b)"
        using False fits(4) sound by (auto simp: verification_sound_def a_def p_def s_def h_def)
      have acc: "accepts env l ?v (Change_block b) (change_view env ?v a i b)"
        using accept_change [of ?v b a i] a i sig by (simp add: signed_by_def h_def p_def)
      have "head i = change_previous (hashables b)" "vfrontiers ?v (head i) \<noteq> None"
        using a i(2) by (simp_all add: p_def)
      moreover from this have "ledger_balance s1 p = Some (info_balance i)"
        if "block_put (digest env) s h (Change_block b)
          (sideband_for env Bt_change a (info_balance i) (block_count i + 1)) Epoch_0 = Some s1" for s1
        using ledger_balance_put [OF at0 chain _ _ h(1) _ _ _ _ that, of a i] i
        by (simp add: h_def sideband_for_def)
      ultimately show ?thesis
        using fits i change_writes [OF at0 chain _ _ _ h_def h, of a i]
        by (auto simp: defs sig sideband_for_def bind_eq_Some_conv elim!: succeedsE
            intro!: step_ok_progress [OF acc [unfolded s_def] h(1) [unfolded s_def h_def]])
    qed
  qed (auto simp: defs split: option.split)
qed

lemma receive_block_process_ok:
  assumes ok: "ledger_ok env l" and free: "collision_free (digest env) (view (store l)) (Receive_block b)"
    and sound: "verification_sound env l (Receive_block b) (verified r)"
  shows "step_ok env l (Receive_block b) (receive_block_process env l r b)"
proof -
  define s where "s = store l"
  define h where "h = block_hash (digest env) (Receive_block b)"
  define p where "p = receive_previous (hashables b)"
  define a where "a = frontier_get s p"
  let ?v = "view s"
  have chain: "chain_inv (digest env) ?v" and at0: "seen_as ?v s"
    using ledger_ok_seen [OF ok] by (simp_all add: s_def)
  note defs = receive_block_process_def Let_def s_def [symmetric] h_def [symmetric]
    p_def [symmetric] a_def [symmetric]
  consider (old) "block_exists_type s Bt_receive h" | (gap) "block_get s p = None"
    | (position) c where "block_get s p = Some c" "\<not> valid_predecessor (Receive_block b) c"
    | (fork) "a = 0" | (sig) "verified r \<noteq> Sv_valid" "validate_message env a h (signature b)"
    | (fits) c where "\<not> block_exists_type s Bt_receive h" "block_get s p = Some c"
      "valid_predecessor (Receive_block b) c" "a \<noteq> 0"
      "\<not> (verified r \<noteq> Sv_valid \<and> validate_message env a h (signature b))"
    by (cases "block_get s p"; blast)
  then show ?thesis
  proof cases
    case (fits c)
    then have a: "vfrontiers ?v p = Some a"
      by (auto simp: a_def frontier_get_def split: option.splits)
    then obtain i where i: "account_get s a = Some i" "head i = p"
      using frontier_account [OF chain a] by (metis view_simps(3))
    have sig: "\<not> validate_message env a h (signature b)"
      using fits(4,5) sound by (auto simp: verification_sound_def a_def p_def s_def h_def)
    have h: "vblocks ?v h = None" "h \<noteq> 0"
      using new_hash [OF ok free] fits(1) a by (simp_all add: s_def h_def p_def)
    let ?k = "Pending_key a (receive_source (hashables b))"
    show ?thesis
    proof (cases "source_exists s (receive_source (hashables b)) \<and>
        (\<exists>pd. pending_get s ?k = Some pd \<and> pending_epoch pd = Epoch_0)")
      case False
      then show ?thesis using fits i sig by (auto simp: defs split: option.split)
    next
      case True
      then obtain pd where pd: "source_exists s (receive_source (hashables b))"
        "pending_get s ?k = Some pd" "pending_epoch pd = Epoch_0" by blast
      obtain j where j: "account_get s (pending_source pd) = Some j"
        using pending_source_account [OF chain, of ?k pd] pd(2) by auto
      have acc: "accepts env l ?v (Receive_block b) (receive_view env ?v a i pd b)"
        using accept_receive [of ?v b a i] a i sig pd by (simp add: signed_by_def h_def p_def)
      have "head i = receive_previous (hashables b)" "vfrontiers ?v (head i) \<noteq> None"
        using a i(2) by (simp_all add: p_def)
      with receive_writes [OF at0 chain _ _ _ h_def h, of a i pd] i(1) pd(2)
      show ?thesis
        using fits i pd j
        by (auto simp: defs sig sideband_for_def bind_eq_Some_conv elim!: succeedsE
            intro!: step_ok_progress [OF acc [unfolded s_def] h(1) [unfolded s_def h_def]])
    qed
  qed (auto simp: defs split: option.split)
qed

lemma open_block_process_ok:
  assumes ok: "ledger_ok env l" and free: "collision_free (digest env) (view (store l)) (Open_block b)"
    and sound: "verification_sound env l (Open_block b) (verified r)"
  shows "step_ok env l (Open_block b) (open_block_process env l r b)"
proof -
  define s where "s = store l"
  define h where "h = block_hash (digest env) (Open_block b)"
  define a where "a = open_account (hashables b)"
  let ?v = "view s" and ?k = "Pending_key a (open_source (hashables b))"
  have chain: "chain_inv (digest env) ?v" and at0: "seen_as ?v s"
    using ledger_ok_seen [OF ok] by (simp_all add: s_def)
  note defs = open_block_process_def Let_def s_def [symmetric] h_def [symmetric] a_def [symmetric]
  show ?thesis
  proof (cases "block_exists_type s Bt_open h \<or> verified r \<noteq> Sv_valid \<and> validate_message env a h (signature b)")
    case True
    then show ?thesis by (auto simp: defs)
  next
    case fits: False
    have sig: "\<not> validate_message env a h (signature b)"
      using fits sound by (auto simp: verification_sound_def a_def s_def h_def)
    have h: "vblocks ?v h = None" "h \<noteq> 0"
      using new_hash [OF ok free] fits by (simp_all add: s_def h_def)
    show ?thesis
    proof (cases "source_exists s (open_source (hashables b)) \<and> account_get s a = None \<and>
        (\<exists>pd. pending_get s ?k = Some pd \<and> pending_epoch pd = Epoch_0) \<and> a \<noteq> burn_account")
      case False
      then show ?thesis using fits sig by (auto simp: defs split: option.split)
    next
      case True
      then obtain pd where pd: "pending_get s ?k = Some pd" "pending_epoch pd = Epoch_0" by blast
      obtain j where j: "account_get s (pending_source pd) = Some j"
        using pending_source_account [OF chain, of ?k pd] pd(1) by auto
      have acc: "accepts env l ?v (Open_block b) (open_view env ?v pd b)"
        using accept_open [of b ?v env pd l] True sig pd by (simp add: signed_by_def h_def a_def)
      from open_writes [OF at0 chain _ a_def h_def h, of pd] True pd(1)
      show ?thesis
        using fits True pd j sig
        by (auto simp: defs sideband_for_def bind_eq_Some_conv elim!: succeedsE
            intro!: step_ok_progress [OF acc [unfolded s_def] h(1) [unfolded s_def h_def]])
    qed
  qed
qed

section \<open>State blocks\<close>

text \<open>The three ways the tests of \<open>state_block_impl\<close> come out with progress.\<close>

lemma state_checks:
  assumes "state_account_check s info_o r h = (r1, sends)"
    and "(if code r1 = Progress \<and> \<not> sends then state_link_check s r1 e0 h else (r1, e0)) = (r2, e)"
    and "code r2 = Progress" "info = info_or_init info_o" "e0 = info_epoch info"
  obtains (state_send) i where "sends" "info_o = Some i" "head i = state_previous h"
      "state_balance h < info_balance i" "result_amount r2 = info_balance i - state_balance h" "e = e0"
  | (state_receive) pd where "\<not> sends" "head info = state_previous h" "state_link h \<noteq> 0"
      "pending_get s (Pending_key (state_account h) (state_link h)) = Some pd"
      "info_balance info \<le> state_balance h" "pending_amount pd = state_balance h - info_balance info"
      "e = max e0 (pending_epoch pd)"
  | (state_change) i where "\<not> sends" "info_o = Some i" "head i = state_previous h" "state_link h = 0"
      "state_balance h = info_balance i" "e = e0"
proof (cases info_o)
  case None
  then have r1: "\<not> sends" "state_link h \<noteq> 0" "result_amount r1 = state_balance h" "code r1 = Progress"
    "state_previous h = 0"
    using assms(1-3) by (auto simp: state_account_check_def Let_def split: if_splits)
  then show ?thesis
    using state_receive assms None
    by (auto simp: state_link_check_def info_or_init_def account_info_init_def split: if_splits option.splits)
next
  case (Some i)
  then have r1: "sends \<longleftrightarrow> state_balance h < info_balance i" "head i = state_previous h"
    "result_amount r1 = (if sends then info_balance i - state_balance h else state_balance h - info_balance i)"
    "code r1 = Progress"
    using assms(1-3) by (auto simp: state_account_check_def Let_def split: if_splits)
  then show ?thesis
    using state_send state_receive state_change assms Some
    by (cases sends) (auto simp: state_link_check_def split: if_splits option.splits)
qed

text \<open>An outcome with progress is an accepted block, and its writes succeed.\<close>

lemma state_progress:
  assumes ok: "ledger_ok env l" and a0: "state_account (hashables b) \<noteq> 0"
    and sig: "signed_by env (state_account (hashables b)) (State_block b)"
    and fresh: "vblocks (view (store l)) (block_hash (digest env) (State_block b)) = None"
    "block_hash (digest env) (State_block b) \<noteq> 0"
    and checks: "state_account_check (store l) info_o r (hashables b) = (r1, sends)"
    "(if code r1 = Progress \<and> \<not> sends then state_link_check (store l) r1 e0 (hashables b) else (r1, e0)) = (r2, e)"
    "code r2 = Progress"
    and info: "info_o = account_get (store l) (state_account (hashables b))" "info = info_or_init info_o"
    "e0 = info_epoch info"
  shows "\<exists>v'. accepts env l (view (store l)) (State_block b) v' \<and>
    succeeds (state_block_apply env (store l) info sends (result_amount r2) e b) (seen_as v')"
proof -
  let ?v = "view (store l)" and ?a = "state_account (hashables b)"
  let ?pend = "state_pending env ?v sends (result_amount r2) e b"
  note chain = ledger_ok_seen(3) [OF ok]
  have e0: "e0 \<in> {Epoch_0, Epoch_1}"
    using info_or_init_epoch [OF chain, of ?a] info by simp
  from checks info(2,3)
  have "accepts env l ?v (State_block b) (state_view env ?v ?pend e b) \<and> e \<in> {Epoch_0, Epoch_1} \<and>
      head info = state_previous (hashables b) \<and> (\<not> sends \<longrightarrow> state_link (hashables b) \<noteq> 0 \<longrightarrow>
        vpending ?v (Pending_key ?a (state_link (hashables b))) \<noteq> None)"
  proof (cases rule: state_checks)
    case (state_send i)
    then show ?thesis
      using accept_state_send [OF sig, of ?v i] info e0 by (simp add: state_pending_def)
  next
    case (state_receive pd)
    then have "pending_epoch pd \<in> {Epoch_0, Epoch_1}"
      using pending_epochs [OF chain, of "Pending_key ?a (state_link (hashables b))" pd] by simp
    then show ?thesis
      using accept_state_receive [OF sig a0, of info ?v pd] state_receive info e0
      by (auto simp: state_pending_def max_def)
  next
    case (state_change i)
    then show ?thesis
      using accept_state_change [OF sig, of ?v i] info e0 by (simp add: state_pending_def)
  qed
  moreover from this have "succeeds (state_block_apply env (store l) info sends (result_amount r2) e b)
      (seen_as (state_view env ?v ?pend e b))"
    using state_writes [OF ledger_ok_seen(1) [OF ok] chain refl _ _ _ refl fresh, of info e sends "result_amount r2"]
      info by simp
  ultimately show ?thesis by blast
qed

lemma state_block_impl_ok:
  assumes ok: "ledger_ok env l" and free: "collision_free (digest env) (view (store l)) (State_block b)"
    and sound: "verification_sound env l (State_block b) (verified r)"
  shows "step_ok env l (State_block b) (state_block_impl env l r b)"
proof -
  define s where "s = store l"
  define h where "h = block_hash (digest env) (State_block b)"
  define a where "a = state_account (hashables b)"
  define info_o where "info_o = account_get s a"
  define info where "info = info_or_init info_o"
  note defs = state_block_impl_def Let_def s_def [symmetric] h_def [symmetric] a_def [symmetric]
    info_o_def [symmetric]
  show ?thesis
  proof (cases "block_exists_type s Bt_state h \<or> verified r \<noteq> Sv_valid \<and> validate_message env a h (signature b) \<or> a = 0")
    case True
    then show ?thesis
      using sound by (auto simp: defs verification_sound_def)
  next
    case fits: False
    have sig: "\<not> validate_message env a h (signature b)"
      using fits sound by (auto simp: verification_sound_def a_def h_def)
    have h: "vblocks (view s) h = None" "h \<noteq> 0"
      using new_hash [OF ok free] fits by (simp_all add: s_def h_def)
    have case_info: "(case info_o of Some i \<Rightarrow> i | None \<Rightarrow> account_info_init) = info"
      "(case info_o of Some i \<Rightarrow> info_epoch i | None \<Rightarrow> Epoch_0) = info_epoch info"
      by (simp_all add: info_def info_or_init_def account_info_init_def split: option.split)
    obtain r1 sends where c1: "state_account_check s info_o (r\<lparr>verified := Sv_valid\<rparr>) (hashables b) = (r1, sends)"
      by fastforce
    obtain r2 e where c2: "(if code r1 = Progress \<and> \<not> sends
        then state_link_check s r1 (info_epoch info) (hashables b) else (r1, info_epoch info)) = (r2, e)"
      by fastforce
    have call: "state_block_impl env l r b = (if code r2 = Progress
        then do {
          s \<leftarrow> state_block_apply env s info sends (result_amount r2) e b;
          Some (l\<lparr>store := s, stats := stat_inc (stats l) St_ledger Sd_state_block Dir_in\<rparr>,
            r2\<lparr>state_is_send := Some sends, result_account := a\<rparr>) }
        else Some (l, r2))"
      using fits sig c1 c2
      by (cases "code r1 = Progress"; cases sends) (simp_all add: defs case_info del: block_exists_type.simps)
    show ?thesis
    proof (cases "code r2 = Progress")
      case True
      from state_progress [OF ok _ _ _ _ c1 [unfolded s_def] c2 [unfolded s_def] True] fits sig h
      obtain v' where "accepts env l (view (store l)) (State_block b) v'"
        "succeeds (state_block_apply env s info sends (result_amount r2) e b) (seen_as v')"
        by (auto simp: signed_by_def a_def h_def s_def info_o_def info_def)
      then show ?thesis
        using True h(1) by (auto simp: call s_def h_def elim!: succeedsE intro!: step_ok_progress)
    next
      case False
      then show ?thesis by (simp add: call)
    qed
  qed
qed

lemma epoch_account_check_ok:
  assumes chain: "chain_inv H (view s)" and info: "info = info_or_init (account_get s (state_account h))"
  obtains c where "epoch_account_check s (account_get s (state_account h)) h = Some c"
    "c = Progress \<Longrightarrow> state_representative h = rep_of (vblocks (view s)) info"
    "c = Progress \<Longrightarrow> account_get s (state_account h) \<noteq> None \<Longrightarrow> head info = state_previous h"
proof (cases "account_get s (state_account h)")
  case None
  then show ?thesis
    using that no_block_zero [OF chain] info
    by (cases "state_representative h = 0")
      (simp_all add: info_or_init_def account_info_init_def rep_of_def epoch_account_check_def)
next
  case (Some i)
  then obtain rb sbr where "block_get_sideband s (rep_block i) = Some (rb, sbr)"
    "rep_of (vblocks (view s)) i = representative rb"
    using rep_block_set [OF chain, of "state_account h" i] by (metis view_simps(1,3))
  then show ?thesis
    using that Some info
    by (cases "state_previous h = 0"; cases "state_previous h = head i";
        cases "state_representative h = representative rb")
      (simp_all add: block_get_def epoch_account_check_def)
qed

lemma epoch_block_impl_ok:
  assumes ok: "ledger_ok env l" and free: "collision_free (digest env) (view (store l)) (State_block b)"
    and sound: "verification_sound env l (State_block b) (verified r)"
    and epoch: "epoch_link l \<noteq> 0" "state_link (hashables b) = epoch_link l"
    and placed: "epoch_placed l (State_block b)"
  shows "step_ok env l (State_block b) (epoch_block_impl env l r b)"
proof -
  define s where "s = store l"
  define h where "h = block_hash (digest env) (State_block b)"
  define a where "a = state_account (hashables b)"
  define info where "info = info_or_init (account_get s a)"
  let ?v = "view s"
  have chain: "chain_inv (digest env) ?v" and at0: "seen_as ?v s"
    using ledger_ok_seen [OF ok] by (simp_all add: s_def)
  note defs = epoch_block_impl_def Let_def s_def [symmetric] h_def [symmetric] a_def [symmetric]
    info_or_init_def [symmetric] info_def [symmetric]
  show ?thesis
  proof (cases "block_exists_type s Bt_state h \<or> verified r \<noteq> Sv_valid_epoch \<and>
      validate_message env (epoch_signer l) h (signature b) \<or> a = 0")
    case True
    then show ?thesis using sound by (auto simp: defs verification_sound_def)
  next
    case fits: False
    have sig: "\<not> validate_message env (epoch_signer l) h (signature b)"
      using fits sound by (auto simp: verification_sound_def h_def)
    have h: "vblocks ?v h = None" "h \<noteq> 0"
      using new_hash [OF ok free] fits by (simp_all add: s_def h_def)
    obtain c where c: "epoch_account_check s (account_get s a) (hashables b) = Some c"
      and rep: "c = Progress \<Longrightarrow> state_representative (hashables b) = rep_of (vblocks ?v) info"
      and prev: "c = Progress \<Longrightarrow> account_get s a \<noteq> None \<Longrightarrow> head info = state_previous (hashables b)"
      using epoch_account_check_ok [OF chain] by (metis a_def info_def)
    show ?thesis
    proof (cases "c = Progress \<and> info_epoch info = Epoch_0 \<and> state_balance (hashables b) = info_balance info")
      case False
      then show ?thesis using fits sig c by (auto simp: defs)
    next
      case True
      then have p: "head info = state_previous (hashables b)"
        using prev placed epoch
        by (cases "account_get s a") (auto simp: epoch_placed_def info_def info_or_init_def
            account_info_init_def s_def a_def)
      have acc: "accepts env l ?v (State_block b) (epoch_view env ?v b)"
        using accept_epoch [of env l b info ?v] sig fits epoch p True rep
        by (simp add: signed_by_def h_def a_def info_def)
      have "info = info_or_init (vaccounts ?v a)" by (simp add: info_def)
      from epoch_writes [OF at0 chain a_def [symmetric] this p _ h_def h] True
      show ?thesis
        using fits True sig c
        by (auto simp: defs sideband_for_def bind_eq_Some_conv elim!: succeedsE
            intro!: step_ok_progress [OF acc [unfolded s_def] h(1) [unfolded s_def h_def]])
    qed
  qed
qed

lemma epoch_block_check_ok:
  assumes ok: "ledger_ok env l"
  obtains r' is_epoch where "epoch_block_check env l r b = Some (r', is_epoch)"
    "code r' = Progress \<Longrightarrow> verified r' = verified r"
    "code r' = Progress \<Longrightarrow> is_epoch \<Longrightarrow> epoch_link l \<noteq> 0 \<and> state_link (hashables b) = epoch_link l"
proof -
  have "\<exists>bal. ledger_balance (store l) (state_previous (hashables b)) = Some bal"
    if "block_exists (store l) (state_previous (hashables b))"
    using that by (auto simp: ledger_balance_def block_balance_def block_exists_view)
  then have "\<exists>r' is_epoch. epoch_block_check env l r b = Some (r', is_epoch) \<and>
      (code r' = Progress \<longrightarrow> verified r' = verified r) \<and>
      (code r' = Progress \<longrightarrow> is_epoch \<longrightarrow> epoch_link l \<noteq> 0 \<and> state_link (hashables b) = epoch_link l)"
    by (auto simp: epoch_block_check_def is_epoch_link_def Let_def)
  then show ?thesis using that by blast
qed

lemma state_block_process_ok:
  assumes ok: "ledger_ok env l" and free: "collision_free (digest env) (view (store l)) (State_block b)"
    and sound: "verification_sound env l (State_block b) (verified r)"
    and placed: "epoch_placed l (State_block b)"
  shows "step_ok env l (State_block b) (state_block_process env l r b)"
proof -
  obtain r' is_epoch where r': "epoch_block_check env l r b = Some (r', is_epoch)"
    "code r' = Progress \<Longrightarrow> verified r' = verified r"
    "code r' = Progress \<Longrightarrow> is_epoch \<Longrightarrow> epoch_link l \<noteq> 0 \<and> state_link (hashables b) = epoch_link l"
    using epoch_block_check_ok [OF ok, of r b] by metis
  show ?thesis
    using r' sound epoch_block_impl_ok [OF ok free _ _ _ placed] state_block_impl_ok [OF ok free]
    by (auto simp: state_block_process_def)
qed

section \<open>Processing a block\<close>

lemma process_step_ok:
  assumes "ledger_ok env l" "collision_free (digest env) (view (store l)) b"
    and "verification_sound env l b ver" "epoch_placed l b"
  shows "step_ok env l b (process env l b ver)"
proof -
  have "verified (process_return_init ver) = ver" by (simp add: process_return_init_def)
  then show ?thesis
    using assms send_block_process_ok receive_block_process_ok open_block_process_ok
      change_block_process_ok state_block_process_ok
    by (cases b) (simp_all add: process_def Let_def)
qed

theorem process_keeps_ok:
  assumes ok: "ledger_ok env l" and free: "collision_free (digest env) (view (store l)) b"
    and "verification_sound env l b ver" "epoch_placed l b"
  obtains l' r where "process env l b ver = Some (l', r)" "ledger_ok env l'"
    "code r = Progress \<Longrightarrow> accepts env l (view (store l)) b (view (store l'))"
    "code r = Progress \<Longrightarrow> vblocks (view (store l)) (block_hash (digest env) b) = None"
    "code r \<noteq> Progress \<Longrightarrow> l' = l"
    "l' = l\<lparr>store := store l', stats := stats l'\<rparr>"
proof -
  obtain l' r where run: "process env l b ver = Some (l', r)"
    and step: "if code r = Progress
       then vblocks (view (store l)) (block_hash (digest env) b) = None \<and> store_ok (store l') \<and>
         accepts env l (view (store l)) b (view (store l')) \<and> l' = l\<lparr>store := store l', stats := stats l'\<rparr>
       else l' = l"
    using process_step_ok [OF assms] unfolding step_ok_def succeeds_def by auto
  have "ledger_ok env l'"
  proof (cases "code r = Progress")
    case True
    have "block_hash (digest env) b \<noteq> 0" using free by (simp add: collision_free_def)
    with True step ok accepts_inv [of env l "view (store l)" b "view (store l')"] show ?thesis
      by (simp add: ledger_ok_def)
  next
    case False
    then show ?thesis using step ok by simp
  qed
  with run step that show ?thesis by (cases "code r = Progress") auto
qed

end
