(* ===== verification/Genesis.thy ===== *)
theory Genesis
  imports Processor_Steps
begin

text \<open>
  The ledger of a running node: it starts from the store that \<open>mdb_store::initialize\<close> writes
  the genesis block to and is changed by \<open>ledger::process\<close> and by the one-way switch of
  \<open>ledger::weight\<close>. Every ledger reached this way satisfies the invariant.
\<close>

section \<open>The first block\<close>

text \<open>
  What the constants of \<open>nano/secure/common.cpp\<close> satisfy: the genesis block opens the
  genesis account and names it as its own representative.
\<close>

definition genesis_ok :: "env \<Rightarrow> open_hashables signed \<Rightarrow> bool" where
  "genesis_ok env g \<longleftrightarrow> open_account (hashables g) = genesis_account env \<and>
     open_representative (hashables g) = genesis_account env \<and> genesis_account env \<noteq> 0 \<and>
     block_hash (digest env) (Open_block g) \<noteq> 0"

definition genesis_sideband :: "env \<Rightarrow> block_sideband" where
  "genesis_sideband env = \<lparr>sb_type = Bt_open, successor = 0, sb_account = genesis_account env,
     sb_balance = genesis_amount, height = 1, timestamp = now env\<rparr>"

definition genesis_view :: "env \<Rightarrow> open_hashables signed \<Rightarrow> view" where
  "genesis_view env g =
     (let h = block_hash (digest env) (Open_block g) in
      \<lparr>vblocks = [h \<mapsto> (Open_block g, sideband_stored (genesis_sideband env))],
        vversion = (\<lambda>_. Epoch_0),
        vaccounts = [genesis_account env \<mapsto> \<lparr>head = h, rep_block = h, open_block = h,
          info_balance = genesis_amount, modified = now env, block_count = 1, info_epoch = Epoch_0\<rparr>],
        vpending = Map.empty, vfrontiers = [h \<mapsto> genesis_account env],
        vweight = (\<lambda>r. if r = genesis_account env then genesis_amount else 0)\<rparr>)"

lemma store_init_ok: "store_ok store_init"
  by (simp add: store_ok_def blocks_ok_def accounts_ok_def pending_ok_def store_init_def)

lemma view_store_init:
  "view store_init = \<lparr>vblocks = Map.empty, vversion = (\<lambda>_. Epoch_0), vaccounts = Map.empty,
     vpending = Map.empty, vfrontiers = Map.empty, vweight = (\<lambda>_. 0)\<rparr>"
  by (intro view_eqI) (simp_all add: store_init_def block_get_sideband_def block_raw_get_def
      block_version_def account_get_def pending_get_def representation_get_def fun_eq_iff)

lemma keys_from_empty [simp]: "keys_from Map.empty k = []"
  by (simp add: keys_from_def)

lemma initialize_view:
  assumes "genesis_ok env g"
  obtains s where "initialize env store_init (Open_block g) = Some s" "store_ok s"
    "view s = genesis_view env g"
proof -
  let ?h = "block_hash (digest env) (Open_block g)"
  have h: "?h \<noteq> 0" using assms by (simp add: genesis_ok_def)
  have fresh: "account_get store_init = Map.empty" "block_get_sideband store_init = Map.empty"
    using arg_cong [OF view_store_init, of vaccounts] arg_cong [OF view_store_init, of vblocks]
    by simp_all
  obtain s1 where s1: "block_put (digest env) store_init ?h (Open_block g) (genesis_sideband env) Epoch_0 = Some s1"
    "store_ok s1" "view s1 = vblock_put (view store_init) ?h (Open_block g) (genesis_sideband env) Epoch_0"
    using block_put_ok [OF store_init_ok, of ?h "digest env" "Open_block g" "genesis_sideband env" Epoch_0 Db_open]
      h fresh by (auto simp: genesis_sideband_def)
  let ?i = "\<lparr>head = ?h, rep_block = ?h, open_block = ?h, info_balance = genesis_amount,
    modified = now env, block_count = 1, info_epoch = Epoch_0\<rparr>"
  have none: "account_get s1 a = None" for a
    using arg_cong [OF s1(3), of vaccounts] fresh by (simp add: vblock_put_def)
  obtain s2 where s2: "account_put s1 (genesis_account env) ?i = Some s2" "store_ok s2"
    "view s2 = (view s1)\<lparr>vaccounts := (vaccounts (view s1))(genesis_account env \<mapsto> ?i)\<rparr>"
    using account_put_ok [OF s1(2), of ?i "genesis_account env"] none by auto
  let ?s = "frontier_put (representation_put s2 (genesis_account env) genesis_amount) ?h (genesis_account env)"
  have "initialize env store_init (Open_block g) = Some ?s"
    using s1(1) s2(1) by (simp add: initialize_def genesis_sideband_def store_init_def)
  moreover have "view ?s = genesis_view env g"
    using s1(3) s2(3) h
    by (simp add: view_store_init genesis_view_def vblock_put_def entry_link_def Let_def fun_eq_iff)
  ultimately show ?thesis using that [of ?s] s2(2) by simp
qed

lemma genesis_view_inv:
  assumes "genesis_ok env g"
  shows "ledger_inv (digest env) (genesis_view env g)"
proof -
  let ?v = "genesis_view env g" and ?h = "block_hash (digest env) (Open_block g)"
  note defs = genesis_ok_def genesis_view_def Let_def genesis_sideband_def
  note entry = entry_account_def sideband_stored_def sideband_read_back_def entry_balance_def
  have rep: "rep_at (vblocks ?v) ?h ?h"
    by (rule rep_here [where b = "Open_block g"]) (simp_all add: defs)
  have "chain_inv (digest env) ?v"
    using assms rep
    by (auto simp: chain_inv_def block_inv_def account_inv_def frontier_inv_def pending_inv_def
        legacy_def entry defs split: if_splits)
  moreover have "supply_inv ?v"
    by (simp add: supply_inv_def total_supply_def defs table_sum_def)
  moreover have "vweight ?v = delegated ?v"
    using assms by (auto simp: delegated_def rep_of_def table_sum_def defs fun_eq_iff)
  ultimately show ?thesis by (simp add: ledger_inv_def)
qed

end
