(* ===== verification/Reachable.thy ===== *)
theory Reachable
  imports Rollback_Exact Genesis
begin

text \<open>
  The ledger of a running node: it starts from the store that \<open>mdb_store::initialize\<close> writes
  the genesis block to, and is changed by \<open>ledger::process\<close>, \<open>ledger::rollback\<close> and the one-way
  switch of \<open>ledger::weight\<close>, each in a write transaction of its own. Every ledger reached this
  way is in order, and every operation on it returns.
\<close>

section \<open>Ledgers in order\<close>

definition good :: "env \<Rightarrow> network \<Rightarrow> ledger \<Rightarrow> bool" where
  "good env n l \<longleftrightarrow> ledger_ok env l \<and> view_prov n (lview l) \<and>
     net_epoch_link n = epoch_link l \<and> net_genesis_account n = genesis_account env"

lemma good_rb: "good env n l \<longleftrightarrow> (\<exists>rank. rb_ok env n rank (\<lambda>_. 0) l)"
  by (auto simp: good_def rb_ok_def rb_inv_def ledger_ok_def ledger_inv_def view_prov_def fun_eq_iff)

lemma ledger_ok_now [simp]: "ledger_ok (env\<lparr>now := t\<rparr>) l = ledger_ok env l"
  by (simp add: ledger_ok_def)

lemma good_now [simp]: "good (env\<lparr>now := t\<rparr>) n l = good env n l"
  by (simp add: good_def)

section \<open>Steps\<close>

text \<open>
  What holds of a block that is handed to the ledger: no collision of its hash with that of
  a stored block or with a constant of the network, a truthful verification state, and an
  epoch block of an unopened account that is its first. The ledger shares its counters with
  the rest of the node, which counts events of its own (\<open>op_stat\<close>).
\<close>

definition admissible :: "env \<Rightarrow> network \<Rightarrow> ledger \<Rightarrow> block \<Rightarrow> signature_verification \<Rightarrow> bool" where
  "admissible env n l b ver \<longleftrightarrow> collision_free (digest env) (lview l) b \<and>
     hash_apart n (block_hash (digest env) b) \<and> verification_sound env l b ver \<and> epoch_placed l b"

lemma verification_now [simp]: "verification_sound (env\<lparr>now := t\<rparr>) l b ver = verification_sound env l b ver"
  by (simp add: verification_sound_def validate_message_def)

lemma admissible_now [simp]: "admissible (env\<lparr>now := t\<rparr>) n l b ver = admissible env n l b ver"
  by (simp add: admissible_def)

inductive ledger_op :: "env \<Rightarrow> network \<Rightarrow> ledger \<Rightarrow> ledger \<Rightarrow> bool" for env n where
  op_process:
    "admissible env n l b ver \<Longrightarrow> process (env\<lparr>now := t\<rparr>) l b ver = Some (l', r) \<Longrightarrow> ledger_op env n l l'"
| op_rollback:
    "h \<noteq> net_genesis n \<Longrightarrow> rollback_list (env\<lparr>now := t\<rparr>) l h list = Some (l', list') \<Longrightarrow> ledger_op env n l l'"
| op_weight: "weight l a = (l', w) \<Longrightarrow> ledger_op env n l l'"
| op_stat: "ledger_op env n l (l\<lparr>stats := stat_inc (stats l) t d dir\<rparr>)"

inductive_cases ledger_opE: "ledger_op env n l l'"

definition network_of :: "env \<Rightarrow> open_hashables signed \<Rightarrow> uint256 \<Rightarrow> network" where
  "network_of env g el = \<lparr>net_genesis = block_hash (digest env) (Open_block g), net_epoch_link = el,
     net_genesis_account = genesis_account env\<rparr>"

text \<open>What holds of the genesis block and the epoch link of a network.\<close>

definition network_ok :: "env \<Rightarrow> open_hashables signed \<Rightarrow> uint256 \<Rightarrow> bool" where
  "network_ok env g el \<longleftrightarrow> genesis_ok env g \<and>
     hash_apart (network_of env g el) (block_hash (digest env) (Open_block g))"

text \<open>
  The bootstrap weights and the height up to which they count are read from a file when the
  node starts; they can be anything.
\<close>

inductive reachable :: "env \<Rightarrow> open_hashables signed \<Rightarrow> uint256 \<Rightarrow> ledger \<Rightarrow> bool" for env g el where
  reachable_init:
    "initialize (env\<lparr>now := t\<rparr>) store_init (Open_block g) = Some s \<Longrightarrow>
     reachable env g el ((ledger_init s stat_init 0 el sg)
       \<lparr>bootstrap_weights := bw, bootstrap_weight_max_blocks := m\<rparr>)"
| reachable_op: "reachable env g el l \<Longrightarrow> ledger_op env (network_of env g el) l l' \<Longrightarrow> reachable env g el l'"

section \<open>Every operation keeps the ledger in order\<close>

lemma process_good:
  assumes good: "good env n l" and adm: "admissible env n l b ver"
  obtains l' r where "process env l b ver = Some (l', r)" "good env n l'"
    "code r = Progress \<Longrightarrow> accepts env l (lview l) b (lview l')"
    "code r = Progress \<Longrightarrow> vblocks (lview l) (block_hash (digest env) b) = None"
    "code r \<noteq> Progress \<Longrightarrow> l' = l" "keeps l l'"
proof -
  have g: "ledger_ok env l" "view_prov n (lview l)" "net_epoch_link n = epoch_link l"
    "net_genesis_account n = genesis_account env" using good by (simp_all add: good_def)
  have a: "collision_free (digest env) (lview l) b" "hash_apart n (block_hash (digest env) b)"
    "verification_sound env l b ver" "epoch_placed l b" using adm by (simp_all add: admissible_def)
  obtain l' r where p: "process env l b ver = Some (l', r)" "ledger_ok env l'"
    "code r = Progress \<Longrightarrow> accepts env l (lview l) b (lview l')"
    "code r = Progress \<Longrightarrow> vblocks (lview l) (block_hash (digest env) b) = None"
    "code r \<noteq> Progress \<Longrightarrow> l' = l" "l' = l\<lparr>store := store l', stats := stats l'\<rparr>"
    by (rule process_keeps_ok [OF g(1) a(1,3,4)]) (rule that)
  have "ledger_inv (digest env) (lview l)" using g(1) by (simp add: ledger_ok_def)
  then have "view_prov n (lview l')"
    using accepts_prov [OF p(3) _ g(2) p(4) a(2) g(3)] p(5) g(2) by (cases "code r = Progress") auto
  moreover have k: "keeps l l'" using p(6) by (simp add: keeps_def)
  ultimately have "good env n l'" using p(2) g(3,4) keeps_epoch [OF k] by (simp add: good_def)
  with that p(1,3-5) k show ?thesis by blast
qed

lemma rollback_good:
  assumes good: "good env n l" and h: "vblocks (lview l) h \<noteq> None" "h \<noteq> net_genesis n"
  obtains l' hs where "rollback_list env l h list = Some (l', list @ hs)" "good env n l'"
    "keeps l l'" "distinct hs" "set hs = {x. depends n (core (lview l)) h x}"
    "\<And>x. core (lview l') x = (if x \<in> set hs then None else core (lview l) x)"
proof -
  obtain rank where "rb_ok env n rank (\<lambda>_. 0) l" using good by (auto simp: good_rb)
  from rollback_exact [OF this h, of list] show ?thesis using that by (auto simp: good_rb)
qed

lemma rollback_missing: "block_get_sideband (store l) h = None \<Longrightarrow> rollback_list env l h list = None"
  unfolding rollback_list_def by (subst rollback_run.simps) (simp add: block_exists_view)

lemma weight_same: "weight l a = (l', w) \<Longrightarrow> store l' = store l \<and> epoch_link l' = epoch_link l"
  by (auto simp: weight_def split: if_splits option.splits)

lemma ledger_op_good:
  assumes "ledger_op env n l l'" "good env n l"
  shows "good env n l'"
  using assms(1)
proof cases
  case (op_process b ver t r)
  then show ?thesis
    using process_good [of "env\<lparr>now := t\<rparr>" n l b ver] assms(2) by (metis admissible_now good_now option.inject prod.inject)
next
  case (op_rollback h t list list')
  then have "vblocks (lview l) h \<noteq> None" using rollback_missing by fastforce
  then show ?thesis
    using rollback_good [of "env\<lparr>now := t\<rparr>" n l h list] assms(2) op_rollback
    by (metis good_now option.inject prod.inject)
next
  case (op_weight a w)
  then show ?thesis using assms(2) weight_same [OF op_weight] by (simp add: good_def ledger_ok_def)
next
  case (op_stat t d dir)
  then show ?thesis using assms(2) by (simp add: good_def ledger_ok_def)
qed

lemma genesis_prov:
  assumes "genesis_ok env g" "hash_apart (network_of env g el) (block_hash (digest env) (Open_block g))"
  shows "view_prov (network_of env g el) (genesis_view env g)"
proof -
  let ?c = "core (genesis_view env g)" and ?h = "block_hash (digest env) (Open_block g)"
  have c: "?c = [?h \<mapsto> (Open_block g, entry_account (Open_block g, sideband_stored (genesis_sideband env)),
      entry_balance (Open_block g, sideband_stored (genesis_sideband env)))]"
    by (simp add: core_def genesis_view_def Let_def fun_eq_iff)
  have n: "net_genesis (network_of env g el) = ?h" by (simp add: network_of_def)
  have none: "received_in (network_of env g el) ?c x = None" "sent ?c x = None" for x
    by (simp_all add: n c received_def sent_def)
  have "vpending (genesis_view env g) = Map.empty" by (simp add: genesis_view_def Let_def)
  with assms none have "prov_inv (network_of env g el) ?c (vversion (genesis_view env g))
      (vpending (genesis_view env g)) (\<lambda>_. 0)"
    unfolding prov_inv_def n
    by (auto simp: c prev_at_def linked_def ranked_def sends_down_def hash_apart_def genesis_ok_def split: if_splits)
  then show ?thesis by (auto simp: view_prov_def)
qed

lemma genesis_good:
  assumes "genesis_ok env g" "hash_apart (network_of env g el) (block_hash (digest env) (Open_block g))"
    and s: "initialize env store_init (Open_block g) = Some s" and l: "store l = s" "epoch_link l = el"
  shows "good env (network_of env g el) l"
proof -
  have "store_ok s" "view s = genesis_view env g"
    using initialize_view [OF assms(1)] s by (metis option.inject)+
  with l show ?thesis
    using genesis_view_inv [OF assms(1)] genesis_prov [OF assms(1,2)]
    by (simp add: good_def ledger_ok_def) (simp add: network_of_def)
qed

lemma genesis_ok_now [simp]: "genesis_ok (env\<lparr>now := t\<rparr>) g = genesis_ok env g"
  by (simp add: genesis_ok_def)

lemma network_of_now [simp]: "network_of (env\<lparr>now := t\<rparr>) g el = network_of env g el"
  by (simp add: network_of_def)

lemma reachable_good:
  assumes "reachable env g el l" "genesis_ok env g"
    and "hash_apart (network_of env g el) (block_hash (digest env) (Open_block g))"
  shows "good env (network_of env g el) l"
  using assms(1)
proof induction
  case (reachable_init t s m bw sg)
  have "good (env\<lparr>now := t\<rparr>) (network_of (env\<lparr>now := t\<rparr>) g el)
      ((ledger_init s stat_init 0 el sg)\<lparr>bootstrap_weights := bw, bootstrap_weight_max_blocks := m\<rparr>)"
    by (rule genesis_good [OF _ _ reachable_init]) (use assms(2,3) in \<open>simp_all add: ledger_init_def\<close>)
  then show ?case by simp
next
  case (reachable_op l l')
  then show ?case using ledger_op_good by blast
qed

lemma network_good:
  assumes "reachable env g el l" "network_ok env g el"
  shows "good env (network_of env g el) l"
  using reachable_good [OF assms(1)] assms(2) by (simp add: network_ok_def)

end
