(* ===== verification/Determined.thy ===== *)
theory Determined
  imports Reachable
begin

text \<open>
  The other tables are functions of the blocks: two ledgers in order with the same blocks
  have the same account heads, balances, pending entries, frontiers and voting weights. So a
  rollback of the block that was processed last restores all of them.
\<close>

section \<open>What the blocks determine\<close>

definition account_facts :: "view \<Rightarrow> uint256 \<Rightarrow> (uint256 \<times> uint256 \<times> uint256 \<times> uint128) option" where
  "account_facts v a = map_option (\<lambda>i. (head i, rep_block i, open_block i, info_balance i)) (vaccounts v a)"

definition pending_facts :: "view \<Rightarrow> pending_key \<Rightarrow> (uint256 \<times> uint128) option" where
  "pending_facts v k = map_option (\<lambda>p. (pending_source p, pending_amount p)) (vpending v k)"

lemma core_entry:
  assumes "core v = core v'" "vblocks v x = Some (b, sb)"
  obtains sb' where "vblocks v' x = Some (b, sb')" "entry_account (b, sb') = entry_account (b, sb)"
    "entry_balance (b, sb') = entry_balance (b, sb)"
  using fun_cong [OF assms(1), of x] assms(2) that by (cases "vblocks v' x") (auto simp: core_def)

lemma rep_at_core: "rep_at (vblocks v) h r \<Longrightarrow> core v = core v' \<Longrightarrow> rep_at (vblocks v') h r"
proof (induction rule: rep_at.induct)
  case (rep_here h b sb)
  from core_entry [OF rep_here(3,1)] obtain sb' where "vblocks v' h = Some (b, sb')" .
  then show ?case using rep_here(2) by (rule rep_at.rep_here)
next
  case (rep_back h b sb r)
  from core_entry [OF rep_back(5,1)] obtain sb' where "vblocks v' h = Some (b, sb')" .
  then show ?case using rep_back(2) rep_back(4) [OF rep_back(5)] by (rule rep_at.rep_back)
qed

lemma account_core:
  assumes chain: "chain_inv H v" "chain_inv H v'" and core: "core v = core v'" and i: "vaccounts v a = Some i"
  obtains i' where "vaccounts v' a = Some i'" "head i' = head i" "rep_block i' = rep_block i"
    "open_block i' = open_block i" "info_balance i' = info_balance i"
proof -
  obtain b sb where b: "vblocks v (head i) = Some (b, sb)"
    using chain_inv_account [OF chain(1) i] by (auto simp: account_inv_def)
  then have last: "last_block v a (head i) b sb i" using i by (simp add: last_block_def)
  note f = last_block_facts [OF chain(1) last]
  obtain sb' where sb': "vblocks v' (head i) = Some (b, sb')" "entry_account (b, sb') = a"
    "entry_balance (b, sb') = info_balance i"
    using core_entry [OF core b] unfolding f(4,6) .
  note inv' = chain_inv_block [OF chain(2) sb'(1)]
  have "successor sb' = 0"
  proof (rule ccontr)
    assume "successor sb' \<noteq> 0"
    then obtain b1 sb1 where b1: "vblocks v' (successor sb') = Some (b1, sb1)" "previous b1 = head i"
      using inv' by (auto simp: block_inv_def)
    from core_entry [OF core [symmetric] b1(1)] obtain s where "vblocks v (successor sb') = Some (b1, s)" .
    then show False using last_unreferenced [OF chain(1) last] b1(2) by blast
  qed
  then obtain i' where i': "vaccounts v' a = Some i'" "head i' = head i"
    using inv' sb'(2) by (auto simp: block_inv_def)
  have last': "last_block v' a (head i) b sb' i'" using i' sb'(1) by (simp add: last_block_def)
  obtain bo so where bo: "vblocks v (open_block i) = Some (bo, so)" "entry_account (bo, so) = a" "previous bo = 0"
    using chain_inv_account [OF chain(1) i] by (auto simp: account_inv_def)
  obtain so' where so': "vblocks v' (open_block i) = Some (bo, so')" "entry_account (bo, so') = a"
    using core_entry [OF core bo(1)] unfolding bo(2) .
  then have "open_block i' = open_block i"
    using chain_inv_block [OF chain(2) so'(1)] bo(3) i'(1) by (auto simp: block_inv_def)
  moreover have "rep_block i' = rep_block i"
    using rep_at_det [OF rep_at_core [OF f(9) core]] last_block_facts(9) [OF chain(2) last'] by simp
  moreover have "info_balance i' = info_balance i"
    using last_block_facts(6) [OF chain(2) last'] sb'(3) by simp
  ultimately show ?thesis using that i' by blast
qed

lemma account_facts_core:
  assumes "chain_inv H v" "chain_inv H v'" "core v = core v'"
  shows "account_facts v = account_facts v'"
proof
  fix a
  show "account_facts v a = account_facts v' a"
  proof (cases "vaccounts v a")
    case None
    have "vaccounts v' a = None"
    proof (cases "vaccounts v' a")
      case (Some i)
      from account_core [OF assms(2,1) assms(3) [symmetric] Some] None show ?thesis by simp
    qed
    with None show ?thesis by (simp add: account_facts_def)
  next
    case (Some i)
    from account_core [OF assms Some] obtain i' where "vaccounts v' a = Some i'" "head i' = head i"
      "rep_block i' = rep_block i" "open_block i' = open_block i" "info_balance i' = info_balance i" .
    with Some show ?thesis by (simp add: account_facts_def)
  qed
qed

lemma pending_facts_core:
  assumes "chain_inv H v" "chain_inv H v'" "core v = core v'"
    and prov: "prov_inv n (core v) (vversion v) (vpending v) rank" "prov_inv n (core v') (vversion v') (vpending v') rank'"
  shows "pending_facts v = pending_facts v'"
proof -
  have facts: "pending_facts u k = Some (account_at (core u) (key_hash k),
      bal_at (core u) (prev_at (core u) (key_hash k)) - bal_at (core u) (key_hash k))"
    if u: "chain_inv H u" "vpending u k \<noteq> None" for u k
  proof -
    obtain p where p: "vpending u k = Some p" using u(2) by auto
    have "pending_source p = account_at (core u) (key_hash k)"
      using chain_inv_pending [OF u(1) p] by (auto simp: pending_inv_def account_at_def core_def)
    then show ?thesis using p pending_provenance(1) [OF u(1) p] by (simp add: pending_facts_def)
  qed
  have dom: "vpending v k = None \<longleftrightarrow> vpending v' k = None" for k
    using prov_invD(11,12) [OF prov(1)] prov_invD(11,12) [OF prov(2)] assms(3)
    by (metis pending_key.collapse)
  show ?thesis
  proof
    fix k
    show "pending_facts v k = pending_facts v' k"
      using dom [of k] facts [OF assms(1), of k] facts [OF assms(2), of k] assms(3)
      by (cases "vpending v k") (auto simp: pending_facts_def)
  qed
qed

lemma rep_of_core:
  assumes "core v = core v'" "rep_block i = rep_block i'"
  shows "rep_of (vblocks v) i = rep_of (vblocks v') i'"
  using fun_cong [OF assms(1), of "rep_block i"] assms(2)
  by (auto simp: rep_of_def core_def split: option.splits)

lemma delegated_core:
  assumes "account_facts v = account_facts v'" "core v = core v'"
  shows "delegated v = delegated v'"
proof
  fix r
  have eq: "map_option (\<lambda>i. (head i, rep_block i, open_block i, info_balance i)) (vaccounts v a) =
      map_option (\<lambda>i. (head i, rep_block i, open_block i, info_balance i)) (vaccounts v' a)" for a
    using fun_cong [OF assms(1), of a] by (simp add: account_facts_def)
  have "vaccounts v a = None \<longleftrightarrow> vaccounts v' a = None" for a
    using arg_cong [OF eq [of a], of "\<lambda>x. x = None"] by simp
  then have "dom (vaccounts v) = dom (vaccounts v')" by (simp only: dom_def)
  moreover have "(if rep_of (vblocks v) i = r then info_balance i else 0) =
      (if rep_of (vblocks v') i' = r then info_balance i' else 0)"
    if "vaccounts v a = Some i" "vaccounts v' a = Some i'" for a i i'
    using eq [of a] that rep_of_core [OF assms(2), of i i'] by simp
  ultimately show "delegated v r = delegated v' r"
    unfolding delegated_def table_sum_def by (intro sum.cong) (blast, fastforce)
qed

lemma frontier_core:
  assumes chain: "chain_inv H v" "chain_inv H v'" and core: "core v = core v'" and f: "vfrontiers v h = Some a"
  shows "vfrontiers v' h = Some a"
proof -
  obtain i b sb where i: "vaccounts v a = Some i" "head i = h" "vblocks v h = Some (b, sb)" "legacy b"
    using chain(1) f unfolding chain_inv_def frontier_inv_def by blast
  obtain i' where "vaccounts v' a = Some i'" "head i' = h"
    using account_core [OF chain core i(1)] unfolding i(2) .
  moreover obtain sb' where "vblocks v' h = Some (b, sb')" by (rule core_entry [OF core i(3)])
  ultimately show ?thesis using chain(2) i(4) unfolding chain_inv_def frontier_inv_def by blast
qed

lemma frontiers_core:
  assumes "chain_inv H v" "chain_inv H v'" "core v = core v'"
  shows "vfrontiers v = vfrontiers v'"
proof
  fix h
  show "vfrontiers v h = vfrontiers v' h"
    using frontier_core [OF assms, of h] frontier_core [OF assms(2,1) assms(3) [symmetric], of h]
    by (cases "vfrontiers v h"; cases "vfrontiers v' h") auto
qed

lemma good_determined:
  assumes "good env n l" "good env n l'" "core (lview l) = core (lview l')"
  shows "account_facts (lview l) = account_facts (lview l')" "pending_facts (lview l) = pending_facts (lview l')"
    "vfrontiers (lview l) = vfrontiers (lview l')" "vweight (lview l) = vweight (lview l')"
proof -
  have c: "chain_inv (digest env) (lview l)" "chain_inv (digest env) (lview l')"
    and w: "vweight (lview l) = delegated (lview l)" "vweight (lview l') = delegated (lview l')"
    using assms(1,2) by (simp_all add: good_def ledger_ok_def ledger_inv_def)
  show a: "account_facts (lview l) = account_facts (lview l')" by (rule account_facts_core [OF c assms(3)])
  show "pending_facts (lview l) = pending_facts (lview l')"
    using assms(1,2) pending_facts_core [OF c assms(3)] unfolding good_def view_prov_def by blast
  show "vfrontiers (lview l) = vfrontiers (lview l')" by (rule frontiers_core [OF c assms(3)])
  show "vweight (lview l) = vweight (lview l')" unfolding w by (rule delegated_core [OF a assms(3)])
qed

end
