(* ===== verification/Ledger_Facts.thy ===== *)
theory Ledger_Facts
  imports Determined
begin

text \<open>
  Consequences for ledgers in order: sums of balances do not wrap around, the walk from the
  head of an account visits exactly its blocks, and rolling back the block that was
  processed last takes off that block only.
\<close>

section \<open>Sums of words\<close>

lemma unat_sum:
  fixes f :: "'b \<Rightarrow> 'a::len word"
  assumes "finite A" "(\<Sum>x\<in>A. unat (f x)) < 2 ^ LENGTH('a)"
  shows "unat (\<Sum>x\<in>A. f x) = (\<Sum>x\<in>A. unat (f x))"
  using assms
proof (induction A)
  case (insert x A)
  then have "unat (\<Sum>x\<in>A. f x) = (\<Sum>x\<in>A. unat (f x))" by simp
  with insert show ?case by (simp add: unat_word_ariths)
qed simp

text \<open>The weight of a representative is the sum of the balances delegated to it, as numbers.\<close>

lemma delegated_unat:
  assumes "supply_inv v"
  shows "unat (delegated v r) =
    (\<Sum>a\<in>{a \<in> dom (vaccounts v). rep_of (vblocks v) (the (vaccounts v a)) = r}. unat (info_balance (the (vaccounts v a))))"
proof -
  let ?f = "\<lambda>a. if rep_of (vblocks v) (the (vaccounts v a)) = r then info_balance (the (vaccounts v a)) else 0"
  have fin: "finite (dom (vaccounts v))" using assms by (simp add: supply_inv_def)
  have "(\<Sum>a\<in>dom (vaccounts v). unat (?f a)) \<le> (\<Sum>a\<in>dom (vaccounts v). unat (info_balance (the (vaccounts v a))))"
    by (intro sum_mono) simp
  also have "\<dots> \<le> total_supply v" by (simp add: total_supply_def table_sum_def)
  also have "\<dots> < 2 ^ LENGTH(128)"
    using assms unat_bound [of genesis_amount] by (simp add: supply_inv_def)
  finally have "unat (\<Sum>a\<in>dom (vaccounts v). ?f a) = (\<Sum>a\<in>dom (vaccounts v). unat (?f a))"
    by (intro unat_sum [OF fin]) simp
  also have "\<dots> = (\<Sum>a\<in>{a \<in> dom (vaccounts v). rep_of (vblocks v) (the (vaccounts v a)) = r}. unat (info_balance (the (vaccounts v a))))"
    using fin by (intro sum.mono_neutral_cong_right) auto
  finally show ?thesis by (simp add: delegated_def table_sum_def)
qed

section \<open>Walking a chain\<close>

text \<open>
  \<open>ledger::dump_account_chain\<close> prints the hashes from the head of an account back to its first
  block; here they are the result. \<open>None\<close>: a block is missing, or the loop does not end.
\<close>

partial_function (option) chain_walk :: "store \<Rightarrow> uint256 \<Rightarrow> uint256 list option" where
  "chain_walk s hash =
     (if hash = 0 then Some []
      else do {
        b \<leftarrow> block_get s hash;
        rest \<leftarrow> chain_walk s (previous b);
        Some (hash # rest) })"

definition dump_account_chain :: "store \<Rightarrow> uint256 \<Rightarrow> uint256 list option" where
  "dump_account_chain s a = chain_walk s (latest s a)"

lemma chain_walk_from:
  assumes chain: "chain_inv H (view s)" and rank: "ranked g (core (view s)) rank"
    and "vblocks (view s) h = Some (b, sb)" "entry_account (b, sb) = a"
  obtains hs where "chain_walk s h = Some (h # hs)" "distinct (h # hs)"
    "\<And>x. x \<in> set (h # hs) \<Longrightarrow> \<exists>b sb. vblocks (view s) x = Some (b, sb) \<and> entry_account (b, sb) = a \<and> rank x \<le> rank h \<and>
       (previous b \<noteq> 0 \<longrightarrow> previous b \<in> set (h # hs))"
  using assms(3,4)
proof (induction "rank h" arbitrary: h b sb thesis rule: less_induct)
  case less
  have h0: "h \<noteq> 0" using less.prems(2) no_block_zero [OF chain] by auto
  have get: "block_get s h = Some b" using less.prems(2) by (simp add: block_get_view)
  show ?case
  proof (cases "previous b = 0")
    case True
    have "chain_walk s 0 = Some []" by (subst chain_walk.simps) simp
    then have "chain_walk s h = Some [h]" using h0 get True by (subst chain_walk.simps) simp
    then show ?thesis using less.prems True by (intro less.prems(1) [of "[]"]) auto
  next
    case False
    obtain b' sb' where p: "vblocks (view s) (previous b) = Some (b', sb')" "entry_account (b', sb') = a"
      using chain_inv_block [OF chain less.prems(2)] False less.prems(3) unfolding block_inv_def by metis
    have lt: "rank (previous b) < rank h" by (rule ranked_previous [OF rank less.prems(2) False])
    obtain hs where hs: "chain_walk s (previous b) = Some (previous b # hs)" "distinct (previous b # hs)"
      "\<And>x. x \<in> set (previous b # hs) \<Longrightarrow> \<exists>b1 sb1. vblocks (view s) x = Some (b1, sb1) \<and> entry_account (b1, sb1) = a \<and>
         rank x \<le> rank (previous b) \<and> (previous b1 \<noteq> 0 \<longrightarrow> previous b1 \<in> set (previous b # hs))"
      using less.hyps [OF lt _ p] by blast
    have "chain_walk s h = Some (h # previous b # hs)" using h0 get hs(1) by (subst chain_walk.simps) simp
    moreover have "h \<notin> set (previous b # hs)"
    proof
      assume "h \<in> set (previous b # hs)"
      from hs(3) [OF this] have "rank h \<le> rank (previous b)" by blast
      with lt show False by simp
    qed
    moreover have "\<exists>b1 sb1. vblocks (view s) x = Some (b1, sb1) \<and> entry_account (b1, sb1) = a \<and> rank x \<le> rank h \<and>
         (previous b1 \<noteq> 0 \<longrightarrow> previous b1 \<in> set (h # previous b # hs))" if x: "x \<in> set (h # previous b # hs)" for x
    proof (cases "x = h")
      case True
      then show ?thesis using less.prems(2,3) by auto
    next
      case False
      then have "x \<in> set (previous b # hs)" using x by simp
      from hs(3) [OF this] obtain b1 sb1 where b1: "vblocks (view s) x = Some (b1, sb1)" "entry_account (b1, sb1) = a"
        "rank x \<le> rank (previous b)" "previous b1 \<noteq> 0 \<longrightarrow> previous b1 \<in> set (previous b # hs)" by blast
      from b1(3) lt have "rank x \<le> rank h" by simp
      with b1 show ?thesis by auto
    qed
    ultimately show ?thesis using less.prems(1) [of "previous b # hs"] hs(2) by simp
  qed
qed

lemma dump_account_chain_good:
  assumes good: "good env n l" and i: "account_get (store l) a = Some i"
  obtains hs where "dump_account_chain (store l) a = Some (head i # hs)" "distinct (head i # hs)"
    "set (head i # hs) = {h. block_account (store l) h = Some a}"
proof -
  obtain rank where ok: "rb_ok env n rank (\<lambda>_. 0) l" using good by (auto simp: good_rb)
  note O = rb_okD [OF ok] and D = prov_invD [OF rb_okD(7) [OF ok]]
  have vi: "vaccounts (lview l) a = Some i" using i by simp
  obtain b sb where b: "vblocks (lview l) (head i) = Some (b, sb)" "entry_account (b, sb) = a"
    using chain_inv_account [OF O(6) vi] unfolding account_inv_def by blast
  obtain hs where hs: "chain_walk (store l) (head i) = Some (head i # hs)" "distinct (head i # hs)"
    "\<And>x. x \<in> set (head i # hs) \<Longrightarrow> \<exists>b sb. vblocks (lview l) x = Some (b, sb) \<and> entry_account (b, sb) = a \<and> rank x \<le> rank (head i) \<and>
       (previous b \<noteq> 0 \<longrightarrow> previous b \<in> set (head i # hs))"
    by (rule chain_walk_from [OF O(6) D(7) b]) blast
  have cover: "w \<in> set (head i # hs)" if "vblocks (lview l) w = Some (b', sb')" "entry_account (b', sb') = a" for w b' sb'
  proof (rule chain_up [OF O(6) D(7) rb_invD(6) [OF O(2)] vi _ _ that])
    show "head i \<in> set (head i # hs)" by simp
    fix w b1 sb1 assume w: "vblocks (lview l) w = Some (b1, sb1)" "successor sb1 \<noteq> 0" "successor sb1 \<in> set (head i # hs)"
    obtain b2 sb2 where b2: "vblocks (lview l) (successor sb1) = Some (b2, sb2)" "previous b2 = w"
      using chain_inv_block [OF O(6) w(1)] w(2) unfolding block_inv_def by blast
    have "w \<noteq> 0" using w(1) no_block_zero [OF O(6)] by auto
    with hs(3) [OF w(3)] b2 show "w \<in> set (head i # hs)" by auto
  qed
  have acc: "block_account (store l) x = Some a \<longleftrightarrow> (\<exists>b sb. vblocks (lview l) x = Some (b, sb) \<and> entry_account (b, sb) = a)" for x
  proof (cases "block_get_sideband (store l) x")
    case (Some e)
    obtain b sb where e: "e = (b, sb)" by (cases e)
    have "entry_account (b, sb) \<noteq> 0"
      using chain_inv_block [OF O(6), of x b sb] Some e by (simp add: block_inv_def)
    with Some e show ?thesis by (simp add: block_account_def entry_account_def Let_def)
  qed (simp add: block_account_def)
  have "x \<in> set (head i # hs) \<longleftrightarrow> block_account (store l) x = Some a" for x
  proof
    assume "x \<in> set (head i # hs)"
    from hs(3) [OF this] show "block_account (store l) x = Some a" unfolding acc by blast
  qed (use cover acc in blast)
  then have "set (head i # hs) = {h. block_account (store l) h = Some a}" by blast
  moreover have "dump_account_chain (store l) a = Some (head i # hs)"
    using hs(1) i by (simp add: dump_account_chain_def latest_def)
  ultimately show ?thesis using that hs(2) by blast
qed

section \<open>Undoing the last block\<close>

lemma accepts_shape:
  assumes "accepts env l v b v'"
  obtains a sb e i pend wt where "v' = vextend v a (block_hash (digest env) b) b sb e i pend wt"
    "head i = block_hash (digest env) b"
  using assms
  by cases (auto simp: send_view_def change_view_def receive_view_def open_view_def state_view_def epoch_view_def
      Let_def info_next_def intro: that)

lemma vextend_core_old: "x \<noteq> h \<Longrightarrow> core (vextend v a h b sb e i pend wt) x = core v x"
  by (auto simp: core_def vextend_def vblock_put_def entry_link_def entry_account_def entry_balance_def
      split: option.splits block.splits)

lemma vextend_last:
  assumes "head i = h" "chain_inv H (vextend v a h b sb e i pend wt)"
  obtains sb' where "last_block (vextend v a h b sb e i pend wt) a h b sb' i"
proof -
  have "\<exists>sb'. vblocks (vextend v a h b sb e i pend wt) h = Some (b, sb')"
    by (auto simp: vextend_def vblock_put_def entry_link_def split: option.splits)
  then show ?thesis using that assms(1) by (auto simp: last_block_def vextend_def)
qed

lemma new_block_alone:
  assumes prov: "prov_inv n (core v) ver pend rank" "prov_inv n (core v') ver' pend' rank'"
    and chain: "chain_inv H v'" and last: "last_block v' a h b sb i"
    and old: "\<And>x. x \<noteq> h \<Longrightarrow> core v' x = core v x" and fresh: "core v h = None"
    and x: "depends n (core v') h x"
  shows "x = h"
  using x
proof induction
  case (depends_previous x)
  obtain b1 sb1 where "vblocks v' x = Some (b1, sb1)"
    using depends_previous(1) by (auto simp: core_def)
  with last_unreferenced [OF chain last this] depends_previous(3) show ?case
    by (simp add: prev_at_def core_def)
next
  case (depends_source x s)
  have r: "received_in n (core v') x = Some h" using depends_source by simp
  show ?case
  proof (rule ccontr)
    assume xh: "x \<noteq> h"
    obtain b1 a1 y1 where c: "core v' x = Some (b1, a1, y1)"
      using received_stored [OF r] by (metis not_None_eq prod_cases3)
    then obtain sb1 where "vblocks v' x = Some (b1, sb1)" by (auto simp: core_def)
    from last_unreferenced [OF chain last this] have "bal_at (core v) (previous b1) = bal_at (core v') (previous b1)"
      using old [of "previous b1"] by (simp add: bal_at_def)
    then have "received_in n (core v) x = Some h"
      using r c old [OF xh] by (simp add: received_def split: if_splits)
    from prov_invD(9) [OF prov(1) this] have "sent (core v) h \<noteq> None" by (simp add: receipt_def)
    then show False using sent_stored fresh by (metis not_None_eq)
  qed
qed simp

text \<open>
  After a block has been taken in, rolling it back takes off that block alone and restores
  the blocks, and with them what they determine.
\<close>

lemma rollback_after_process:
  assumes good: "good env n l" and adm: "admissible env n l b ver"
    and run: "process env l b ver = Some (l1, r)" "code r = Progress" and t: "env' = env\<lparr>now := t\<rparr>"
  obtains l2 where "rollback_list env' l1 (block_hash (digest env) b) list = Some (l2, list @ [block_hash (digest env) b])"
    "good env n l2" "core (lview l2) = core (lview l)"
proof -
  let ?h = "block_hash (digest env) b"
  have p: "good env n l1" "accepts env l (lview l) b (lview l1)" "vblocks (lview l) ?h = None"
  proof -
    obtain l' r' where "process env l b ver = Some (l', r')" "good env n l'"
      "code r' = Progress \<Longrightarrow> accepts env l (lview l) b (lview l')"
      "code r' = Progress \<Longrightarrow> vblocks (lview l) ?h = None"
      by (rule process_good [OF good adm]) blast
    with run show "good env n l1" "accepts env l (lview l) b (lview l1)" "vblocks (lview l) ?h = None" by simp_all
  qed
  obtain rank where rank: "rb_ok env n rank (\<lambda>_. 0) l" using good by (auto simp: good_rb)
  obtain rank1 where rank1: "rb_ok env n rank1 (\<lambda>_. 0) l1" using p(1) by (auto simp: good_rb)
  note O = rb_okD [OF rank] and O1 = rb_okD [OF rank1]
  obtain a sb e i pend wt where v: "lview l1 = vextend (lview l) a ?h b sb e i pend wt" "head i = ?h"
    by (rule accepts_shape [OF p(2)])
  obtain sb' where last: "last_block (lview l1) a ?h b sb' i"
    using vextend_last [OF v(2)] O1(6) unfolding v(1) by blast
  have old: "core (lview l1) x = core (lview l) x" if "x \<noteq> ?h" for x
    unfolding v(1) by (rule vextend_core_old [OF that])
  have fresh: "core (lview l) ?h = None" using p(3) by (simp add: core_def)
  have there: "core (lview l1) ?h \<noteq> None" using last by (simp add: last_block_def core_def)
  have hg: "?h \<noteq> net_genesis n" using prov_invD(2) [OF O(7)] fresh by metis
  have g1: "good env' n l1" using p(1) t by simp
  have nb: "vblocks (lview l1) ?h \<noteq> None" using last by (simp add: last_block_def)
  obtain l2 hs where l2: "rollback_list env' l1 ?h list = Some (l2, list @ hs)" "good env' n l2" "keeps l1 l2" "distinct hs"
    "set hs = {x. depends n (core (lview l1)) ?h x}"
    "\<And>x. core (lview l2) x = (if x \<in> set hs then None else core (lview l1) x)"
    by (rule rollback_good [OF g1 nb hg]) (rule that)
  have "depends n (core (lview l1)) ?h x \<longleftrightarrow> x = ?h" for x
    using new_block_alone [OF O(7) O1(7) O1(6) last old fresh, of x] depends_self [of "core (lview l1)" ?h n, OF there]
    by blast
  then have s: "set hs = {?h}" using l2(5) by auto
  have "length hs = 1" using distinct_card [OF l2(4)] s by simp
  then obtain x where "hs = [x]" by (auto simp: length_Suc_conv)
  with s have "hs = [?h]" by simp
  moreover have "core (lview l2) x = core (lview l) x" for x
    using l2(6) [of x] s old [of x] fresh by (cases "x = ?h") (simp_all del: core_None)
  then have "core (lview l2) = core (lview l)" by (rule ext)
  ultimately show ?thesis using that l2(1,2) t by simp
qed

end
