(* ===== verification/Complete.thy ===== *)
theory Complete
  imports Ledger_Facts
begin

text \<open>
  The other half of the refinement: a new block that the rules accept is taken in. With
  \<open>process_good\<close> this makes \<open>ledger::process\<close> report progress on exactly the new blocks that
  \<open>accepts\<close> allows.
\<close>

section \<open>What the tests of the handlers read\<close>

lemma fresh_type:
  assumes "blocks_ok s" "block_get_sideband s (block_hash H b) = None"
  shows "\<not> block_exists_type s (type_of b) (block_hash H b)"
  using block_exists_type_view [OF assms(1)] assms(2) by simp

lemma legacy_predecessor:
  "legacy p \<Longrightarrow> valid_predecessor (Send_block x) p \<and> valid_predecessor (Receive_block y) p \<and>
    valid_predecessor (Change_block z) p"
  by (cases p) (simp_all add: legacy_def)

lemma pending_source_exists:
  assumes "blocks_ok s" "chain_inv H (view s)" "pending_get s k = Some p"
  shows "source_exists s (key_hash k)" "account_get s (pending_source p) \<noteq> None"
proof -
  have "vpending (view s) k = Some p" using assms(3) by simp
  from chain_inv_pending [OF assms(2) this] obtain b sb where
    b: "block_get_sideband s (key_hash k) = Some (b, sb)" "sends_to b (key_account k)"
    and src: "pending_source p = entry_account (b, sb)"
    by (auto simp: pending_inv_def)
  have "block_exists_type s (type_of b) (key_hash k)" using block_exists_type_view [OF assms(1)] b(1) by blast
  then show "source_exists s (key_hash k)" using b(2) by (cases b) (simp_all add: source_exists_def)
  have "block_inv H (view s) (key_hash k) b sb" using chain_inv_block [OF assms(2)] b(1) by simp
  then show "account_get s (pending_source p) \<noteq> None" unfolding src block_inv_def by auto
qed

lemma head_exists:
  assumes "chain_inv H (view s)" "account_get s a = Some i"
  shows "block_exists s (head i)" "head i \<noteq> 0" "ledger_balance s (head i) = Some (info_balance i)"
proof -
  have "vaccounts (view s) a = Some i" using assms(2) by simp
  from chain_inv_account [OF assms(1) this] obtain b sb where
    b: "block_get_sideband s (head i) = Some (b, sb)" "entry_balance (b, sb) = info_balance i"
    by (auto simp: account_inv_def)
  then show "block_exists s (head i)" by (simp add: block_exists_view)
  show h: "head i \<noteq> 0" using b(1) no_block_zero [OF assms(1)] by auto
  then show "ledger_balance s (head i) = Some (info_balance i)"
    using b by (simp add: ledger_balance_def block_balance_def)
qed

section \<open>The handlers\<close>

lemma legacy_reads:
  assumes "chain_inv H (view s)" "frontiers s p = Some a" "account_get s a = Some i"
  obtains c where "block_get s p = Some c" "legacy c" "frontier_get s p = a" "a \<noteq> 0" "head i = p"
proof -
  have "vfrontiers (view s) p = Some a" using assms(2) by simp
  then obtain j b sb where "vaccounts (view s) a = Some j" "head j = p" "vblocks (view s) p = Some (b, sb)" "legacy b" "a \<noteq> 0"
    using frontier_account [OF assms(1)] by metis
  then show ?thesis using that assms(2,3) by (auto simp: block_get_view frontier_get_def)
qed

lemma send_complete:
  assumes "chain_inv H (view (store l))" and "\<not> block_exists_type (store l) Bt_send (block_hash (digest env) (Send_block b))"
    and "frontiers (store l) (send_previous (hashables b)) = Some a" "account_get (store l) a = Some i"
    and sig: "\<not> validate_message env a (block_hash (digest env) (Send_block b)) (signature b)"
    and "send_balance (hashables b) \<le> info_balance i"
    and run: "send_block_process env l r b = Some (l', r')"
  shows "code r' = Progress"
proof -
  obtain c where "block_get (store l) (send_previous (hashables b)) = Some c" "legacy c"
    "frontier_get (store l) (send_previous (hashables b)) = a" "a \<noteq> 0" "head i = send_previous (hashables b)"
    by (rule legacy_reads [OF assms(1,3,4)])
  with assms legacy_predecessor [of c b] show ?thesis
    by (auto simp: send_block_process_def Let_def bind_eq_Some_conv)
qed

lemma change_complete:
  assumes "chain_inv H (view (store l))" and "\<not> block_exists_type (store l) Bt_change (block_hash (digest env) (Change_block b))"
    and "frontiers (store l) (change_previous (hashables b)) = Some a" "account_get (store l) a = Some i"
    and sig: "\<not> validate_message env a (block_hash (digest env) (Change_block b)) (signature b)"
    and run: "change_block_process env l r b = Some (l', r')"
  shows "code r' = Progress"
proof -
  obtain c where "block_get (store l) (change_previous (hashables b)) = Some c" "legacy c"
    "frontier_get (store l) (change_previous (hashables b)) = a" "a \<noteq> 0" "head i = change_previous (hashables b)"
    by (rule legacy_reads [OF assms(1,3,4)])
  with assms legacy_predecessor [of c _ _ b] show ?thesis
    by (auto simp: change_block_process_def Let_def bind_eq_Some_conv)
qed

lemma receive_complete:
  assumes "blocks_ok (store l)" "chain_inv H (view (store l))"
    and "\<not> block_exists_type (store l) Bt_receive (block_hash (digest env) (Receive_block b))"
    and "frontiers (store l) (receive_previous (hashables b)) = Some a" "account_get (store l) a = Some i"
    and sig: "\<not> validate_message env a (block_hash (digest env) (Receive_block b)) (signature b)"
    and p: "pending_get (store l) (Pending_key a (receive_source (hashables b))) = Some p" "pending_epoch p = Epoch_0"
    and run: "receive_block_process env l r b = Some (l', r')"
  shows "code r' = Progress"
proof -
  obtain c where c: "block_get (store l) (receive_previous (hashables b)) = Some c" "legacy c"
    "frontier_get (store l) (receive_previous (hashables b)) = a" "a \<noteq> 0" "head i = receive_previous (hashables b)"
    by (rule legacy_reads [OF assms(2,4,5)])
  have "source_exists (store l) (receive_source (hashables b))"
    using pending_source_exists(1) [OF assms(1,2) p(1)] by simp
  with c assms legacy_predecessor [of c _ b] show ?thesis
    by (auto simp: receive_block_process_def Let_def bind_eq_Some_conv)
qed

lemma open_complete:
  assumes "blocks_ok (store l)" "chain_inv H (view (store l))"
    and "\<not> block_exists_type (store l) Bt_open (block_hash (digest env) (Open_block b))"
    and "open_account (hashables b) \<noteq> burn_account" "account_get (store l) (open_account (hashables b)) = None"
    and sig: "\<not> validate_message env (open_account (hashables b)) (block_hash (digest env) (Open_block b)) (signature b)"
    and p: "pending_get (store l) (Pending_key (open_account (hashables b)) (open_source (hashables b))) = Some p"
      "pending_epoch p = Epoch_0"
    and run: "open_block_process env l r b = Some (l', r')"
  shows "code r' = Progress"
proof -
  have "source_exists (store l) (open_source (hashables b))"
    using pending_source_exists(1) [OF assms(1,2) p(1)] by simp
  with assms show ?thesis by (auto simp: open_block_process_def Let_def bind_eq_Some_conv)
qed

text \<open>A state block is taken for an epoch block exactly if it has the epoch link and keeps the balance.\<close>

lemma epoch_check_result:
  assumes "chain_inv H (view (store l))" and "head (info_or_init (account_get (store l) a)) = state_previous (hashables b)"
  shows "epoch_block_check env l r b = Some (r\<lparr>code := Progress\<rparr>,
    epoch_link l \<noteq> 0 \<and> state_link (hashables b) = epoch_link l \<and>
    state_balance (hashables b) = info_balance (info_or_init (account_get (store l) a)))"
proof (cases "account_get (store l) a")
  case None
  then show ?thesis using assms(2)
    by (auto simp: epoch_block_check_def info_or_init_def account_info_init_def Let_def is_epoch_link_def)
next
  case (Some i)
  then show ?thesis using assms(2) head_exists [OF assms(1) Some]
    by (auto simp: epoch_block_check_def info_or_init_def Let_def is_epoch_link_def)
qed

lemma state_complete:
  assumes chain: "chain_inv H (view (store l))"
    and fresh: "\<not> block_exists_type (store l) Bt_state (block_hash (digest env) (State_block b))"
    and sig: "\<not> validate_message env (state_account (hashables b)) (block_hash (digest env) (State_block b)) (signature b)"
    and a0: "state_account (hashables b) \<noteq> 0"
    and info: "info = info_or_init (account_get (store l) (state_account (hashables b)))"
    and head: "head info = state_previous (hashables b)"
    and first: "account_get (store l) (state_account (hashables b)) = None \<Longrightarrow> state_link (hashables b) \<noteq> 0"
    and checks: "state_balance (hashables b) < info_balance info \<and> account_get (store l) (state_account (hashables b)) \<noteq> None \<or>
      info_balance info \<le> state_balance (hashables b) \<and>
      (if state_link (hashables b) = 0 then state_balance (hashables b) = info_balance info
       else source_exists (store l) (state_link (hashables b)) \<and>
         (\<exists>p. pending_get (store l) (Pending_key (state_account (hashables b)) (state_link (hashables b))) = Some p \<and>
           pending_amount p = state_balance (hashables b) - info_balance info))"
    and run: "state_block_impl env l r b = Some (l', r')"
  shows "code r' = Progress"
proof (cases "account_get (store l) (state_account (hashables b))")
  case None
  have 0: "state_previous (hashables b) = 0" "info_balance info = 0"
    using info head None by (simp_all add: info_or_init_def account_info_init_def)
  with None first checks fresh sig a0 run show ?thesis
    by (auto simp: state_block_impl_def state_account_check_def state_link_check_def Let_def bind_eq_Some_conv)
next
  case (Some i)
  then have i: "info = i" using info by (simp add: info_or_init_def)
  note h = head_exists [OF chain Some]
  show ?thesis
  proof (cases "state_balance (hashables b) < info_balance i")
    case True
    with Some i h head checks fresh sig a0 run show ?thesis
      by (auto simp: state_block_impl_def state_account_check_def Let_def bind_eq_Some_conv)
  next
    case False
    with Some i h head checks fresh sig a0 run show ?thesis
      by (auto simp: state_block_impl_def state_account_check_def state_link_check_def Let_def bind_eq_Some_conv
          split: if_splits)
  qed
qed

lemma epoch_complete:
  assumes chain: "chain_inv H (view (store l))"
    and fresh: "\<not> block_exists_type (store l) Bt_state (block_hash (digest env) (State_block b))"
    and sig: "\<not> validate_message env (epoch_signer l) (block_hash (digest env) (State_block b)) (signature b)"
    and a0: "state_account (hashables b) \<noteq> 0"
    and info: "info = info_or_init (account_get (store l) (state_account (hashables b)))"
    and head: "head info = state_previous (hashables b)" and ep: "info_epoch info = Epoch_0"
    and bal: "state_balance (hashables b) = info_balance info"
    and rep: "state_representative (hashables b) = rep_of (block_get_sideband (store l)) info"
    and run: "epoch_block_impl env l r b = Some (l', r')"
  shows "code r' = Progress"
proof (cases "account_get (store l) (state_account (hashables b))")
  case None
  have "block_get_sideband (store l) 0 = None" using no_block_zero [OF chain] by simp
  with None info rep have "state_representative (hashables b) = 0"
    by (simp add: info_or_init_def account_info_init_def rep_of_def)
  with None info fresh sig a0 ep bal run show ?thesis
    by (auto simp: epoch_block_impl_def epoch_account_check_def info_or_init_def Let_def bind_eq_Some_conv)
next
  case (Some i)
  then have i: "info = i" using info by (simp add: info_or_init_def)
  have "vaccounts (view (store l)) (state_account (hashables b)) = Some i" using Some by simp
  from chain_inv_account [OF chain this] have "rep_at (vblocks (view (store l))) (head i) (rep_block i)"
    by (simp add: account_inv_def)
  then obtain rb sr where rb: "block_get_sideband (store l) (rep_block i) = Some (rb, sr)"
    using rep_at_stored by fastforce
  with rep i have "state_representative (hashables b) = representative rb" by (simp add: rep_of_def)
  with Some i rb head_exists(2) [OF chain Some] head fresh sig a0 ep bal run show ?thesis
    by (auto simp: epoch_block_impl_def epoch_account_check_def block_get_view Let_def bind_eq_Some_conv)
qed

section \<open>Processing\<close>

lemma process_progress:
  assumes good: "good env n l" and acc: "accepts env l (lview l) b v'"
    and fresh: "vblocks (lview l) (block_hash (digest env) b) = None"
    and run: "process env l b ver = Some (l', r)"
  shows "code r = Progress"
proof -
  have chain: "chain_inv (digest env) (view (store l))" and bs: "blocks_ok (store l)"
    using good by (simp_all add: good_def ledger_ok_def ledger_inv_def store_ok_def)
  have new: "\<not> block_exists_type (store l) (type_of b) (block_hash (digest env) b)"
    using fresh_type [OF bs] fresh by simp
  have link: "h \<noteq> epoch_link l" if "source_exists (store l) h" for h
  proof -
    obtain rank where ok: "rb_ok env n rank (\<lambda>_. 0) l" using good by (auto simp: good_rb)
    have "block_exists (store l) h" using that by (auto simp: source_exists_def block_exists_def)
    then have "hash_apart n h" using prov_invD(5) [OF rb_okD(7) [OF ok]] by (simp add: block_exists_view)
    then show ?thesis using rb_okD(4) [OF ok] by (simp add: hash_apart_def)
  qed
  from acc show ?thesis
  proof cases
    case (accept_send sb a i)
    then show ?thesis
      using send_complete [OF chain _ _ _ _ _ run [unfolded accept_send(1) process_def Let_def block.case], of a i] new
      by (simp add: signed_by_def)
  next
    case (accept_change sb a i)
    then show ?thesis
      using change_complete [OF chain _ _ _ _ run [unfolded accept_change(1) process_def Let_def block.case], of a i] new
      by (simp add: signed_by_def)
  next
    case (accept_receive sb a i p)
    then show ?thesis
      using receive_complete [OF bs chain _ _ _ _ _ _ run [unfolded accept_receive(1) process_def Let_def block.case], of a i p] new
      by (simp add: signed_by_def)
  next
    case (accept_open sb p)
    then show ?thesis
      using open_complete [OF bs chain _ _ _ _ _ _ run [unfolded accept_open(1) process_def Let_def block.case], of p] new
      by (simp add: signed_by_def)
  next
    case (accept_state_send sb i)
    let ?info = "info_or_init (account_get (store l) (state_account (hashables sb)))"
    have i: "?info = i" using accept_state_send by (simp add: info_or_init_def)
    have "state_account (hashables sb) \<noteq> 0" using accept_state_send(4) no_account_zero [OF chain] by auto
    moreover have "state_block_impl env l (process_return_init ver) sb = Some (l', r)"
      using run epoch_check_result [OF chain, of "state_account (hashables sb)" sb env "process_return_init ver"]
        accept_state_send i
      by (simp add: process_def state_block_process_def process_return_init_def Let_def split: if_splits)
    ultimately show ?thesis
      using state_complete [OF chain, of env sb ?info] accept_state_send i new by (simp add: signed_by_def)
  next
    case (accept_state_receive sb info p)
    have src: "source_exists (store l) (state_link (hashables sb))"
      using pending_source_exists(1) [OF bs chain, of _ p] accept_state_receive by fastforce
    then have "state_block_impl env l (process_return_init ver) sb = Some (l', r)"
      using run epoch_check_result [OF chain, of "state_account (hashables sb)" sb env "process_return_init ver"]
        accept_state_receive link by (auto simp: process_def state_block_process_def process_return_init_def Let_def)
    then show ?thesis
      using state_complete [OF chain, of env sb info] accept_state_receive new src by (simp add: signed_by_def)
  next
    case (accept_state_change sb i)
    let ?info = "info_or_init (account_get (store l) (state_account (hashables sb)))"
    have i: "?info = i" using accept_state_change by (simp add: info_or_init_def)
    have "state_account (hashables sb) \<noteq> 0" using accept_state_change(4) no_account_zero [OF chain] by auto
    moreover have "state_block_impl env l (process_return_init ver) sb = Some (l', r)"
      using run epoch_check_result [OF chain, of "state_account (hashables sb)" sb env "process_return_init ver"]
        accept_state_change i
      by (auto simp: process_def state_block_process_def process_return_init_def Let_def)
    ultimately show ?thesis
      using state_complete [OF chain, of env sb ?info] accept_state_change i new by (simp add: signed_by_def)
  next
    case (accept_epoch sb info)
    have "epoch_block_impl env l (process_return_init ver) sb = Some (l', r)"
      using run epoch_check_result [OF chain, of "state_account (hashables sb)" sb env "process_return_init ver"] accept_epoch
      by (simp add: process_def state_block_process_def process_return_init_def Let_def)
    then show ?thesis
      using epoch_complete [OF chain, of env sb info] accept_epoch new by (simp add: signed_by_def)
  qed
qed

end
