(* ===== verification/Queries.thy ===== *)
theory Queries
  imports Complete
begin

text \<open>
  The queries of the ledger on a ledger in order: the pending amount of an account, whether
  a block could be processed, the block that occupies the place of a fork, and the switch
  from the bootstrap weights to the weights of the ledger.
\<close>

section \<open>Pending amounts\<close>

lemma pending_range_split:
  assumes "set ks1 \<inter> set ks2 = {}"
  shows "pending_range m (ks1 @ ks2) (iterator_at ks2) result =
    Some (result + (\<Sum>k\<leftarrow>ks1. case m k of Some p \<Rightarrow> pending_amount p | None \<Rightarrow> 0))"
  using assms
proof (induction ks1 arbitrary: result)
  case Nil
  show ?case by (cases ks2) (simp_all add: iterator_at_def)
next
  case (Cons k ks1)
  then have "iterator_at ks2 \<noteq> Some k" by (cases ks2) (auto simp: iterator_at_def)
  with Cons show ?case by (simp add: add.assoc)
qed

lemma sorted_list_split:
  assumes "finite A" "finite B" "\<And>x y. x \<in> A \<Longrightarrow> y \<in> B \<Longrightarrow> x < y"
  shows "sorted_list_of_set (A \<union> B) = sorted_list_of_set A @ sorted_list_of_set B"
proof (rule sorted_distinct_set_unique)
  show "sorted (sorted_list_of_set A @ sorted_list_of_set B)"
    using assms by (auto simp: sorted_append order_less_imp_le)
  show "distinct (sorted_list_of_set A @ sorted_list_of_set B)"
    using assms by fastforce
qed (use assms in simp_all)

lemma pending_range_account:
  assumes fin: "finite (dom m)" and a: "a \<noteq> - 1"
  shows "pending_range m (keys_from m (Pending_key a 0)) (iterator_at (keys_from m (Pending_key (a + 1) 0))) result =
    Some (result + (\<Sum>k\<in>{k \<in> dom m. key_account k = a}. pending_amount (the (m k))))"
proof -
  let ?A = "{k \<in> dom m. key_account k = a}" and ?B = "{k \<in> dom m. Pending_key (a + 1) 0 \<le> k}"
  have "1 + a \<noteq> 0" using a by (metis add_eq_0_iff)
  then have "unat (a + 1) = Suc (unat a)" by (metis add.commute unatSuc)
  then have succ: "a < x \<longleftrightarrow> a + 1 \<le> x" for x by (simp add: word_less_nat_alt word_le_nat_alt Suc_le_eq)
  have ge: "Pending_key b 0 \<le> k \<longleftrightarrow> b \<le> key_account k" for b k
    by (auto simp: less_eq_pending_key_def)
  have un: "{k \<in> dom m. Pending_key a 0 \<le> k} = ?A \<union> ?B" by (auto simp: ge succ [symmetric])
  have lt: "x < y" if "x \<in> ?A" "y \<in> ?B" for x y
    using that by (auto simp: ge succ [symmetric] less_pending_key_def)
  have keys: "keys_from m (Pending_key a 0) = sorted_list_of_set ?A @ keys_from m (Pending_key (a + 1) 0)"
    unfolding keys_from_def un by (rule sorted_list_split) (use fin lt in auto)
  have "set (sorted_list_of_set ?A) \<inter> set (keys_from m (Pending_key (a + 1) 0)) = {}"
    using fin by (auto simp: keys_from_def ge succ [symmetric])
  then have "pending_range m (keys_from m (Pending_key a 0)) (iterator_at (keys_from m (Pending_key (a + 1) 0))) result =
    Some (result + (\<Sum>k\<leftarrow>sorted_list_of_set ?A. case m k of Some p \<Rightarrow> pending_amount p | None \<Rightarrow> 0))"
    unfolding keys by (rule pending_range_split)
  also have "(\<Sum>k\<leftarrow>sorted_list_of_set ?A. case m k of Some p \<Rightarrow> pending_amount p | None \<Rightarrow> 0) =
      (\<Sum>k\<in>?A. case m k of Some p \<Rightarrow> pending_amount p | None \<Rightarrow> 0)"
    using fin by (simp add: sum_list_distinct_conv_sum_set)
  also have "\<dots> = (\<Sum>k\<in>?A. pending_amount (the (m k)))"
    by (rule sum.cong) auto
  finally show ?thesis .
qed

lemma account_pending_sum:
  assumes ok: "store_ok s" and fin: "finite (dom (pending_get s))" and a: "a \<noteq> - 1"
  shows "account_pending s a =
    Some (\<Sum>k\<in>{k \<in> dom (pending_get s). key_account k = a}. pending_amount (the (pending_get s k)))"
proof -
  let ?A = "\<lambda>m. {k \<in> dom m. key_account k = a}"
  have dom: "dom (pending_get s) = dom (pending_v0 s) \<union> dom (pending_v1 s)"
    by (auto simp: pending_get_def split: option.splits)
  have "pending_v0 s k = None \<or> pending_v1 s k = None" for k
    using ok by (simp add: store_ok_def pending_ok_def)
  then have disj: "dom (pending_v0 s) \<inter> dom (pending_v1 s) = {}" by (metis disjoint_iff domIff)
  have f: "finite (dom (pending_v0 s))" "finite (dom (pending_v1 s))" using fin dom by simp_all
  have get: "pending_amount (the (pending_get s k)) = pending_amount (the (pending_v0 s k))" if "k \<in> dom (pending_v0 s)" for k
    using that disj by (auto simp: pending_get_def split: option.splits)
  have get1: "pending_amount (the (pending_get s k)) = pending_amount (the (pending_v1 s k))" if "k \<in> dom (pending_v1 s)" for k
    using that disj by (auto simp: pending_get_def split: option.splits)
  have "account_pending s a = Some ((\<Sum>k\<in>?A (pending_v0 s). pending_amount (the (pending_v0 s k))) +
      (\<Sum>k\<in>?A (pending_v1 s). pending_amount (the (pending_v1 s k))))"
    by (simp add: account_pending_def pending_range_account [OF f(1) a] pending_range_account [OF f(2) a])
  also have "(\<Sum>k\<in>?A (pending_v0 s). pending_amount (the (pending_v0 s k))) +
      (\<Sum>k\<in>?A (pending_v1 s). pending_amount (the (pending_v1 s k))) =
      (\<Sum>k\<in>?A (pending_v0 s) \<union> ?A (pending_v1 s). pending_amount (the (pending_get s k)))"
    using f disj get get1 by (subst sum.union_disjoint) auto
  also have "?A (pending_v0 s) \<union> ?A (pending_v1 s) = {k \<in> dom (pending_get s). key_account k = a}"
    unfolding dom by auto
  finally show ?thesis .
qed

lemma account_pending_good:
  assumes "good env n l" "a \<noteq> - 1"
  obtains x where "account_pending (store l) a = Some x"
    "unat x = (\<Sum>k\<in>{k \<in> dom (pending_get (store l)). key_account k = a}. unat (pending_amount (the (pending_get (store l) k))))"
proof -
  let ?A = "{k \<in> dom (pending_get (store l)). key_account k = a}"
  have inv: "store_ok (store l)" "supply_inv (lview l)"
    using assms(1) by (simp_all add: good_def ledger_ok_def ledger_inv_def)
  then have fin: "finite (dom (pending_get (store l)))" by (simp add: supply_inv_def)
  have "(\<Sum>k\<in>?A. unat (pending_amount (the (pending_get (store l) k)))) \<le>
      (\<Sum>k\<in>dom (pending_get (store l)). unat (pending_amount (the (pending_get (store l) k))))"
    using fin by (intro sum_mono2) auto
  also have "\<dots> \<le> total_supply (lview l)" by (simp add: total_supply_def table_sum_def)
  also have "\<dots> < 2 ^ LENGTH(128)" using inv(2) unat_bound [of genesis_amount] by (simp add: supply_inv_def)
  finally show ?thesis
    using that [OF account_pending_sum [OF inv(1) fin assms(2)]] fin by (simp add: unat_sum)
qed

section \<open>Blocks that could be processed\<close>

text \<open>\<open>could_fit\<close> is true of every block that is accepted.\<close>

lemma exists_pending:
  assumes "blocks_ok s" "chain_inv H (view s)" "pending_get s k = Some p"
  shows "block_exists s (key_hash k)"
  using pending_source_exists(1) [OF assms] by (auto simp: source_exists_def block_exists_def)

lemma could_fit_accepted:
  assumes good: "good env n l" and acc: "accepts env l (lview l) b v'"
  shows "could_fit l b = Some True"
proof -
  have chain: "chain_inv (digest env) (view (store l))" and bs: "blocks_ok (store l)"
    using good by (simp_all add: good_def ledger_ok_def ledger_inv_def store_ok_def)
  have front: "block_exists (store l) p" if "frontiers (store l) p = Some a" "account_get (store l) a = Some i" for p a i
    using legacy_reads [OF chain that] by (metis block_exists_view block_get_view option.distinct(1) option.simps(8))
  have send: "is_send (store l) sb = Some (state_balance (hashables sb) < info_balance i)"
    if "account_get (store l) (state_account (hashables sb)) = Some i" "head i = state_previous (hashables sb)" for sb i
    using head_exists [OF chain that(1)] that(2) by (simp add: is_send_def)
  note pend = exists_pending [OF bs chain]
  from acc show ?thesis
  proof cases
    case (accept_send sb a i)
    then show ?thesis using front by simp
  next
    case (accept_change sb a i)
    then show ?thesis using front by simp
  next
    case (accept_receive sb a i p)
    then show ?thesis using front pend [of "Pending_key a (receive_source (hashables sb))" p] by simp
  next
    case (accept_open sb p)
    then show ?thesis
      using pend [of "Pending_key (open_account (hashables sb)) (open_source (hashables sb))" p] by simp
  next
    case (accept_state_send sb i)
    then show ?thesis using send [of sb i] head_exists(1) [OF chain, of _ i] by auto
  next
    case (accept_state_receive sb info p)
    have "block_exists (store l) (state_link (hashables sb))"
      using pend [of "Pending_key (state_account (hashables sb)) (state_link (hashables sb))" p] accept_state_receive by simp
    with accept_state_receive show ?thesis
      using send [of sb] head_exists(1) [OF chain, of "state_account (hashables sb)"]
      by (cases "account_get (store l) (state_account (hashables sb))")
        (auto simp: info_or_init_def account_info_init_def is_send_def)
  next
    case (accept_state_change sb i)
    then show ?thesis using send [of sb i] head_exists(1) [OF chain, of _ i] by auto
  next
    case (accept_epoch sb info)
    then show ?thesis
      using send [of sb] head_exists(1) [OF chain, of "state_account (hashables sb)"]
      by (cases "account_get (store l) (state_account (hashables sb))")
        (auto simp: info_or_init_def account_info_init_def is_send_def is_epoch_link_def)
  qed
qed

section \<open>Forks\<close>

text \<open>A legacy block that the processor reports as a fork has a rival: the stored successor of its predecessor.\<close>

lemma forked_successor:
  assumes chain: "chain_inv H (view s)" and new: "\<not> block_exists_type s (type_of b) (block_hash H b)"
    and p: "block_get s (root b) = Some c" "legacy c" "frontier_get s (root b) = 0"
  obtains f where "forked_block H s b = Some f" "previous f = root b"
proof -
  obtain sb where c: "block_get_sideband s (root b) = Some (c, sb)" using p(1) by (auto simp: block_get_view)
  then have inv: "block_inv H (view s) (root b) c sb" using chain_inv_block [OF chain] by simp
  have "successor sb \<noteq> 0"
  proof
    assume z: "successor sb = 0"
    then obtain i where i: "account_get s (entry_account (c, sb)) = Some i" "head i = root b" "entry_account (c, sb) \<noteq> 0"
      using inv by (auto simp: block_inv_def)
    have "vfrontiers (view s) (root b) = Some (entry_account (c, sb))"
      using chain_inv_frontier [OF chain] i c p(2) unfolding frontier_inv_def by auto
    then show False using p(3) i(3) by (simp add: frontier_get_def)
  qed
  then obtain f sf where f: "block_get_sideband s (successor sb) = Some (f, sf)" "previous f = root b"
    using inv by (auto simp: block_inv_def)
  have "block_exists s (root b)" using c by (simp add: block_exists_view)
  then have "forked_block H s b = Some f"
    using new f(1) c by (simp add: forked_block_def Let_def block_successor_view block_get_view)
  then show ?thesis using that f(2) by blast
qed

lemma legacy_root: "type_of b \<in> {Bt_send, Bt_receive, Bt_change} \<Longrightarrow> root b = previous b \<and> legacy b"
  by (cases b) (simp_all add: legacy_def)

lemma legacy_fork:
  assumes run: "process env l b ver = Some (l', r)" "code r = Fork" and t: "type_of b \<in> {Bt_send, Bt_receive, Bt_change}"
  obtains c where "\<not> block_exists_type (store l) (type_of b) (block_hash (digest env) b)"
    "block_get (store l) (root b) = Some c" "legacy c" "frontier_get (store l) (root b) = 0"
proof -
  have "\<exists>c. \<not> block_exists_type (store l) (type_of b) (block_hash (digest env) b) \<and>
    block_get (store l) (root b) = Some c \<and> legacy c \<and> frontier_get (store l) (root b) = 0"
  proof (cases b)
    case (Send_block x)
    with run show ?thesis
      by (auto simp: process_def send_block_process_def Let_def legacy_def bind_eq_Some_conv split: if_splits option.splits)
  next
    case (Receive_block x)
    with run show ?thesis
      by (auto simp: process_def receive_block_process_def Let_def legacy_def bind_eq_Some_conv split: if_splits option.splits)
  next
    case (Change_block x)
    with run show ?thesis
      by (auto simp: process_def change_block_process_def Let_def legacy_def bind_eq_Some_conv split: if_splits option.splits)
  qed (use t in auto)
  then show ?thesis using that by blast
qed

text \<open>
  A state block of an open account whose predecessor is the head of another account is
  reported as a fork, though nothing competes with it; \<open>forked_block\<close> then fails its assertion.
\<close>

lemma state_fork_abort:
  assumes chain: "chain_inv H (view (store l))" and bs: "blocks_ok (store l)"
    and fresh: "block_get_sideband (store l) (block_hash (digest env) (State_block b)) = None"
    and sig: "\<not> validate_message env (state_account (hashables b)) (block_hash (digest env) (State_block b)) (signature b)"
    and a: "account_get (store l) (state_account (hashables b)) = Some i" "state_account (hashables b) \<noteq> 0"
    and p: "block_get_sideband (store l) (state_previous (hashables b)) = Some (c, sc)" "successor sc = 0"
      "state_previous (hashables b) \<noteq> head i" "account_get (store l) (state_previous (hashables b)) = None"
    and link: "state_link (hashables b) \<noteq> epoch_link l"
  shows "\<exists>r. process env l (State_block b) ver = Some (l, r) \<and> code r = Fork"
    "forked_block (digest env) (store l) (State_block b) = None"
proof -
  have p0: "state_previous (hashables b) \<noteq> 0" using p(1) no_block_zero [OF chain] by auto
  have new: "\<not> block_exists_type (store l) Bt_state (block_hash (digest env) (State_block b))"
    using fresh_type [OF bs, of "digest env" "State_block b"] fresh by simp
  have ex: "block_exists (store l) (state_previous (hashables b))" using p(1) by (simp add: block_exists_view)
  have z: "block_get_sideband (store l) 0 = None" using no_block_zero [OF chain] by simp
  show "\<exists>r. process env l (State_block b) ver = Some (l, r) \<and> code r = Fork"
    using new sig a p0 ex p(3) link
    by (simp add: process_def state_block_process_def epoch_block_check_def is_epoch_link_def state_block_impl_def
        state_account_check_def Let_def)
  show "forked_block (digest env) (store l) (State_block b) = None"
    using new p p0 ex z
    by (simp add: forked_block_def Let_def block_successor_view block_get_view)
qed

section \<open>Receiving what is pending\<close>

text \<open>A balance and a pending amount fit into one balance: both are part of the supply.\<close>

lemma receive_fits:
  assumes sup: "supply_inv (view s)" and p: "pending_get s k = Some p"
  shows "unat (account_balance s a) + unat (pending_amount p) \<le> unat genesis_amount"
proof -
  have "unat (account_balance s a) \<le> table_sum (\<lambda>i. unat (info_balance i)) (account_get s)"
    using sup table_sum_ge [of "account_get s" a _ "\<lambda>i. unat (info_balance i)"]
    by (auto simp: account_balance_def supply_inv_def split: option.splits)
  moreover have "unat (pending_amount p) \<le> table_sum (\<lambda>p. unat (pending_amount p)) (pending_get s)"
    using sup p table_sum_ge [of "pending_get s" k p "\<lambda>p. unat (pending_amount p)"] by (simp add: supply_inv_def)
  ultimately show ?thesis using sup by (simp add: supply_inv_def total_supply_def)
qed

lemma receive_fits_word:
  assumes "supply_inv (view s)" "pending_get s k = Some p"
  shows "unat (account_balance s a + pending_amount p) = unat (account_balance s a) + unat (pending_amount p)"
    "account_balance s a \<le> account_balance s a + pending_amount p"
proof -
  have "unat (account_balance s a) + unat (pending_amount p) < 2 ^ LENGTH(128)"
    using receive_fits [OF assms, of a] unat_bound [of genesis_amount] by simp
  then show "unat (account_balance s a + pending_amount p) = unat (account_balance s a) + unat (pending_amount p)"
    by (simp add: unat_add_lem [THEN iffD1])
  then show "account_balance s a \<le> account_balance s a + pending_amount p"
    by (simp add: word_le_nat_alt)
qed

text \<open>The state block by which account \<open>a\<close> receives the send \<open>h\<close> of the given amount.\<close>

definition receiving :: "store \<Rightarrow> uint256 \<Rightarrow> uint256 \<Rightarrow> uint128 \<Rightarrow> uint256 \<Rightarrow> state_hashables" where
  "receiving s a h x rep = \<lparr>state_account = a, state_previous = latest s a, state_representative = rep,
     state_balance = account_balance s a + x, state_link = h\<rparr>"

lemma receive_accepted:
  assumes good: "good env n l" and p: "pending_get (store l) (Pending_key a h) = Some p" and a: "a \<noteq> 0"
    and b: "hashables b = receiving (store l) a h (pending_amount p) rep" and sig: "signed_by env a (State_block b)"
  shows "\<exists>v. accepts env l (lview l) (State_block b) v"
proof -
  have inv: "ledger_inv (digest env) (lview l)" and bs: "blocks_ok (store l)"
    using good by (simp_all add: good_def ledger_ok_def store_ok_def)
  have "block_exists (store l) h" using exists_pending [OF bs ledger_invD(1) [OF inv] p] by simp
  then have h: "h \<noteq> 0" using no_block_zero [OF ledger_invD(1) [OF inv]] by (auto simp: block_exists_view)
  have le: "account_balance (store l) a \<le> account_balance (store l) a + pending_amount p"
    using inv p by (intro receive_fits_word) (simp_all add: ledger_inv_def)
  have i: "head (info_or_init (account_get (store l) a)) = latest (store l) a"
    "info_balance (info_or_init (account_get (store l) a)) = account_balance (store l) a"
    by (auto simp: info_or_init_def account_info_init_def latest_def account_balance_def split: option.splits)
  show ?thesis
    by (rule exI, rule accept_state_receive [where p = p and info = "info_or_init (account_get (store l) a)"])
      (use assms h le in \<open>simp_all add: receiving_def i\<close>)
qed

lemma receive_possible:
  assumes good: "good env n l" and p: "pending_get (store l) (Pending_key a h) = Some p" and a: "a \<noteq> 0"
    and b: "hashables b = receiving (store l) a h (pending_amount p) rep" and sig: "signed_by env a (State_block b)"
    and fresh: "block_get (store l) (block_hash (digest env) (State_block b)) = None"
    and adm: "admissible env n l (State_block b) ver"
  obtains l' r where "process env l (State_block b) ver = Some (l', r)" "code r = Progress"
    "pending_get (store l') (Pending_key a h) = None"
    "unat (account_balance (store l') a) = unat (account_balance (store l) a) + unat (pending_amount p)"
proof -
  obtain l' r where run: "process env l (State_block b) ver = Some (l', r)"
    "code r = Progress \<Longrightarrow> accepts env l (lview l) (State_block b) (lview l')"
    by (rule process_good [OF good adm]) blast
  have "vblocks (lview l) (block_hash (digest env) (State_block b)) = None"
    using fresh by (simp add: block_get_view)
  with receive_accepted [OF good p a b sig] have code: "code r = Progress"
    using process_progress [OF good _ _ run(1)] by blast
  have inv: "ledger_inv (digest env) (lview l)" and bs: "blocks_ok (store l)" and el: "net_epoch_link n = epoch_link l"
    and vp: "view_prov n (lview l)"
    using good by (simp_all add: good_def ledger_ok_def store_ok_def)
  have fits: "unat (account_balance (store l) a + pending_amount p) = unat (account_balance (store l) a) + unat (pending_amount p)"
    "account_balance (store l) a \<le> account_balance (store l) a + pending_amount p"
    using inv p by (auto intro!: receive_fits_word simp: ledger_inv_def)
  have ex: "block_get_sideband (store l) h \<noteq> None"
    using exists_pending [OF bs ledger_invD(1) [OF inv] p] by (simp add: block_exists_view)
  obtain rank where "prov_inv n (core (lview l)) (vversion (lview l)) (vpending (lview l)) rank"
    using vp by (auto simp: view_prov_def)
  from prov_invD(5) [OF this, of h] ex have h: "h \<noteq> 0" "h \<noteq> epoch_link l"
    using el by (auto simp: hash_apart_def core_def)
  from run(2) [OF code] have "vpending (lview l') (Pending_key a h) = None \<and>
      map_option info_balance (vaccounts (lview l') a) = Some (account_balance (store l) a + pending_amount p)"
    by cases (use b h fits(2) in \<open>auto simp: receiving_def state_view_def Let_def vextend_def info_next_def
        account_balance_def split: option.splits\<close>)
  then have "pending_get (store l') (Pending_key a h) = None"
    "account_balance (store l') a = account_balance (store l) a + pending_amount p"
    by (auto simp: account_balance_def)
  with that run(1) code fits(1) show ?thesis by simp
qed

section \<open>Weights\<close>

text \<open>Once the ledger has grown past the bootstrap weights they are never used again.\<close>

lemma weight_switched:
  assumes "\<not> check_bootstrap_weights l"
  shows "weight l a = (l, representation_get (store l) a)"
  using assms by (simp add: weight_def)

lemma weight_switches:
  assumes "weight l a = (l', w)"
  shows "w = representation_get (store l) a \<or> check_bootstrap_weights l' \<and> bootstrap_weights l a = Some w"
    "\<not> check_bootstrap_weights l \<Longrightarrow> \<not> check_bootstrap_weights l'"
  using assms by (auto simp: weight_def split: if_splits option.splits)

end
