(* ===== verification/Epoch_Abort.thy ===== *)
theory Epoch_Abort
  imports Complete
begin

text \<open>
  A gap in \<open>epoch_block_impl\<close>: for an account that has no chain it does not ask that the
  block is a first one. An epoch block for such an account whose predecessor is any stored
  block with balance zero passes every test, is written, and then fails the assertion of
  \<open>change_latest\<close>.
\<close>

lemma block_put_reads:
  assumes ok: "store_ok s" and fresh: "block_get_sideband s h = None" and hash: "block_hash H b = h"
    and "type_of b = sb_type sb" "successor sb = 0" "block_database (type_of b) e = Some db"
    and prev: "previous b \<noteq> 0" "block_get_sideband s (previous b) \<noteq> None"
  obtains s' where "block_put H s h b sb e = Some s'" "account_get s' = account_get s" "block_get s' h = Some b"
proof -
  obtain s' where s': "block_put H s h b sb e = Some s'" "store_ok s'" "view s' = vblock_put (view s) h b sb e"
    using block_put_ok [OF assms(1-6)] prev by auto
  have "account_get s' = account_get s"
    using arg_cong [OF s'(3), of vaccounts] by (simp add: vblock_put_def)
  moreover have "map_option fst (block_get_sideband s' h) = Some b"
    using arg_cong [OF s'(3), of vblocks] prev fresh
    by (auto simp: vblock_put_def entry_link_def split: option.splits)
  ultimately show ?thesis using that s'(1) by (simp add: block_get_view)
qed

lemma epoch_impl_abort:
  assumes ok: "store_ok (store l)" and h: "h = block_hash (digest env) (State_block b)"
    and fresh: "block_get_sideband (store l) h = None"
    and sig: "\<not> validate_message env (epoch_signer l) h (signature b)"
    and "state_account (hashables b) \<noteq> 0" "account_get (store l) (state_account (hashables b)) = None"
    and "state_representative (hashables b) = 0" "state_balance (hashables b) = 0"
    and prev: "state_previous (hashables b) \<noteq> 0" "block_get_sideband (store l) (state_previous (hashables b)) \<noteq> None"
  shows "epoch_block_impl env l r b = None"
proof -
  let ?sb = "\<lparr>sb_type = Bt_state, successor = 0, sb_account = state_account (hashables b), sb_balance = 0,
    height = block_count account_info_init + 1, timestamp = now env\<rparr>"
  obtain s' where s': "block_put (digest env) (store l) h (State_block b) ?sb Epoch_1 = Some s'"
    "account_get s' = account_get (store l)" "block_get s' h = Some (State_block b)"
    using block_put_reads [OF ok fresh, of "digest env" "State_block b" ?sb Epoch_1 Db_state_v1] h prev by auto
  then have "change_latest (now env) s' (state_account (hashables b)) h h 0 (block_count account_info_init + 1) Epoch_1 = None"
    using assms by (simp add: change_latest_def)
  moreover have "\<not> block_exists_type (store l) Bt_state h"
    using fresh_type [of "store l" "digest env" "State_block b"] ok fresh h by (simp add: store_ok_def)
  ultimately show ?thesis
    using assms s'(1)
    by (simp add: epoch_block_impl_def epoch_account_check_def Let_def account_info_init_def)
qed

lemma process_epoch_abort:
  assumes ok: "store_ok (store l)" and h: "h = block_hash (digest env) (State_block b)"
    and fresh: "block_get_sideband (store l) h = None"
    and sig: "\<not> validate_message env (epoch_signer l) h (signature b)"
    and link: "epoch_link l \<noteq> 0" "state_link (hashables b) = epoch_link l"
    and acc: "state_account (hashables b) \<noteq> 0" "account_get (store l) (state_account (hashables b)) = None"
    and "state_representative (hashables b) = 0" "state_balance (hashables b) = 0"
    and prev: "state_previous (hashables b) \<noteq> 0" "block_balance (store l) (state_previous (hashables b)) = Some 0"
  shows "process env l (State_block b) ver = None"
proof -
  have p: "block_get_sideband (store l) (state_previous (hashables b)) \<noteq> None"
    using prev(2) by (auto simp: block_balance_def)
  then have ex: "block_exists (store l) (state_previous (hashables b))"
    by (simp add: block_exists_view)
  have "epoch_block_impl env l r b = None" for r
    by (rule epoch_impl_abort [OF ok h fresh sig acc assms(9,10) prev(1) p])
  moreover have "epoch_block_check env l r b = Some (r\<lparr>code := Progress\<rparr>, True)" for r
    using link assms(10) prev ex by (simp add: epoch_block_check_def is_epoch_link_def Let_def ledger_balance_def)
  ultimately show ?thesis by (simp add: process_def state_block_process_def Let_def)
qed

end
