(* ===== verification/Votes.thy ===== *)
theory Votes
  imports Common
begin

text \<open>
  \<open>nano::vote\<close> of \<open>nano/secure/common.cpp\<close>: equality, the hash that is signed, and the two
  binary formats, one with a type before every block (\<open>vote_serialize\<close>, \<open>vote_deserialize\<close>, used
  by the vote table) and one whose only type is in the message header (\<open>vote_serialize_typed\<close>,
  \<open>vote_read\<close>, used by \<open>confirm_ack\<close>). Of a reader the outer \<open>None\<close> is a failed assertion and
  the inner one an error result.
\<close>

section \<open>Votes\<close>

text \<open>The variant of a block and a hash; \<open>which ()\<close> is nonzero for the hash.\<close>

datatype vote_item = Vote_block block | Vote_hash uint256

record vote =
  vote_sequence :: uint64
  vote_blocks :: "vote_item list"
  vote_account :: uint256
  vote_signature :: uint512

fun item_hash :: "(byte list \<Rightarrow> uint256) \<Rightarrow> vote_item \<Rightarrow> uint256" where
  "item_hash H (Vote_hash h) = h"
| "item_hash H (Vote_block b) = block_hash H b"

fun item_which :: "vote_item \<Rightarrow> bool" where
  "item_which (Vote_hash h) = True"
| "item_which (Vote_block b) = False"

definition vote_item_eq :: "vote_item \<Rightarrow> vote_item \<Rightarrow> bool" where
  "vote_item_eq x y =
     (case (x, y) of
        (Vote_hash h, Vote_hash k) \<Rightarrow> h = k
      | (Vote_block b, Vote_block c) \<Rightarrow> blocks_equal b c
      | _ \<Rightarrow> False)"

definition vote_eq :: "vote \<Rightarrow> vote \<Rightarrow> bool" where
  "vote_eq v w \<longleftrightarrow>
     vote_sequence v = vote_sequence w \<and>
     (length (vote_blocks v) = length (vote_blocks w) \<and>
       list_all2 vote_item_eq (vote_blocks v) (vote_blocks w)) \<and>
     vote_account v = vote_account w \<and> vote_signature v = vote_signature w"

section \<open>Hashes\<close>

text \<open>The bytes of the string \<open>"vote "\<close>.\<close>

definition hash_prefix :: "byte list" where
  "hash_prefix = [118, 111, 116, 101, 32]"

definition vote_hash_input :: "(byte list \<Rightarrow> uint256) \<Rightarrow> vote \<Rightarrow> byte list" where
  "vote_hash_input H v =
     (if 1 < length (vote_blocks v) \<or> 0 < length (vote_blocks v) \<and> item_which (vote_blocks v ! 0)
      then hash_prefix else []) @
     concat (map (\<lambda>i. be_bytes (item_hash H i)) (vote_blocks v)) @ le_bytes (vote_sequence v)"

definition vote_hash :: "(byte list \<Rightarrow> uint256) \<Rightarrow> vote \<Rightarrow> uint256" where
  "vote_hash H v = H (vote_hash_input H v)"

text \<open>
  \<open>full_hash\<close> passes the size of a pointer, eight, as the length of the account and of the
  signature.
\<close>

definition vote_full_hash :: "(byte list \<Rightarrow> uint256) \<Rightarrow> vote \<Rightarrow> uint256" where
  "vote_full_hash H v =
     H (be_bytes (vote_hash H v) @ take 8 (be_bytes (vote_account v)) @ take 8 (be_bytes (vote_signature v)))"

definition vote_from_hashes ::
  "(byte list \<Rightarrow> uint256) \<Rightarrow> (uint256 \<Rightarrow> uint512) \<Rightarrow> uint256 \<Rightarrow> uint64 \<Rightarrow> uint256 list \<Rightarrow> vote option" where
  "vote_from_hashes H sign_message acc sq hs = do {
     assert (length hs > 0);
     assert (length hs \<le> 12);
     let v = \<lparr>vote_sequence = sq, vote_blocks = map Vote_hash hs, vote_account = acc, vote_signature = 0\<rparr>;
     Some (v\<lparr>vote_signature := sign_message (vote_hash H v)\<rparr>) }"

section \<open>The format with types\<close>

fun item_serialize :: "vote_item \<Rightarrow> stream" where
  "item_serialize (Vote_hash h) = le_bytes (byte_of_block_type Bt_not_a_block) @ be_bytes h"
| "item_serialize (Vote_block b) = serialize_block b"

definition vote_serialize :: "vote \<Rightarrow> stream" where
  "vote_serialize v = be_bytes (vote_account v) @ be_bytes (vote_signature v) @
     le_bytes (vote_sequence v) @ concat (map item_serialize (vote_blocks v))"

text \<open>One pass of the loop of \<open>deserialize\<close>, which ends when no type can be read.\<close>

definition item_read :: "block_type \<Rightarrow> stream \<Rightarrow> (vote_item \<times> stream) option option" where
  "item_read t s =
     (if t = Bt_not_a_block then Some (map_option (apfst Vote_hash) (read_union s))
      else map_option (map_option (apfst Vote_block)) (deserialize_block t s))"

lemma item_read_less:
  assumes "item_read t s = Some (Some (x, r))"
  shows "length r < length s"
proof (cases "t = Bt_not_a_block")
  case True
  then show ?thesis using assms by (auto simp: item_read_def codec_simps)
next
  case False
  then obtain b where "s = serialize b @ r" using assms by (auto simp: item_read_def deserialize_block_iff)
  moreover have "0 < length (serialize b)" using length_serialize [of b] by (cases b) auto
  ultimately show ?thesis by simp
qed

function items_read :: "stream \<Rightarrow> vote_item list option option" where
  "items_read s =
     (case read_int s of
        None \<Rightarrow> Some (Some [])
      | Some (t, s) \<Rightarrow>
          (case item_read (block_type_of_byte t) s of
             None \<Rightarrow> None
           | Some None \<Rightarrow> Some None
           | Some (Some (x, r)) \<Rightarrow> map_option (map_option ((#) x)) (items_read r)))"
  by pat_completeness auto
termination
proof (relation "measure length")
  show "wf (measure (length :: stream \<Rightarrow> nat))" by simp
  fix s r r' :: stream and t :: byte and x p q m
  assume "read_int s = Some p" "(t, r) = p" "item_read (block_type_of_byte t) r = Some m" "m = Some q" "(x, r') = q"
  then show "(r', s) \<in> measure length"
    using item_read_less [of "block_type_of_byte t" r x r'] by (auto simp: codec_simps)
qed

declare items_read.simps [simp del]

definition vote_deserialize :: "stream \<Rightarrow> vote option option" where
  "vote_deserialize s =
     (case (do { (a, s) \<leftarrow> read_union s; (g, s) \<leftarrow> read_union s; (q, s) \<leftarrow> read_int s; Some (a, g, q, s) }) of
        None \<Rightarrow> Some None
      | Some (a, g, q, s) \<Rightarrow>
          map_option (\<lambda>o_items. case o_items of
             Some (x # xs) \<Rightarrow> Some \<lparr>vote_sequence = q, vote_blocks = x # xs, vote_account = a, vote_signature = g\<rparr>
           | _ \<Rightarrow> None) (items_read s))"

section \<open>The format of \<open>confirm_ack\<close>\<close>

fun item_serialize_typed :: "(byte list \<Rightarrow> uint256) \<Rightarrow> block_type \<Rightarrow> vote_item \<Rightarrow> stream option" where
  "item_serialize_typed H t (Vote_hash h) = (if t = Bt_not_a_block then Some (be_bytes h) else None)"
| "item_serialize_typed H t (Vote_block b) =
     Some (if t = Bt_not_a_block then be_bytes (block_hash H b) else serialize b)"

fun items_serialize_typed :: "(byte list \<Rightarrow> uint256) \<Rightarrow> block_type \<Rightarrow> vote_item list \<Rightarrow> stream option" where
  "items_serialize_typed H t [] = Some []"
| "items_serialize_typed H t (x # xs) = do {
     s \<leftarrow> item_serialize_typed H t x;
     r \<leftarrow> items_serialize_typed H t xs;
     Some (s @ r) }"

definition vote_serialize_typed :: "(byte list \<Rightarrow> uint256) \<Rightarrow> block_type \<Rightarrow> vote \<Rightarrow> stream option" where
  "vote_serialize_typed H t v = do {
     items \<leftarrow> items_serialize_typed H t (vote_blocks v);
     Some (be_bytes (vote_account v) @ be_bytes (vote_signature v) @ le_bytes (vote_sequence v) @ items) }"

text \<open>The loop of the constructor runs while bytes are left.\<close>

function items_read_typed :: "block_type \<Rightarrow> stream \<Rightarrow> vote_item list option option" where
  "items_read_typed t s =
     (if s = [] then Some (Some [])
      else case item_read t s of
         None \<Rightarrow> None
       | Some None \<Rightarrow> Some None
       | Some (Some (x, r)) \<Rightarrow> map_option (map_option ((#) x)) (items_read_typed t r))"
  by pat_completeness auto
termination
  by (relation "measure (length \<circ> snd)") (auto dest: item_read_less)

declare items_read_typed.simps [simp del]

definition vote_read :: "block_type \<Rightarrow> stream \<Rightarrow> vote option option" where
  "vote_read t s =
     (case (do { (a, s) \<leftarrow> read_union s; (g, s) \<leftarrow> read_union s; (q, s) \<leftarrow> read_int s; Some (a, g, q, s) }) of
        None \<Rightarrow> Some None
      | Some (a, g, q, s) \<Rightarrow>
          map_option (\<lambda>o_items. case o_items of
             Some (x # xs) \<Rightarrow> Some \<lparr>vote_sequence = q, vote_blocks = x # xs, vote_account = a, vote_signature = g\<rparr>
           | _ \<Rightarrow> None) (items_read_typed t s))"

section \<open>Equality is equality\<close>

lemma vote_item_eq_eq: "vote_item_eq = (=)"
  by (intro ext) (auto simp: vote_item_eq_def blocks_equal_eq split: vote_item.splits)

lemma vote_eq_eq: "vote_eq v w \<longleftrightarrow> v = w"
  by (cases v; cases w) (auto simp: vote_eq_def vote_item_eq_eq list.rel_eq)

section \<open>Round trips\<close>

lemma item_read_typed: "item_read (type_of b) (serialize b @ r) = Some (Some (Vote_block b, r))"
proof -
  have "type_of b \<noteq> Bt_not_a_block" by (cases b) simp_all
  then show ?thesis by (simp add: item_read_def)
qed

lemma item_read_hash: "item_read Bt_not_a_block (be_bytes h @ r) = Some (Some (Vote_hash h, r))"
  by (simp add: item_read_def u256.dec_enc)

lemma items_read_serialize: "items_read (concat (map item_serialize xs)) = Some (Some xs)"
proof (induction xs)
  case Nil
  show ?case by (subst items_read.simps) (simp add: u8.dec_None_iff [THEN iffD2])
next
  case (Cons x xs)
  let ?r = "concat (map item_serialize xs)"
  obtain t s where x: "item_serialize x = le_bytes (t :: byte) @ s" "item_read (block_type_of_byte t) (s @ ?r) = Some (Some (x, ?r))"
  proof (cases x)
    case (Vote_block b)
    then show ?thesis
      using that [of "byte_of_block_type (type_of b)" "serialize b"] item_read_typed by (simp add: serialize_block_def)
  next
    case (Vote_hash h)
    then show ?thesis
      using that [of 1 "be_bytes h"] item_read_hash by (simp add: block_type_of_byte_def)
  qed
  then show ?case using Cons by (subst items_read.simps) (simp add: u8.dec_enc)
qed

lemma vote_header_read:
  fixes a :: uint256 and g :: uint512 and q :: uint64
  shows "(do { (a, s) \<leftarrow> read_union (be_bytes a @ be_bytes g @ le_bytes q @ s);
      (g, s) \<leftarrow> read_union s; (q, s) \<leftarrow> read_int s; Some (a, g, q, s) }) = Some (a, g, q, s)"
  by (simp add: u256.dec_enc u512.dec_enc u64.dec_enc)

lemma vote_deserialize_serialize:
  "vote_blocks v \<noteq> [] \<Longrightarrow> vote_deserialize (vote_serialize v) = Some (Some v)"
  unfolding vote_deserialize_def vote_serialize_def vote_header_read option.case prod.case items_read_serialize
  by (cases "vote_blocks v") simp_all

text \<open>
  With the type of its blocks a vote comes back as it was; with \<open>not_a_block\<close> it comes back
  with hashes in place of its blocks, which leaves the hashes it votes for the same.
\<close>

definition items_of_type :: "block_type \<Rightarrow> vote_item list \<Rightarrow> bool" where
  "items_of_type t xs \<longleftrightarrow> list_all (\<lambda>x. case x of Vote_block b \<Rightarrow> type_of b = t | Vote_hash h \<Rightarrow> False) xs"

lemma items_typed_round:
  assumes "items_of_type t xs"
  obtains s where "items_serialize_typed H t xs = Some s" "items_read_typed t s = Some (Some xs)"
  using assms
proof (induction xs arbitrary: thesis)
  case Nil
  have "items_read_typed t [] = Some (Some [])" by (subst items_read_typed.simps) simp
  then show ?case using Nil by simp
next
  case (Cons x xs)
  obtain b where b: "x = Vote_block b" "type_of b = t" "items_of_type t xs"
    using Cons.prems(2) by (cases x) (simp_all add: items_of_type_def)
  obtain s where s: "items_serialize_typed H t xs = Some s" "items_read_typed t s = Some (Some xs)"
    using Cons.IH b(3) by blast
  have t: "t \<noteq> Bt_not_a_block" using b(2) by (cases b) auto
  have "serialize b \<noteq> []" using length_serialize [of b] by (cases b) auto
  then have "items_read_typed t (serialize b @ s) = Some (Some (x # xs))"
    using item_read_typed [of b s] b(1,2) s(2) by (subst items_read_typed.simps) simp
  then show ?case using Cons.prems(1) b(1) s(1) t by simp
qed

lemma items_hashed_round:
  obtains s where "items_serialize_typed H Bt_not_a_block xs = Some s"
    "items_read_typed Bt_not_a_block s = Some (Some (map (\<lambda>x. Vote_hash (item_hash H x)) xs))"
proof (induction xs arbitrary: thesis)
  case Nil
  have "items_read_typed Bt_not_a_block [] = Some (Some [])" by (subst items_read_typed.simps) simp
  then show ?case using Nil by simp
next
  case (Cons x xs)
  obtain s where s: "items_serialize_typed H Bt_not_a_block xs = Some s"
    "items_read_typed Bt_not_a_block s = Some (Some (map (\<lambda>x. Vote_hash (item_hash H x)) xs))"
    using Cons.IH by blast
  let ?h = "item_hash H x"
  have "length (be_bytes ?h) = 32" by simp
  then have "be_bytes ?h \<noteq> []" by (metis list.size(3) zero_neq_numeral)
  then have "items_read_typed Bt_not_a_block (be_bytes ?h @ s) =
      Some (Some (map (\<lambda>x. Vote_hash (item_hash H x)) (x # xs)))"
    using item_read_hash [of ?h s] s(2) by (subst items_read_typed.simps) simp
  moreover have "item_serialize_typed H Bt_not_a_block x = Some (be_bytes ?h)" by (cases x) simp_all
  ultimately show ?case using Cons.prems s(1) by simp
qed

lemma vote_read_typed:
  assumes "vote_blocks v \<noteq> []" "items_serialize_typed H t (vote_blocks v) = Some s" "items_read_typed t s = Some (Some (x # xs))"
  obtains s' where "vote_serialize_typed H t v = Some s'" "vote_read t s' = Some (Some (v\<lparr>vote_blocks := x # xs\<rparr>))"
proof -
  let ?s = "be_bytes (vote_account v) @ be_bytes (vote_signature v) @ le_bytes (vote_sequence v) @ s"
  have "vote_read t ?s = Some (Some (v\<lparr>vote_blocks := x # xs\<rparr>))"
    unfolding vote_read_def vote_header_read option.case prod.case assms(3) by (cases v) simp
  moreover have "vote_serialize_typed H t v = Some ?s" using assms(2) by (simp add: vote_serialize_typed_def)
  ultimately show ?thesis using that by blast
qed

lemma vote_hash_items:
  assumes "map (item_hash H) xs = map (item_hash H) (vote_blocks v)" "item_which (xs ! 0) = item_which (vote_blocks v ! 0)"
  shows "vote_hash H (v\<lparr>vote_blocks := xs\<rparr>) = vote_hash H v"
proof -
  have "concat (map (\<lambda>i. be_bytes (item_hash H i)) xs) = concat (map (\<lambda>i. be_bytes (item_hash H i)) (vote_blocks v))"
    using arg_cong [OF assms(1), of "\<lambda>hs. concat (map be_bytes hs)"] by (simp add: comp_def)
  moreover have "length (vote_blocks v) = length xs" using assms(1) by (metis length_map)
  ultimately show ?thesis using assms(2) by (simp add: vote_hash_def vote_hash_input_def)
qed

end
