(* ===== verification/Messages.thy ===== *)
theory Messages
  imports Votes
begin

unbundle bit_operations_syntax

text \<open>
  The wire protocol: \<open>nano/node/common.cpp\<close> and \<open>nano/node/common.hpp\<close>. The header and the
  messages with their serialisers, and \<open>message_parser\<close>, which takes a datagram to the call of
  the visitor it makes or to a status. Readers return \<open>None\<close> where an assertion fails,
  \<open>Some None\<close> where they report an error. The test of the work value is \<open>work_validate\<close> of
  \<open>nano/lib/work.cpp\<close>; the uniquers of blocks and votes are tables of the objects alive.
\<close>

section \<open>Constants\<close>

datatype nano_networks = Nano_test_network | Nano_beta_network | Nano_live_network

fun network_number :: "nano_networks \<Rightarrow> int" where
  "network_number Nano_test_network = 0"
| "network_number Nano_beta_network = 1"
| "network_number Nano_live_network = 2"

definition protocol_version :: byte where
  "protocol_version = 0x10"

definition protocol_version_min :: byte where
  "protocol_version_min = 0x0d"

definition protocol_version_reasonable_min :: byte where
  "protocol_version_reasonable_min = 0x0d"

text \<open>The letters F, and A, B or C.\<close>

fun magic_number :: "nano_networks \<Rightarrow> byte \<times> byte" where
  "magic_number Nano_test_network = (70, 65)"
| "magic_number Nano_beta_network = (70, 66)"
| "magic_number Nano_live_network = (70, 67)"

datatype message_type =
    Mt_invalid | Mt_not_a_type | Mt_keepalive | Mt_publish | Mt_confirm_req | Mt_confirm_ack
  | Mt_bulk_pull | Mt_bulk_push | Mt_frontier_req | Mt_node_id_handshake | Mt_bulk_pull_account
  | Mt_other byte

fun byte_of_message_type :: "message_type \<Rightarrow> byte" where
  "byte_of_message_type Mt_invalid = 0"
| "byte_of_message_type Mt_not_a_type = 1"
| "byte_of_message_type Mt_keepalive = 2"
| "byte_of_message_type Mt_publish = 3"
| "byte_of_message_type Mt_confirm_req = 4"
| "byte_of_message_type Mt_confirm_ack = 5"
| "byte_of_message_type Mt_bulk_pull = 6"
| "byte_of_message_type Mt_bulk_push = 7"
| "byte_of_message_type Mt_frontier_req = 8"
| "byte_of_message_type Mt_node_id_handshake = 10"
| "byte_of_message_type Mt_bulk_pull_account = 11"
| "byte_of_message_type (Mt_other b) = b"

definition message_type_of_byte :: "byte \<Rightarrow> message_type" where
  "message_type_of_byte b =
     (if b = 0 then Mt_invalid else if b = 1 then Mt_not_a_type else if b = 2 then Mt_keepalive
      else if b = 3 then Mt_publish else if b = 4 then Mt_confirm_req else if b = 5 then Mt_confirm_ack
      else if b = 6 then Mt_bulk_pull else if b = 7 then Mt_bulk_push else if b = 8 then Mt_frontier_req
      else if b = 10 then Mt_node_id_handshake else if b = 11 then Mt_bulk_pull_account else Mt_other b)"

section \<open>The header\<close>

record message_header =
  version_max :: byte
  version_using :: byte
  version_min :: byte
  header_type :: message_type
  extensions :: uint16

definition message_header_init :: "message_type \<Rightarrow> message_header" where
  "message_header_init t = \<lparr>version_max = protocol_version, version_using = protocol_version,
     version_min = protocol_version_min, header_type = t, extensions = 0\<rparr>"

definition header_serialize :: "nano_networks \<Rightarrow> message_header \<Rightarrow> stream" where
  "header_serialize net h = [fst (magic_number net), snd (magic_number net)] @ le_bytes (version_max h) @
     le_bytes (version_using h) @ le_bytes (version_min h) @
     le_bytes (byte_of_message_type (header_type h)) @ le_bytes (extensions h)"

definition header_deserialize :: "nano_networks \<Rightarrow> stream \<Rightarrow> (message_header \<times> stream) option" where
  "header_deserialize net s = do {
     (magic, s) \<leftarrow> try_read 2 s;
     _ \<leftarrow> assert (magic = [fst (magic_number net), snd (magic_number net)]);
     (vmax, s) \<leftarrow> read_int s;
     (vusing, s) \<leftarrow> read_int s;
     (vmin, s) \<leftarrow> read_int s;
     (t, s) \<leftarrow> read_int s;
     (e, s) \<leftarrow> read_int s;
     Some (\<lparr>version_max = vmax, version_using = vusing, version_min = vmin,
       header_type = message_type_of_byte t, extensions = e\<rparr>, s) }"

definition block_type_mask :: uint16 where
  "block_type_mask = 0x0f00"

definition header_block_type :: "message_header \<Rightarrow> block_type" where
  "header_block_type h = block_type_of_byte (ucast (drop_bit 8 (extensions h AND block_type_mask)))"

definition block_type_set :: "message_header \<Rightarrow> block_type \<Rightarrow> message_header" where
  "block_type_set h t = h\<lparr>extensions :=
     (extensions h AND NOT block_type_mask) OR push_bit 8 (ucast (byte_of_block_type t))\<rparr>"

definition extension_test :: "message_header \<Rightarrow> nat \<Rightarrow> bool" where
  "extension_test h k = bit (extensions h) k"

definition extension_set :: "message_header \<Rightarrow> nat \<Rightarrow> bool \<Rightarrow> message_header" where
  "extension_set h k v = h\<lparr>extensions := if v then set_bit k (extensions h) else unset_bit k (extensions h)\<rparr>"

definition bulk_pull_is_count_present :: "message_header \<Rightarrow> bool" where
  "bulk_pull_is_count_present h \<longleftrightarrow> header_type h = Mt_bulk_pull \<and> extension_test h 0"

definition payload_length_bytes :: "message_header \<Rightarrow> nat option" where
  "payload_length_bytes h =
     (case header_type h of
        Mt_bulk_pull \<Rightarrow> Some ((32 + 32) + (if bulk_pull_is_count_present h then 8 else 0))
      | Mt_bulk_push \<Rightarrow> Some 0
      | Mt_frontier_req \<Rightarrow> Some (32 + 4 + 4)
      | Mt_bulk_pull_account \<Rightarrow> Some (32 + 16 + 1)
      | Mt_keepalive \<Rightarrow> Some (8 * (16 + 2))
      | _ \<Rightarrow> None)"

text \<open>Both tests read the class constant, not the bytes of the message.\<close>

definition valid_magic :: "nano_networks \<Rightarrow> bool" where
  "valid_magic net \<longleftrightarrow> fst (magic_number net) = 70 \<and> 65 \<le> snd (magic_number net) \<and> snd (magic_number net) \<le> 67"

definition valid_network :: "nano_networks \<Rightarrow> bool" where
  "valid_network net \<longleftrightarrow> uint (snd (magic_number net)) - 65 = network_number net"

section \<open>Messages\<close>

subsection \<open>keepalive\<close>

text \<open>An endpoint is the sixteen bytes of an IPv6 address, in network order, and a port.\<close>

record endpoint =
  address :: uint128
  port :: uint16

record keepalive =
  keepalive_header :: message_header
  peers :: "endpoint list"

definition endpoint_write :: "endpoint \<Rightarrow> stream" where
  "endpoint_write e = be_bytes (address e) @ le_bytes (port e)"

definition endpoint_read :: "stream \<Rightarrow> (endpoint \<times> stream) option" where
  "endpoint_read s = do {
     (a, s) \<leftarrow> read_union s;
     (p, s) \<leftarrow> read_int s;
     Some (\<lparr>address = a, port = p\<rparr>, s) }"

definition keepalive_init :: keepalive where
  "keepalive_init = \<lparr>keepalive_header = message_header_init Mt_keepalive,
     peers = replicate 8 \<lparr>address = 0, port = 0\<rparr>\<rparr>"

definition keepalive_serialize :: "nano_networks \<Rightarrow> keepalive \<Rightarrow> stream" where
  "keepalive_serialize net m =
     header_serialize net (keepalive_header m) @ concat (map endpoint_write (peers m))"

definition keepalive_deserialize :: "message_header \<Rightarrow> stream \<Rightarrow> (keepalive \<times> stream) option option" where
  "keepalive_deserialize h s = do {
     assert (header_type h = Mt_keepalive);
     Some (do {
       (ps, s) \<leftarrow> read_times endpoint_read 8 s;
       Some (\<lparr>keepalive_header = h, peers = ps\<rparr>, s) }) }"

subsection \<open>publish\<close>

record publish =
  publish_header :: message_header
  publish_block :: block

definition publish_make :: "block \<Rightarrow> publish" where
  "publish_make b = \<lparr>publish_header = block_type_set (message_header_init Mt_publish) (type_of b),
     publish_block = b\<rparr>"

definition publish_serialize :: "nano_networks \<Rightarrow> publish \<Rightarrow> stream" where
  "publish_serialize net m = header_serialize net (publish_header m) @ serialize (publish_block m)"

definition publish_deserialize ::
  "(block \<Rightarrow> block) \<Rightarrow> message_header \<Rightarrow> stream \<Rightarrow> (publish \<times> stream) option option" where
  "publish_deserialize unique h s = do {
     assert (header_type h = Mt_publish);
     m \<leftarrow> deserialize_block (header_block_type h) s;
     Some (map_option (\<lambda>(b, s). (\<lparr>publish_header = h, publish_block = unique b\<rparr>, s)) m) }"

subsection \<open>confirm\_req\<close>

record confirm_req =
  req_header :: message_header
  req_block :: "block option"
  roots_hashes :: "(uint256 \<times> uint256) list"

definition confirm_req_block :: "block \<Rightarrow> confirm_req" where
  "confirm_req_block b = \<lparr>req_header = block_type_set (message_header_init Mt_confirm_req) (type_of b),
     req_block = Some b, roots_hashes = []\<rparr>"

definition confirm_req_roots :: "(uint256 \<times> uint256) list \<Rightarrow> confirm_req" where
  "confirm_req_roots rs = \<lparr>req_header = block_type_set (message_header_init Mt_confirm_req) Bt_not_a_block,
     req_block = None, roots_hashes = rs\<rparr>"

definition root_hash_write :: "uint256 \<times> uint256 \<Rightarrow> stream" where
  "root_hash_write p = be_bytes (fst p) @ be_bytes (snd p)"

definition confirm_req_serialize :: "nano_networks \<Rightarrow> confirm_req \<Rightarrow> stream option" where
  "confirm_req_serialize net m =
     (if header_block_type (req_header m) = Bt_not_a_block
      then do {
        assert (roots_hashes m \<noteq> []);
        assert (length (roots_hashes m) \<le> 32);
        let count = (word_of_nat (length (roots_hashes m)) :: byte);
        Some (header_serialize net (req_header m) @ le_bytes count @ concat (map root_hash_write (roots_hashes m))) }
      else do {
        b \<leftarrow> req_block m;
        Some (header_serialize net (req_header m) @ serialize b) })"

text \<open>The loop skips an entry whose hash or root is zero; the root is not read after a zero hash.\<close>

fun roots_read :: "nat \<Rightarrow> stream \<Rightarrow> ((uint256 \<times> uint256) list \<times> stream) option" where
  "roots_read 0 s = Some ([], s)"
| "roots_read (Suc k) s = do {
     (h, s) \<leftarrow> read_union s;
     if h \<noteq> 0
     then do {
       (r, s) \<leftarrow> read_union s;
       (rs, s) \<leftarrow> roots_read k s;
       Some (if r \<noteq> 0 then (h, r) # rs else rs, s) }
     else roots_read k s }"

definition confirm_req_deserialize ::
  "(block \<Rightarrow> block) \<Rightarrow> message_header \<Rightarrow> stream \<Rightarrow> (confirm_req \<times> stream) option option" where
  "confirm_req_deserialize unique h s = do {
     assert (header_type h = Mt_confirm_req);
     (if header_block_type h = Bt_not_a_block
      then Some (do {
        (count, s) \<leftarrow> read_int s;
        (rs, s) \<leftarrow> roots_read (unat (count :: byte)) s;
        assert (rs \<noteq> [] \<and> length rs = unat count);
        Some (\<lparr>req_header = h, req_block = None, roots_hashes = rs\<rparr>, s) })
      else do {
        m \<leftarrow> deserialize_block (header_block_type h) s;
        Some (map_option (\<lambda>(b, s). (\<lparr>req_header = h, req_block = Some (unique b), roots_hashes = []\<rparr>, s)) m) }) }"

definition confirm_req_eq :: "confirm_req \<Rightarrow> confirm_req \<Rightarrow> bool" where
  "confirm_req_eq m m' =
     (case (req_block m, req_block m') of
        (Some b, Some b') \<Rightarrow> blocks_equal b b'
      | _ \<Rightarrow> roots_hashes m \<noteq> [] \<and> roots_hashes m' \<noteq> [] \<and> roots_hashes m = roots_hashes m')"

subsection \<open>confirm\_ack\<close>

record confirm_ack =
  ack_header :: message_header
  ack_vote :: vote

definition confirm_ack_make :: "vote \<Rightarrow> confirm_ack option" where
  "confirm_ack_make v =
     (case vote_blocks v of
        [] \<Rightarrow> None
      | first_vote_block # _ \<Rightarrow>
          Some \<lparr>ack_header = block_type_set (message_header_init Mt_confirm_ack)
              (case first_vote_block of Vote_hash h \<Rightarrow> Bt_not_a_block | Vote_block b \<Rightarrow> type_of b),
            ack_vote = v\<rparr>)"

definition confirm_ack_serialize :: "(byte list \<Rightarrow> uint256) \<Rightarrow> nano_networks \<Rightarrow> confirm_ack \<Rightarrow> stream option" where
  "confirm_ack_serialize H net m = do {
     assert (header_block_type (ack_header m) \<in> {Bt_not_a_block, Bt_send, Bt_receive, Bt_open, Bt_change, Bt_state});
     v \<leftarrow> vote_serialize_typed H (header_block_type (ack_header m)) (ack_vote m);
     Some (header_serialize net (ack_header m) @ v) }"

text \<open>The vote takes all the bytes that are left.\<close>

definition confirm_ack_deserialize :: "(vote \<Rightarrow> vote) \<Rightarrow> message_header \<Rightarrow> stream \<Rightarrow> confirm_ack option option" where
  "confirm_ack_deserialize unique h s =
     map_option (map_option (\<lambda>v. \<lparr>ack_header = h, ack_vote = unique v\<rparr>)) (vote_read (header_block_type h) s)"

subsection \<open>frontier\_req\<close>

record frontier_req =
  frontier_header :: message_header
  frontier_start :: uint256
  age :: uint32
  frontier_count :: uint32

definition frontier_req_serialize :: "nano_networks \<Rightarrow> frontier_req \<Rightarrow> stream" where
  "frontier_req_serialize net m = header_serialize net (frontier_header m) @
     be_bytes (frontier_start m) @ le_bytes (age m) @ le_bytes (frontier_count m)"

definition frontier_req_deserialize :: "message_header \<Rightarrow> stream \<Rightarrow> (frontier_req \<times> stream) option option" where
  "frontier_req_deserialize h s = do {
     assert (header_type h = Mt_frontier_req);
     Some (do {
       (a, s) \<leftarrow> read_union s;
       (g, s) \<leftarrow> read_int s;
       (c, s) \<leftarrow> read_int s;
       Some (\<lparr>frontier_header = h, frontier_start = a, age = g, frontier_count = c\<rparr>, s) }) }"

subsection \<open>bulk\_pull\<close>

record bulk_pull =
  pull_header :: message_header
  pull_start :: uint256
  pull_end :: uint256
  pull_count :: uint32

definition is_count_present :: "message_header \<Rightarrow> bool" where
  "is_count_present h = extension_test h 0"

definition bulk_pull_serialize :: "nano_networks \<Rightarrow> bulk_pull \<Rightarrow> stream option" where
  "bulk_pull_serialize net m = do {
     assert (pull_count m = 0 \<and> \<not> is_count_present (pull_header m) \<or>
       pull_count m \<noteq> 0 \<and> is_count_present (pull_header m));
     Some (header_serialize net (pull_header m) @ be_bytes (pull_start m) @ be_bytes (pull_end m) @
       (if is_count_present (pull_header m) then [0] @ le_bytes (pull_count m) @ [0, 0, 0] else [])) }"

definition bulk_pull_deserialize :: "message_header \<Rightarrow> stream \<Rightarrow> (bulk_pull \<times> stream) option option" where
  "bulk_pull_deserialize h s = do {
     assert (header_type h = Mt_bulk_pull);
     Some (do {
       (a, s) \<leftarrow> read_union s;
       (e, s) \<leftarrow> read_union s;
       (if is_count_present h
        then do {
          (buffer, s) \<leftarrow> try_read 8 s;
          assert (hd buffer = 0);
          Some (\<lparr>pull_header = h, pull_start = a, pull_end = e,
            pull_count = of_le_bytes (take 4 (drop 1 buffer))\<rparr>, s) }
        else Some (\<lparr>pull_header = h, pull_start = a, pull_end = e, pull_count = 0\<rparr>, s)) }) }"

subsection \<open>bulk\_pull\_account and bulk\_push\<close>

text \<open>The flags are an enumeration of one byte; no reader checks its range.\<close>

record bulk_pull_account =
  account_header :: message_header
  pull_account :: uint256
  minimum_amount :: uint128
  flags :: byte

definition bulk_pull_account_serialize :: "nano_networks \<Rightarrow> bulk_pull_account \<Rightarrow> stream" where
  "bulk_pull_account_serialize net m = header_serialize net (account_header m) @
     be_bytes (pull_account m) @ be_bytes (minimum_amount m) @ le_bytes (flags m)"

definition bulk_pull_account_deserialize ::
  "message_header \<Rightarrow> stream \<Rightarrow> (bulk_pull_account \<times> stream) option option" where
  "bulk_pull_account_deserialize h s = do {
     assert (header_type h = Mt_bulk_pull_account);
     Some (do {
       (a, s) \<leftarrow> read_union s;
       (m, s) \<leftarrow> read_union s;
       (f, s) \<leftarrow> read_int s;
       Some (\<lparr>account_header = h, pull_account = a, minimum_amount = m, flags = f\<rparr>, s) }) }"

definition bulk_push_serialize :: "nano_networks \<Rightarrow> message_header \<Rightarrow> stream" where
  "bulk_push_serialize net h = header_serialize net h"

definition bulk_push_deserialize :: "message_header \<Rightarrow> stream \<Rightarrow> (message_header \<times> stream) option option" where
  "bulk_push_deserialize h s = do { assert (header_type h = Mt_bulk_push); Some (Some (h, s)) }"

subsection \<open>node\_id\_handshake\<close>

record node_id_handshake =
  handshake_header :: message_header
  query :: "uint256 option"
  response :: "(uint256 \<times> uint512) option"

definition node_id_handshake_make :: "uint256 option \<Rightarrow> (uint256 \<times> uint512) option \<Rightarrow> node_id_handshake" where
  "node_id_handshake_make q r =
     (let h = message_header_init Mt_node_id_handshake;
          h = (if q \<noteq> None then extension_set h 0 True else h);
          h = (if r \<noteq> None then extension_set h 1 True else h)
      in \<lparr>handshake_header = h, query = q, response = r\<rparr>)"

definition node_id_handshake_serialize :: "nano_networks \<Rightarrow> node_id_handshake \<Rightarrow> stream" where
  "node_id_handshake_serialize net m = header_serialize net (handshake_header m) @
     (case query m of Some q \<Rightarrow> be_bytes q | None \<Rightarrow> []) @
     (case response m of Some r \<Rightarrow> be_bytes (fst r) @ be_bytes (snd r) | None \<Rightarrow> [])"

definition node_id_handshake_deserialize ::
  "message_header \<Rightarrow> stream \<Rightarrow> (node_id_handshake \<times> stream) option option" where
  "node_id_handshake_deserialize h s = do {
     assert (header_type h = Mt_node_id_handshake);
     Some (do {
       (q, s) \<leftarrow> (if extension_test h 0 then map_option (apfst Some) (read_union s) else Some (None, s));
       (r, s) \<leftarrow> (if extension_test h 1
         then do { (a, s) \<leftarrow> read_union s; (g, s) \<leftarrow> read_union s; Some (Some (a, g), s) }
         else Some (None, s));
       Some (\<lparr>handshake_header = h, query = q, response = r\<rparr>, s) }) }"

end
