(* ===== verification/Message_Codec.thy ===== *)
theory Message_Codec
  imports Messages
begin

unbundle bit_operations_syntax

text \<open>
  The readers of the messages against their writers: each reader succeeds exactly on the
  images of the writer, up to what the readers reject (an enumerator out of range, a zero
  hash or root, padding that is lost).
\<close>

section \<open>The header\<close>

definition known_type :: "message_type \<Rightarrow> bool" where
  "known_type t \<longleftrightarrow> message_type_of_byte (byte_of_message_type t) = t"

lemma byte_of_message_type_of_byte [simp]: "byte_of_message_type (message_type_of_byte b) = b"
  by (simp add: message_type_of_byte_def)

lemma known_type_read [simp]: "known_type (message_type_of_byte b)"
  by (simp add: known_type_def)

lemma known_types [simp]:
  "known_type Mt_keepalive" "known_type Mt_publish" "known_type Mt_confirm_req" "known_type Mt_confirm_ack"
  "known_type Mt_bulk_pull" "known_type Mt_bulk_push" "known_type Mt_frontier_req"
  "known_type Mt_node_id_handshake" "known_type Mt_bulk_pull_account"
  by (simp_all add: known_type_def message_type_of_byte_def)

lemma message_type_byte_iff: "message_type_of_byte t = u \<longleftrightarrow> known_type u \<and> t = byte_of_message_type u"
  by (metis byte_of_message_type_of_byte known_type_def known_type_read)

lemma length_header [simp]: "length (header_serialize net h) = 8"
  by (simp add: header_serialize_def)

lemma header_deserialize_iff:
  "header_deserialize net s = Some (h, r) \<longleftrightarrow> known_type (header_type h) \<and> s = header_serialize net h @ r"
proof -
  have "header_deserialize net s = Some (h, r) \<longleftrightarrow>
    (\<exists>t. message_type_of_byte t = header_type h \<and>
      s = [fst (magic_number net), snd (magic_number net)] @ le_bytes (version_max h) @ le_bytes (version_using h) @
        le_bytes (version_min h) @ le_bytes t @ le_bytes (extensions h) @ r)"
    by (cases h) (auto simp: header_deserialize_def try_read_Some bind_eq_Some_conv codec_simps)
  also have "\<dots> \<longleftrightarrow> known_type (header_type h) \<and> s = header_serialize net h @ r"
    by (auto simp: message_type_byte_iff header_serialize_def)
  finally show ?thesis .
qed

lemma header_deserialize_serialize [simp]:
  "known_type (header_type h) \<Longrightarrow> header_deserialize net (header_serialize net h @ r) = Some (h, r)"
  by (simp add: header_deserialize_iff)

section \<open>Bits of the header\<close>

lemma block_type_mask_bits: "block_type_mask = push_bit 8 (mask 4)"
  by (simp add: block_type_mask_def mask_eq_exp_minus_1 push_bit_eq_mult)

lemma block_type_set_type [simp]: "header_type (block_type_set h t) = header_type h"
  by (simp add: block_type_set_def)

lemma block_type_round:
  assumes "byte_of_block_type t < 16" "block_type_of_byte (byte_of_block_type t) = t"
  shows "header_block_type (block_type_set h t) = t"
proof -
  let ?b = "byte_of_block_type t"
  have "unat (take_bit 4 ?b) = unat ?b"
    using assms(1) by (simp add: take_bit_eq_mod unat_mod word_less_nat_alt)
  then have small: "take_bit 4 ?b = ?b" by (simp add: word_unat_eq_iff)
  have "ucast (drop_bit 8 (extensions (block_type_set h t) AND block_type_mask)) = take_bit 4 ?b"
    by (rule bit_eqI) (auto simp: block_type_set_def block_type_mask_bits bit_simps)
  then show ?thesis using small assms(2) by (simp add: header_block_type_def)
qed

lemma block_type_round_known [simp]:
  "header_block_type (block_type_set h (type_of b)) = type_of b"
  "header_block_type (block_type_set h Bt_not_a_block) = Bt_not_a_block"
  by (cases b; simp add: block_type_round block_type_of_byte_def) (simp add: block_type_round block_type_of_byte_def)

lemma extension_test_set [simp]:
  "k < 16 \<Longrightarrow> extension_test (extension_set h k v) j = (if j = k then v else extension_test h j)"
  by (auto simp: extension_test_def extension_set_def bit_simps)

lemma extension_set_type [simp]: "header_type (extension_set h k v) = header_type h"
  by (simp add: extension_set_def)

section \<open>Bodies\<close>

interpretation endpoint_codec: fixed_codec endpoint_write endpoint_read 18
proof
  fix s r :: stream and x :: endpoint
  show "endpoint_read s = Some (x, r) \<longleftrightarrow> s = endpoint_write x @ r"
    by (cases x) (auto simp: endpoint_read_def endpoint_write_def bind_eq_Some_conv codec_simps)
  show "length (endpoint_write x) = 18" by (simp add: endpoint_write_def)
  show "\<exists>x r. endpoint_read s = Some (x, r)" if "18 \<le> length s"
    using that by (auto simp: endpoint_read_def read_union_def read_int_def try_read_def)
qed

lemma keepalive_iff:
  "keepalive_deserialize h s = Some (Some (m, r)) \<longleftrightarrow>
     header_type h = Mt_keepalive \<and> keepalive_header m = h \<and> length (peers m) = 8 \<and>
     s = concat (map endpoint_write (peers m)) @ r"
  by (cases m) (auto simp: keepalive_deserialize_def bind_eq_Some_conv endpoint_codec.read_times_Some)

lemma publish_iff:
  "publish_deserialize (\<lambda>b. b) h s = Some (Some (m, r)) \<longleftrightarrow>
     header_type h = Mt_publish \<and> publish_header m = h \<and> header_block_type h = type_of (publish_block m) \<and>
     s = serialize (publish_block m) @ r"
  by (cases m) (auto simp: publish_deserialize_def bind_eq_Some_conv deserialize_block_iff)

text \<open>Of the roots the reader keeps those with both parts nonzero.\<close>

definition roots_ok :: "(uint256 \<times> uint256) list \<Rightarrow> bool" where
  "roots_ok rs \<longleftrightarrow> list_all (\<lambda>(h, r). h \<noteq> 0 \<and> r \<noteq> 0) rs"

lemma roots_read_length: "roots_read k s = Some (rs, r) \<Longrightarrow> length rs \<le> k"
proof (induction k arbitrary: s rs)
  case (Suc k)
  then show ?case by (auto simp: bind_eq_Some_conv split: if_splits) (fastforce+)
qed simp

lemma roots_read_iff:
  "roots_read (length rs) s = Some (rs, r) \<longleftrightarrow> roots_ok rs \<and> s = concat (map root_hash_write rs) @ r"
proof (induction rs arbitrary: s)
  case Nil
  show ?case by (auto simp: roots_ok_def)
next
  case (Cons p rs)
  obtain h t where p: "p = (h, t)" by (cases p)
  have drop: "roots_read (length rs) s' \<noteq> Some (q # rs, r)" for s' q
    using roots_read_length [of "length rs" s' "q # rs" r] by auto
  show ?case
    by (auto simp: p bind_eq_Some_conv codec_simps Cons.IH drop roots_ok_def root_hash_write_def split: if_splits)
qed

lemma confirm_req_block_iff:
  assumes "header_block_type h \<noteq> Bt_not_a_block"
  shows "confirm_req_deserialize (\<lambda>b. b) h s = Some (Some (m, r)) \<longleftrightarrow>
     header_type h = Mt_confirm_req \<and> req_header m = h \<and> roots_hashes m = [] \<and>
     (\<exists>b. req_block m = Some b \<and> header_block_type h = type_of b \<and> s = serialize b @ r)"
  using assms by (cases m) (auto simp: confirm_req_deserialize_def bind_eq_Some_conv deserialize_block_iff)

lemma confirm_req_roots_iff:
  assumes "header_block_type h = Bt_not_a_block"
  shows "confirm_req_deserialize u h s = Some (Some (m, r)) \<longleftrightarrow>
     header_type h = Mt_confirm_req \<and> req_header m = h \<and> req_block m = None \<and> roots_hashes m \<noteq> [] \<and>
     roots_ok (roots_hashes m) \<and> length (roots_hashes m) < 256 \<and>
     s = le_bytes (word_of_nat (length (roots_hashes m)) :: byte) @ concat (map root_hash_write (roots_hashes m)) @ r"
proof -
  have len: "unat c = n \<longleftrightarrow> n < 256 \<and> c = word_of_nat n" for c :: byte and n
    using unat_bound [of c] by auto
  have "confirm_req_deserialize u h s = Some (Some (m, r)) \<longleftrightarrow>
     header_type h = Mt_confirm_req \<and> req_header m = h \<and> req_block m = None \<and> roots_hashes m \<noteq> [] \<and>
     (\<exists>c s'. s = le_bytes (c :: byte) @ s' \<and> unat c = length (roots_hashes m) \<and>
        roots_read (length (roots_hashes m)) s' = Some (roots_hashes m, r))"
    using assms by (cases m) (auto simp: confirm_req_deserialize_def bind_eq_Some_conv codec_simps)
  also have "\<dots> \<longleftrightarrow> header_type h = Mt_confirm_req \<and> req_header m = h \<and> req_block m = None \<and> roots_hashes m \<noteq> [] \<and>
     roots_ok (roots_hashes m) \<and> length (roots_hashes m) < 256 \<and>
     s = le_bytes (word_of_nat (length (roots_hashes m)) :: byte) @ concat (map root_hash_write (roots_hashes m)) @ r"
    unfolding roots_read_iff len by blast
  finally show ?thesis .
qed

lemma frontier_req_iff:
  "frontier_req_deserialize h s = Some (Some (m, r)) \<longleftrightarrow>
     header_type h = Mt_frontier_req \<and> frontier_header m = h \<and>
     s = be_bytes (frontier_start m) @ le_bytes (age m) @ le_bytes (frontier_count m) @ r"
  by (cases m) (auto simp: frontier_req_deserialize_def bind_eq_Some_conv codec_simps)

lemma bulk_pull_account_iff:
  "bulk_pull_account_deserialize h s = Some (Some (m, r)) \<longleftrightarrow>
     header_type h = Mt_bulk_pull_account \<and> account_header m = h \<and>
     s = be_bytes (pull_account m) @ be_bytes (minimum_amount m) @ le_bytes (flags m) @ r"
  by (cases m) (auto simp: bulk_pull_account_deserialize_def bind_eq_Some_conv codec_simps)

lemma handshake_iff:
  "node_id_handshake_deserialize h s = Some (Some (m, r)) \<longleftrightarrow>
     header_type h = Mt_node_id_handshake \<and> handshake_header m = h \<and>
     (query m \<noteq> None \<longleftrightarrow> extension_test h 0) \<and> (response m \<noteq> None \<longleftrightarrow> extension_test h 1) \<and>
     s = (case query m of Some q \<Rightarrow> be_bytes q | None \<Rightarrow> []) @
       (case response m of Some r \<Rightarrow> be_bytes (fst r) @ be_bytes (snd r) | None \<Rightarrow> []) @ r"
  by (cases m; cases "query m"; cases "response m")
    (auto simp: node_id_handshake_deserialize_def bind_eq_Some_conv codec_simps split: if_splits)

lemma bulk_pull_round:
  assumes "header_type (pull_header m) = Mt_bulk_pull" "is_count_present (pull_header m) \<longleftrightarrow> pull_count m \<noteq> 0"
  obtains s where "bulk_pull_serialize net m = Some (header_serialize net (pull_header m) @ s)"
    "bulk_pull_deserialize (pull_header m) (s @ r) = Some (Some (m, r))"
    "payload_length_bytes (pull_header m) = Some (length s)"
proof -
  let ?s = "be_bytes (pull_start m) @ be_bytes (pull_end m) @
    (if is_count_present (pull_header m) then [0] @ le_bytes (pull_count m) @ [0, 0, 0] else [])"
  have buf: "try_read 8 (0 # le_bytes c @ 0 # 0 # 0 # r) = Some (0 # le_bytes c @ [0, 0, 0], r)" for c :: uint32
    by (simp add: try_read_Some)
  have "bulk_pull_deserialize (pull_header m) (?s @ r) = Some (Some (m, r))"
    using assms by (cases m) (auto simp: bulk_pull_deserialize_def u256.dec_enc buf of_le_bytes_le_bytes)
  moreover have "payload_length_bytes (pull_header m) = Some (length ?s)"
    using assms(1) by (simp add: payload_length_bytes_def bulk_pull_is_count_present_def is_count_present_def)
  ultimately show ?thesis
    using that [of ?s] assms(2) by (auto simp: bulk_pull_serialize_def)
qed

end
