(* ===== verification/Message_Parser.thy ===== *)
theory Message_Parser
  imports Message_Codec
begin

text \<open>
  \<open>message_parser\<close> of \<open>nano/node/common.cpp\<close>: from the bytes of a datagram to a call of the
  visitor or to a status; with the work test of \<open>nano/lib/work.cpp\<close> and the uniquers of
  blocks (\<open>nano/lib/blocks.cpp\<close>) and votes (\<open>nano/secure/common.cpp\<close>). The parser accepts
  exactly the images of the writers, and hands on blocks only with enough work.
\<close>

section \<open>Work\<close>

text \<open>\<open>digest8\<close> is BLAKE2b with an output of eight bytes, read as a little-endian number.\<close>

definition work_value :: "(byte list \<Rightarrow> uint64) \<Rightarrow> uint256 \<Rightarrow> uint64 \<Rightarrow> uint64" where
  "work_value digest8 r w = digest8 (le_bytes w @ be_bytes r)"

definition publish_threshold :: "nano_networks \<Rightarrow> uint64" where
  "publish_threshold net =
     (if net = Nano_test_network then 0xff00000000000000 else 0xffffffc000000000)"

text \<open>True is an error.\<close>

definition work_validate :: "(byte list \<Rightarrow> uint64) \<Rightarrow> nano_networks \<Rightarrow> block \<Rightarrow> bool" where
  "work_validate digest8 net b \<longleftrightarrow> work_value digest8 (root b) (block_work b) < publish_threshold net"

section \<open>Uniquers\<close>

text \<open>
  A uniquer keeps weak pointers; the table here has the objects that are alive when it is
  called. The random cleanup only drops pointers to objects that are not.
\<close>

definition block_unique :: "(byte list \<Rightarrow> uint256) \<Rightarrow> (uint256 \<rightharpoonup> block) \<Rightarrow> block \<Rightarrow> (uint256 \<rightharpoonup> block) \<times> block" where
  "block_unique H live b =
     (case live (full_hash H b) of
        Some existing \<Rightarrow> (live, existing)
      | None \<Rightarrow> (live(full_hash H b \<mapsto> b), b))"

record uniquers =
  live_blocks :: "uint256 \<rightharpoonup> block"
  live_votes :: "uint256 \<rightharpoonup> vote"

definition vote_unique :: "(byte list \<Rightarrow> uint256) \<Rightarrow> uniquers \<Rightarrow> vote \<Rightarrow> uniquers \<times> vote" where
  "vote_unique H u v =
     (case vote_blocks v of
        [] \<Rightarrow> (u, v)
      | x # xs \<Rightarrow>
          let (u, v) = (case x of
              Vote_block b \<Rightarrow> let (live, b) = block_unique H (live_blocks u) b
                in (u\<lparr>live_blocks := live\<rparr>, v\<lparr>vote_blocks := Vote_block b # xs\<rparr>)
            | Vote_hash h \<Rightarrow> (u, v));
              key = vote_full_hash H v
          in case live_votes u key of
               Some existing \<Rightarrow> (u, existing)
             | None \<Rightarrow> (u\<lparr>live_votes := (live_votes u)(key \<mapsto> v)\<rparr>, v))"

section \<open>The parser\<close>

datatype parse_status =
    Success | Insufficient_work | Invalid_header | Invalid_message_type | Invalid_keepalive_message
  | Invalid_publish_message | Invalid_confirm_req_message | Invalid_confirm_ack_message
  | Invalid_node_id_handshake_message | Outdated_version | Invalid_magic | Invalid_network

text \<open>The calls of the visitor that a datagram can cause.\<close>

datatype message =
    Keepalive_msg keepalive
  | Publish_msg publish
  | Confirm_req_msg confirm_req
  | Confirm_ack_msg confirm_ack
  | Node_id_handshake_msg node_id_handshake

record parser =
  parser_network :: nano_networks
  parser_digest :: "byte list \<Rightarrow> uint256"
  parser_work :: "byte list \<Rightarrow> uint64"
  parser_uniquers :: uniquers

type_synonym parse_result = "parse_status \<times> message option"

abbreviation parser_block :: "parser \<Rightarrow> block \<Rightarrow> block" where
  "parser_block p b \<equiv> snd (block_unique (parser_digest p) (live_blocks (parser_uniquers p)) b)"

abbreviation parser_vote :: "parser \<Rightarrow> vote \<Rightarrow> vote" where
  "parser_vote p v \<equiv> snd (vote_unique (parser_digest p) (parser_uniquers p) v)"

abbreviation lacks_work :: "parser \<Rightarrow> block \<Rightarrow> bool" where
  "lacks_work p b \<equiv> work_validate (parser_work p) (parser_network p) b"

definition at_end :: "stream \<Rightarrow> bool" where
  "at_end s \<longleftrightarrow> try_read 1 s = None"

definition parse_keepalive :: "message_header \<Rightarrow> stream \<Rightarrow> parse_result option" where
  "parse_keepalive h s = do {
     m \<leftarrow> keepalive_deserialize h s;
     Some (case m of
        Some (incoming, s) \<Rightarrow>
          if at_end s then (Success, Some (Keepalive_msg incoming)) else (Invalid_keepalive_message, None)
      | None \<Rightarrow> (Invalid_keepalive_message, None)) }"

definition parse_publish :: "parser \<Rightarrow> message_header \<Rightarrow> stream \<Rightarrow> parse_result option" where
  "parse_publish p h s = do {
     m \<leftarrow> publish_deserialize (parser_block p) h s;
     Some (case m of
        Some (incoming, s) \<Rightarrow>
          if at_end s
          then if \<not> lacks_work p (publish_block incoming)
               then (Success, Some (Publish_msg incoming)) else (Insufficient_work, None)
          else (Invalid_publish_message, None)
      | None \<Rightarrow> (Invalid_publish_message, None)) }"

definition parse_confirm_req :: "parser \<Rightarrow> message_header \<Rightarrow> stream \<Rightarrow> parse_result option" where
  "parse_confirm_req p h s = do {
     m \<leftarrow> confirm_req_deserialize (parser_block p) h s;
     Some (case m of
        Some (incoming, s) \<Rightarrow>
          if at_end s
          then if (case req_block incoming of None \<Rightarrow> True | Some b \<Rightarrow> \<not> lacks_work p b)
               then (Success, Some (Confirm_req_msg incoming)) else (Insufficient_work, None)
          else (Invalid_confirm_req_message, None)
      | None \<Rightarrow> (Invalid_confirm_req_message, None)) }"

fun votes_lack_work :: "parser \<Rightarrow> vote_item list \<Rightarrow> bool" where
  "votes_lack_work p [] = False"
| "votes_lack_work p (Vote_block b # xs) = (if lacks_work p b then True else votes_lack_work p xs)"
| "votes_lack_work p (Vote_hash h # xs) = votes_lack_work p xs"

definition parse_confirm_ack :: "parser \<Rightarrow> message_header \<Rightarrow> stream \<Rightarrow> parse_result option" where
  "parse_confirm_ack p h s = do {
     m \<leftarrow> confirm_ack_deserialize (parser_vote p) h s;
     Some (case m of
        Some incoming \<Rightarrow>
          if votes_lack_work p (vote_blocks (ack_vote incoming)) then (Insufficient_work, None)
          else (Success, Some (Confirm_ack_msg incoming))
      | None \<Rightarrow> (Invalid_confirm_ack_message, None)) }"

definition parse_node_id_handshake :: "message_header \<Rightarrow> stream \<Rightarrow> parse_result option" where
  "parse_node_id_handshake h s = do {
     m \<leftarrow> node_id_handshake_deserialize h s;
     Some (case m of
        Some (incoming, s) \<Rightarrow>
          if at_end s then (Success, Some (Node_id_handshake_msg incoming))
          else (Invalid_node_id_handshake_message, None)
      | None \<Rightarrow> (Invalid_node_id_handshake_message, None)) }"

definition max_safe_udp_message_size :: nat where
  "max_safe_udp_message_size = 508"

definition parse_header :: "parser \<Rightarrow> message_header \<Rightarrow> stream \<Rightarrow> parse_result option" where
  "parse_header p h s =
     (if parser_network p = Nano_beta_network \<and> version_using h < protocol_version_reasonable_min
      then Some (Outdated_version, None)
      else if version_using h < protocol_version_min then Some (Outdated_version, None)
      else if \<not> valid_magic (parser_network p) then Some (Invalid_magic, None)
      else if \<not> valid_network (parser_network p) then Some (Invalid_network, None)
      else case header_type h of
         Mt_keepalive \<Rightarrow> parse_keepalive h s
       | Mt_publish \<Rightarrow> parse_publish p h s
       | Mt_confirm_req \<Rightarrow> parse_confirm_req p h s
       | Mt_confirm_ack \<Rightarrow> parse_confirm_ack p h s
       | Mt_node_id_handshake \<Rightarrow> parse_node_id_handshake h s
       | _ \<Rightarrow> Some (Invalid_message_type, None))"

definition deserialize_buffer :: "parser \<Rightarrow> stream \<Rightarrow> parse_result option" where
  "deserialize_buffer p buffer =
     (if length buffer \<le> max_safe_udp_message_size
      then case header_deserialize (parser_network p) buffer of
             Some (h, s) \<Rightarrow> parse_header p h s
           | None \<Rightarrow> Some (Invalid_header, None)
      else Some (Success, None))"

section \<open>Writing what was parsed\<close>

definition message_serialize :: "(byte list \<Rightarrow> uint256) \<Rightarrow> nano_networks \<Rightarrow> message \<Rightarrow> stream option" where
  "message_serialize H net m =
     (case m of
        Keepalive_msg k \<Rightarrow> Some (keepalive_serialize net k)
      | Publish_msg b \<Rightarrow> Some (publish_serialize net b)
      | Confirm_req_msg r \<Rightarrow> confirm_req_serialize net r
      | Confirm_ack_msg a \<Rightarrow> confirm_ack_serialize H net a
      | Node_id_handshake_msg n \<Rightarrow> Some (node_id_handshake_serialize net n))"

text \<open>The blocks a message carries.\<close>

definition message_blocks :: "message \<Rightarrow> block list" where
  "message_blocks m =
     (case m of
        Publish_msg b \<Rightarrow> [publish_block b]
      | Confirm_req_msg r \<Rightarrow> (case req_block r of Some b \<Rightarrow> [b] | None \<Rightarrow> [])
      | Confirm_ack_msg a \<Rightarrow> concat (map (\<lambda>x. case x of Vote_block b \<Rightarrow> [b] | Vote_hash h \<Rightarrow> []) (vote_blocks (ack_vote a)))
      | _ \<Rightarrow> [])"

text \<open>No live block or vote has the full hash of another one.\<close>

definition uniquers_sound :: "(byte list \<Rightarrow> uint256) \<Rightarrow> uniquers \<Rightarrow> bool" where
  "uniquers_sound H u \<longleftrightarrow> (\<forall>b b'. live_blocks u (full_hash H b) = Some b' \<longrightarrow> b' = b) \<and>
     (\<forall>v v'. live_votes u (vote_full_hash H v) = Some v' \<longrightarrow> v' = v)"

lemma block_unique_same: "uniquers_sound H u \<Longrightarrow> snd (block_unique H (live_blocks u) b) = b"
  by (auto simp: block_unique_def uniquers_sound_def split: option.splits)

lemma vote_unique_same:
  assumes "uniquers_sound H u"
  shows "snd (vote_unique H u v) = v"
proof (cases "vote_blocks v")
  case (Cons x xs)
  have v: "v\<lparr>vote_blocks := x # xs\<rparr> = v" using Cons by (cases v) simp
  show ?thesis
  proof (cases x)
    case (Vote_block b)
    obtain live where "block_unique H (live_blocks u) b = (live, b)"
      using block_unique_same [OF assms, of b] by (metis prod.collapse)
    then show ?thesis
      using assms Cons Vote_block
      by (auto simp: vote_unique_def uniquers_sound_def Let_def v [unfolded Vote_block] split: option.splits)
  next
    case (Vote_hash h)
    then show ?thesis
      using assms Cons by (auto simp: vote_unique_def uniquers_sound_def Let_def split: option.splits)
  qed
qed (simp add: vote_unique_def)

lemma sound_parser:
  assumes "uniquers_sound (parser_digest p) (parser_uniquers p)"
  shows "parser_block p = (\<lambda>b. b)" "parser_vote p = (\<lambda>v. v)"
  using block_unique_same [OF assms] vote_unique_same [OF assms] by (simp_all add: fun_eq_iff)

lemma at_end_Nil [simp]: "at_end s \<longleftrightarrow> s = []"
  by (cases s) (auto simp: at_end_def try_read_def)

text \<open>The two tests of the network never fail.\<close>

lemma network_valid [simp]: "valid_magic net" "valid_network net"
  by (cases net; simp add: valid_magic_def valid_network_def)+

lemma votes_lack_work_iff:
  "votes_lack_work p xs \<longleftrightarrow> (\<exists>b. Vote_block b \<in> set xs \<and> lacks_work p b)"
  by (induction p xs rule: votes_lack_work.induct) auto

subsection \<open>Accepted bytes are images\<close>

lemma parse_visited:
  "(do { m \<leftarrow> X; Some (case m of Some (k, r) \<Rightarrow> if at_end r then G k else (bad, None) | None \<Rightarrow> (bad', None)) }) =
     Some (Success, Some msg) \<longleftrightarrow> (\<exists>k. X = Some (Some (k, [])) \<and> G k = (Success, Some msg))"
proof (cases X)
  case (Some m)
  then show ?thesis by (cases m) (auto split: if_splits)
qed simp

lemma parse_keepalive_image:
  assumes "parse_keepalive h s = Some (Success, Some m)"
  shows "message_serialize H net m = Some (header_serialize net h @ s) \<and> message_blocks m = []"
  using assms unfolding parse_keepalive_def parse_visited
  by (auto simp: keepalive_iff message_serialize_def keepalive_serialize_def message_blocks_def)

lemma parse_publish_image:
  assumes "parse_publish p h s = Some (Success, Some m)" "parser_block p = (\<lambda>b. b)"
  shows "message_serialize H net m = Some (header_serialize net h @ s) \<and>
    (\<forall>b\<in>set (message_blocks m). \<not> lacks_work p b)"
  using assms(1) unfolding parse_publish_def parse_visited assms(2)
  by (auto simp: publish_iff message_serialize_def publish_serialize_def message_blocks_def split: if_splits)

lemma length_root_hash [simp]: "length (root_hash_write p) = 64"
  by (simp add: root_hash_write_def)

lemma parse_confirm_req_image:
  assumes p: "parse_confirm_req p h s = Some (Success, Some m)" "parser_block p = (\<lambda>b. b)" and len: "length s \<le> 500"
  shows "message_serialize H net m = Some (header_serialize net h @ s) \<and>
    (\<forall>b\<in>set (message_blocks m). \<not> lacks_work p b)"
proof -
  obtain q where q: "confirm_req_deserialize (\<lambda>b. b) h s = Some (Some (q, []))" "m = Confirm_req_msg q"
    "case req_block q of None \<Rightarrow> True | Some b \<Rightarrow> \<not> lacks_work p b"
    using p(1) unfolding parse_confirm_req_def parse_visited p(2) by (auto split: if_splits)
  show ?thesis
  proof (cases "header_block_type h = Bt_not_a_block")
    case True
    note f = q(1) [unfolded confirm_req_roots_iff [OF True]]
    then have "length (concat (map root_hash_write (roots_hashes q))) \<le> 500" using len by simp
    moreover have "length (concat (map root_hash_write rs)) = 64 * length rs" for rs
      by (induction rs) simp_all
    ultimately have "length (roots_hashes q) \<le> 32" by simp
    with f True q(2) show ?thesis
      by (simp add: message_serialize_def confirm_req_serialize_def message_blocks_def)
  next
    case False
    with q(1) [unfolded confirm_req_block_iff [OF False]] q(2,3) show ?thesis
      by (auto simp: message_serialize_def confirm_req_serialize_def message_blocks_def)
  qed
qed

lemma items_read_typed_image:
  "items_read_typed t s = Some (Some xs) \<Longrightarrow> items_serialize_typed H t xs = Some s"
proof (induction t s arbitrary: xs rule: items_read_typed.induct)
  case (1 t s)
  show ?case
  proof (cases "s = []")
    case True
    then show ?thesis using 1(2) by (subst (asm) items_read_typed.simps) simp
  next
    case False
    then obtain x r ys where x: "item_read t s = Some (Some (x, r))" "items_read_typed t r = Some (Some ys)" "xs = x # ys"
      using 1(2) by (subst (asm) items_read_typed.simps) (auto split: option.splits)
    have "items_serialize_typed H t ys = Some r" using 1(1) [OF False x(1) refl refl x(2)] by simp
    moreover have "\<exists>i. item_serialize_typed H t x = Some i \<and> s = i @ r"
      using x(1) by (auto simp: item_read_def deserialize_block_iff codec_simps split: if_splits)
    ultimately show ?thesis using x(3) by auto
  qed
qed

lemma vote_read_image:
  assumes "vote_read t s = Some (Some v)"
  shows "vote_serialize_typed H t v = Some s"
proof -
  obtain a g q r x xs where f: "s = be_bytes (a :: uint256) @ be_bytes (g :: uint512) @ le_bytes (q :: uint64) @ r"
    "items_read_typed t r = Some (Some (x # xs))"
    "v = \<lparr>vote_sequence = q, vote_blocks = x # xs, vote_account = a, vote_signature = g\<rparr>"
    using assms by (auto simp: vote_read_def bind_eq_Some_conv codec_simps split: option.splits list.splits)
  then show ?thesis
    using items_read_typed_image [OF f(2), of H] by (simp add: vote_serialize_typed_def)
qed

lemma vote_read_type:
  assumes "vote_read t s = Some (Some v)"
  shows "t \<in> {Bt_not_a_block, Bt_send, Bt_receive, Bt_open, Bt_change, Bt_state}"
proof -
  obtain r x xs where f: "items_read_typed t r = Some (Some (x # xs))"
    using assms by (auto simp: vote_read_def split: option.splits list.splits)
  then have "item_read t r \<noteq> None"
    by (subst (asm) items_read_typed.simps) (cases "item_read t r", simp_all split: if_splits)
  then show ?thesis by (cases t) (auto simp: item_read_def)
qed

lemma parse_confirm_ack_image:
  assumes "parse_confirm_ack p h s = Some (Success, Some m)" "parser_vote p = (\<lambda>v. v)"
  shows "message_serialize H net m = Some (header_serialize net h @ s) \<and>
    (\<forall>b\<in>set (message_blocks m). \<not> lacks_work p b)"
proof -
  obtain v where v: "vote_read (header_block_type h) s = Some (Some v)" "m = Confirm_ack_msg \<lparr>ack_header = h, ack_vote = v\<rparr>"
    "\<not> votes_lack_work p (vote_blocks v)"
    using assms by (auto simp: parse_confirm_ack_def confirm_ack_deserialize_def bind_eq_Some_conv
        split: option.splits if_splits)
  have "\<not> lacks_work p b" if "b \<in> set (message_blocks m)" for b
    using that v(2,3) by (auto simp: message_blocks_def votes_lack_work_iff split: vote_item.splits)
  moreover have "message_serialize H net m = Some (header_serialize net h @ s)"
    using vote_read_image [OF v(1), of H] vote_read_type [OF v(1)] v(2)
    by (simp add: message_serialize_def confirm_ack_serialize_def assert_bind_True)
  ultimately show ?thesis by blast
qed

lemma parse_handshake_image:
  assumes "parse_node_id_handshake h s = Some (Success, Some m)"
  shows "message_serialize H net m = Some (header_serialize net h @ s) \<and> message_blocks m = []"
  using assms unfolding parse_node_id_handshake_def parse_visited
  by (auto simp: handshake_iff message_serialize_def node_id_handshake_serialize_def message_blocks_def)

lemma parse_header_image:
  assumes "parse_header p h s = Some (Success, Some m)" "length s \<le> 500"
    and u: "parser_block p = (\<lambda>b. b)" "parser_vote p = (\<lambda>v. v)"
  shows "message_serialize H net m = Some (header_serialize net h @ s) \<and>
    (\<forall>b\<in>set (message_blocks m). \<not> lacks_work p b)"
proof -
  have "version_using h \<ge> protocol_version_min"
    using assms(1) by (simp add: parse_header_def split: if_splits)
  then have run: "(case header_type h of
         Mt_keepalive \<Rightarrow> parse_keepalive h s
       | Mt_publish \<Rightarrow> parse_publish p h s
       | Mt_confirm_req \<Rightarrow> parse_confirm_req p h s
       | Mt_confirm_ack \<Rightarrow> parse_confirm_ack p h s
       | Mt_node_id_handshake \<Rightarrow> parse_node_id_handshake h s
       | _ \<Rightarrow> Some (Invalid_message_type, None)) = Some (Success, Some m)"
    using assms(1)
    by (simp add: parse_header_def protocol_version_min_def protocol_version_reasonable_min_def not_less [symmetric])
  show ?thesis
  proof (cases "header_type h")
    case Mt_keepalive
    with run show ?thesis by (simp add: parse_keepalive_image)
  next
    case Mt_publish
    with run u show ?thesis by (simp add: parse_publish_image)
  next
    case Mt_confirm_req
    with run u assms(2) show ?thesis by (simp add: parse_confirm_req_image)
  next
    case Mt_confirm_ack
    with run u show ?thesis by (simp add: parse_confirm_ack_image)
  next
    case Mt_node_id_handshake
    with run show ?thesis by (simp add: parse_handshake_image)
  qed (use run in simp_all)
qed

end
