(* ===== verification/Message_Delivery.thy ===== *)
theory Message_Delivery
  imports Message_Parser
begin

text \<open>
  The messages that the constructors of \<open>nano/node/common.cpp\<close> make arrive: the parser of a
  node of the same network gives a datagram with such a message to the visitor unchanged.
\<close>

inductive made :: "message \<Rightarrow> bool" where
  made_keepalive: "length ps = 8 \<Longrightarrow> made (Keepalive_msg (keepalive_init\<lparr>peers := ps\<rparr>))"
| made_publish: "made (Publish_msg (publish_make b))"
| made_req_block: "made (Confirm_req_msg (confirm_req_block b))"
| made_req_roots: "rs \<noteq> [] \<Longrightarrow> length rs \<le> 32 \<Longrightarrow> roots_ok rs \<Longrightarrow> made (Confirm_req_msg (confirm_req_roots rs))"
| made_ack_hashes: "vote_blocks v = map Vote_hash hs \<Longrightarrow> confirm_ack_make v = Some a \<Longrightarrow> made (Confirm_ack_msg a)"
| made_ack_block: "vote_blocks v = [Vote_block b] \<Longrightarrow> confirm_ack_make v = Some a \<Longrightarrow> made (Confirm_ack_msg a)"
| made_handshake: "made (Node_id_handshake_msg (node_id_handshake_make q r))"

definition message_header_of :: "message \<Rightarrow> message_header" where
  "message_header_of m = (case m of Keepalive_msg k \<Rightarrow> keepalive_header k | Publish_msg p \<Rightarrow> publish_header p
     | Confirm_req_msg r \<Rightarrow> req_header r | Confirm_ack_msg a \<Rightarrow> ack_header a
     | Node_id_handshake_msg n \<Rightarrow> handshake_header n)"

lemma header_init_using [simp]: "version_using (message_header_init t) = protocol_version"
  by (simp add: message_header_init_def)

lemma header_set_using [simp]:
  "version_using (block_type_set h t) = version_using h" "version_using (extension_set h k v) = version_using h"
  by (simp_all add: block_type_set_def extension_set_def)

lemma header_init_type [simp]: "header_type (message_header_init t) = t"
  by (simp add: message_header_init_def)

lemma extension_init [simp]: "\<not> extension_test (message_header_init t) k"
  by (simp add: extension_test_def message_header_init_def)

text \<open>A body that its own parser accepts is accepted with the header before it.\<close>

lemma buffer_parsed:
  assumes "length (header_serialize (parser_network p) h @ s) \<le> 508" "version_using h = protocol_version" "known_type (header_type h)"
  shows "deserialize_buffer p (header_serialize (parser_network p) h @ s) =
     (case header_type h of
         Mt_keepalive \<Rightarrow> parse_keepalive h s
       | Mt_publish \<Rightarrow> parse_publish p h s
       | Mt_confirm_req \<Rightarrow> parse_confirm_req p h s
       | Mt_confirm_ack \<Rightarrow> parse_confirm_ack p h s
       | Mt_node_id_handshake \<Rightarrow> parse_node_id_handshake h s
       | _ \<Rightarrow> Some (Invalid_message_type, None))"
  using assms
  by (simp add: deserialize_buffer_def max_safe_udp_message_size_def parse_header_def protocol_version_def
      protocol_version_min_def protocol_version_reasonable_min_def)

lemma publish_delivered:
  assumes "parser_block p = (\<lambda>b. b)" "\<not> lacks_work p b"
  shows "parse_publish p (publish_header (publish_make b)) (serialize b) = Some (Success, Some (Publish_msg (publish_make b)))"
  unfolding parse_publish_def parse_visited assms(1)
  by (rule exI [of _ "publish_make b"]) (use assms(2) in \<open>auto simp: publish_iff publish_make_def\<close>)

lemma keepalive_delivered:
  assumes "length ps = 8"
  shows "parse_keepalive (message_header_init Mt_keepalive) (concat (map endpoint_write ps)) =
    Some (Success, Some (Keepalive_msg (keepalive_init\<lparr>peers := ps\<rparr>)))"
  unfolding parse_keepalive_def parse_visited
  by (rule exI [of _ "keepalive_init\<lparr>peers := ps\<rparr>"]) (use assms in \<open>simp add: keepalive_iff keepalive_init_def\<close>)

lemma req_block_delivered:
  assumes "parser_block p = (\<lambda>b. b)" "\<not> lacks_work p b"
  shows "parse_confirm_req p (req_header (confirm_req_block b)) (serialize b) =
    Some (Success, Some (Confirm_req_msg (confirm_req_block b)))"
proof -
  have "type_of b \<noteq> Bt_not_a_block" by (cases b) simp_all
  then show ?thesis
    unfolding parse_confirm_req_def parse_visited assms(1)
    by (intro exI [of _ "confirm_req_block b"]) (use assms(2) in \<open>auto simp: confirm_req_block_iff confirm_req_block_def\<close>)
qed

lemma req_roots_delivered:
  assumes "rs \<noteq> []" "length rs \<le> 32" "roots_ok rs"
  shows "parse_confirm_req p (req_header (confirm_req_roots rs))
      (le_bytes (word_of_nat (length rs) :: byte) @ concat (map root_hash_write rs)) =
    Some (Success, Some (Confirm_req_msg (confirm_req_roots rs)))"
  unfolding parse_confirm_req_def parse_visited
  by (rule exI [of _ "confirm_req_roots rs"]) (use assms in \<open>auto simp: confirm_req_roots_iff confirm_req_roots_def\<close>)

lemma handshake_delivered:
  shows "parse_node_id_handshake (handshake_header (node_id_handshake_make q r))
      ((case q of Some q \<Rightarrow> be_bytes q | None \<Rightarrow> []) @ (case r of Some r \<Rightarrow> be_bytes (fst r) @ be_bytes (snd r) | None \<Rightarrow> [])) =
    Some (Success, Some (Node_id_handshake_msg (node_id_handshake_make q r)))"
  unfolding parse_node_id_handshake_def parse_visited
  by (rule exI [of _ "node_id_handshake_make q r"]) (auto simp: handshake_iff node_id_handshake_make_def Let_def)

lemma ack_delivered:
  assumes "vote_read (header_block_type h) s = Some (Some v)" "parser_vote p = (\<lambda>v. v)" "\<not> votes_lack_work p (vote_blocks v)"
  shows "parse_confirm_ack p h s = Some (Success, Some (Confirm_ack_msg \<lparr>ack_header = h, ack_vote = v\<rparr>))"
  using assms by (simp add: parse_confirm_ack_def confirm_ack_deserialize_def)

lemma ack_round:
  assumes "vote_blocks v = map Vote_hash hs \<or> (\<exists>b. vote_blocks v = [Vote_block b])" "confirm_ack_make v = Some a"
  obtains s where "confirm_ack_serialize H net a = Some (header_serialize net (ack_header a) @ s)"
    "vote_read (header_block_type (ack_header a)) s = Some (Some v)" "ack_vote a = v"
    "header_type (ack_header a) = Mt_confirm_ack" "version_using (ack_header a) = protocol_version"
proof -
  let ?t = "header_block_type (ack_header a)"
  obtain x xs where v: "vote_blocks v = x # xs" using assms(2) by (cases "vote_blocks v") (simp_all add: confirm_ack_make_def)
  have a: "ack_vote a = v" "header_type (ack_header a) = Mt_confirm_ack" "version_using (ack_header a) = protocol_version"
    "?t = (case x of Vote_hash h \<Rightarrow> Bt_not_a_block | Vote_block b \<Rightarrow> type_of b)"
    using assms(2) v by (auto simp: confirm_ack_make_def split: vote_item.splits)
  obtain r where r: "items_serialize_typed H ?t (vote_blocks v) = Some r" "items_read_typed ?t r = Some (Some (vote_blocks v))"
  proof (cases "\<exists>b. vote_blocks v = [Vote_block b]")
    case True
    then have "items_of_type ?t (vote_blocks v)" using a(4) v by (auto simp: items_of_type_def)
    then show ?thesis by (rule items_typed_round) (rule that)
  next
    case False
    then have h: "vote_blocks v = map Vote_hash hs" using assms(1) by blast
    then have t: "?t = Bt_not_a_block" using a(4) v by (cases hs) auto
    obtain r where r: "items_serialize_typed H Bt_not_a_block (vote_blocks v) = Some r"
      "items_read_typed Bt_not_a_block r = Some (Some (map (\<lambda>x. Vote_hash (item_hash H x)) (vote_blocks v)))"
      by (rule items_hashed_round)
    have "map (\<lambda>x. Vote_hash (item_hash H x)) (vote_blocks v) = vote_blocks v" unfolding h by simp
    with r t show ?thesis by (intro that) simp_all
  qed
  have known: "?t \<in> {Bt_not_a_block, Bt_send, Bt_receive, Bt_open, Bt_change, Bt_state}"
  proof (cases x)
    case (Vote_block b)
    then show ?thesis using a(4) by (cases b) simp_all
  qed (simp add: a(4))
  obtain s where "vote_serialize_typed H ?t v = Some s" "vote_read ?t s = Some (Some (v\<lparr>vote_blocks := vote_blocks v\<rparr>))"
    by (rule vote_read_typed [of v H ?t r x xs]) (use r v in simp_all)
  with that known a(1-3) show ?thesis by (simp add: confirm_ack_serialize_def assert_bind_True)
qed

lemma made_delivered:
  assumes "made m" "message_serialize H (parser_network p) m = Some s" "length s \<le> 508"
    and work: "\<forall>b\<in>set (message_blocks m). \<not> lacks_work p b"
    and u: "parser_block p = (\<lambda>b. b)" "parser_vote p = (\<lambda>v. v)"
  shows "deserialize_buffer p s = Some (Success, Some m)"
proof -
  have ack: "deserialize_buffer p s = Some (Success, Some m)"
    if mk: "vote_blocks v = map Vote_hash hs \<or> (\<exists>b. vote_blocks v = [Vote_block b])" "confirm_ack_make v = Some a"
    "m = Confirm_ack_msg a" for v hs a
  proof -
    obtain r where r: "confirm_ack_serialize H (parser_network p) a = Some (header_serialize (parser_network p) (ack_header a) @ r)"
      "vote_read (header_block_type (ack_header a)) r = Some (Some v)" "ack_vote a = v"
      "header_type (ack_header a) = Mt_confirm_ack" "version_using (ack_header a) = protocol_version"
      by (rule ack_round [OF mk(1,2)])
    have "\<not> votes_lack_work p (vote_blocks v)"
      using work mk(3) r(3) by (fastforce simp: votes_lack_work_iff message_blocks_def)
    from ack_delivered [OF r(2) u(2) this] r(1,3-5) assms(2,3) mk(3) show ?thesis
      by (cases a) (auto simp: message_serialize_def buffer_parsed)
  qed
  note simps = message_serialize_def buffer_parsed message_blocks_def
  from assms(1) show ?thesis
  proof cases
    case (made_keepalive ps)
    then show ?thesis using keepalive_delivered [of ps] assms(2,3)
      by (auto simp: simps keepalive_serialize_def keepalive_init_def)
  next
    case (made_publish b)
    then show ?thesis using publish_delivered [OF u(1), of b] work assms(2,3)
      by (auto simp: simps publish_serialize_def publish_make_def)
  next
    case (made_req_block b)
    moreover have "type_of b \<noteq> Bt_not_a_block" by (cases b) simp_all
    ultimately show ?thesis using req_block_delivered [OF u(1), of b] work assms(2,3)
      by (auto simp: simps confirm_req_serialize_def confirm_req_block_def)
  next
    case (made_req_roots rs)
    then show ?thesis using req_roots_delivered [of rs p] assms(2,3)
      by (auto simp: simps confirm_req_serialize_def confirm_req_roots_def)
  next
    case (made_ack_hashes v hs a)
    then show ?thesis using ack by blast
  next
    case (made_ack_block v b a)
    then show ?thesis using ack by blast
  next
    case (made_handshake q r)
    then show ?thesis using handshake_delivered [of q r] assms(2,3)
      by (auto simp: simps node_id_handshake_serialize_def node_id_handshake_make_def Let_def)
  qed
qed

lemma made_serializes:
  assumes "made m"
  obtains s where "message_serialize H net m = Some s"
proof -
  have "\<exists>s. message_serialize H net m = Some s"
    using assms
  proof cases
    case (made_ack_hashes v hs a)
    then show ?thesis by (auto intro: ack_round [of v hs a H net] simp: message_serialize_def)
  next
    case (made_ack_block v b a)
    then show ?thesis by (auto intro: ack_round [of v "[]" a H net] simp: message_serialize_def)
  next
    case (made_req_block b)
    moreover have "type_of b \<noteq> Bt_not_a_block" by (cases b) simp_all
    ultimately show ?thesis by (simp add: message_serialize_def confirm_req_serialize_def confirm_req_block_def)
  qed (simp_all add: message_serialize_def confirm_req_serialize_def confirm_req_roots_def)
  then show ?thesis using that by blast
qed

section \<open>When the parser aborts\<close>

definition block_types :: "block_type set" where
  "block_types = {Bt_send, Bt_receive, Bt_open, Bt_change, Bt_state}"

lemma deserialize_block_abort: "deserialize_block t s = None \<longleftrightarrow> t \<notin> block_types"
  by (cases t) (simp_all add: block_types_def)

lemma items_read_abort: "items_read_typed t s = None \<longleftrightarrow> s \<noteq> [] \<and> t \<notin> insert Bt_not_a_block block_types"
proof (induction t s rule: items_read_typed.induct)
  case (1 t s)
  have known: "item_read t s = None \<longleftrightarrow> t \<notin> insert Bt_not_a_block block_types"
    by (simp add: item_read_def deserialize_block_abort)
  show ?case
  proof (cases "s = [] \<or> item_read t s = None")
    case True
    then show ?thesis using known by (subst items_read_typed.simps) auto
  next
    case False
    then obtain m where m: "item_read t s = Some m" by auto
    have t: "t \<in> insert Bt_not_a_block block_types" using known False by auto
    show ?thesis
    proof (cases m)
      case (Some x)
      then show ?thesis using m t False 1 [of m x] by (subst items_read_typed.simps) (cases x, simp)
    qed (use m t False in \<open>subst items_read_typed.simps, simp\<close>)
  qed
qed

lemma vote_header_total:
  "104 < length s \<longleftrightarrow> (\<exists>(a :: uint256) (g :: uint512) (q :: uint64) r. s = be_bytes a @ be_bytes g @ le_bytes q @ r \<and> r \<noteq> [])"
proof
  assume len: "104 < length s"
  obtain a s1 where a: "s = be_bytes (a :: uint256) @ s1"
    using u256.dec_total [of s] len by (auto simp: codec_simps)
  obtain g s2 where g: "s1 = be_bytes (g :: uint512) @ s2"
    using u512.dec_total [of s1] len a by (auto simp: codec_simps)
  obtain q r where "s2 = le_bytes (q :: uint64) @ r"
    using u64.dec_total [of s2] len a g by (auto simp: codec_simps)
  with a g len show "\<exists>(a :: uint256) (g :: uint512) (q :: uint64) r. s = be_bytes a @ be_bytes g @ le_bytes q @ r \<and> r \<noteq> []"
    by (intro exI [of _ a] exI [of _ g] exI [of _ q] exI [of _ r]) auto
qed auto

lemma vote_read_abort:
  "vote_read t s = None \<longleftrightarrow> 104 < length s \<and> t \<notin> insert Bt_not_a_block block_types"
proof -
  let ?h = "\<lambda>s. do { (a :: uint256, s) \<leftarrow> read_union s; (g :: uint512, s) \<leftarrow> read_union s; (q :: uint64, s) \<leftarrow> read_int s; Some (a, g, q, s) }"
  have h: "?h s = Some (a, g, q, r) \<longleftrightarrow> s = be_bytes a @ be_bytes g @ le_bytes q @ r" for a g q r
    by (auto simp: bind_eq_Some_conv codec_simps)
  have "vote_read t s = None \<longleftrightarrow> (\<exists>a g q r. ?h s = Some (a, g, q, r) \<and> items_read_typed t r = None)"
    unfolding vote_read_def by (cases "?h s") auto
  then show ?thesis
    unfolding h items_read_abort vote_header_total by (cases "t \<in> insert Bt_not_a_block block_types") simp_all
qed

text \<open>The datagrams that stop the node: header \<open>h\<close> and body \<open>r\<close>.\<close>

definition fatal :: "parser \<Rightarrow> message_header \<Rightarrow> stream \<Rightarrow> bool" where
  "fatal p h r \<longleftrightarrow> length r \<le> 500 \<and> protocol_version_min \<le> version_using h \<and>
     (parser_network p = Nano_beta_network \<longrightarrow> protocol_version_reasonable_min \<le> version_using h) \<and>
     (header_type h = Mt_publish \<and> header_block_type h \<notin> block_types \<or>
      header_type h = Mt_confirm_req \<and> header_block_type h \<notin> insert Bt_not_a_block block_types \<or>
      header_type h = Mt_confirm_ack \<and> 104 < length r \<and> header_block_type h \<notin> insert Bt_not_a_block block_types)"

lemma parsers_abort:
  "header_type h = Mt_keepalive \<Longrightarrow> parse_keepalive h r \<noteq> None"
  "header_type h = Mt_publish \<Longrightarrow> parse_publish p h r = None \<longleftrightarrow> header_block_type h \<notin> block_types"
  "header_type h = Mt_confirm_req \<Longrightarrow>
     parse_confirm_req p h r = None \<longleftrightarrow> header_block_type h \<notin> insert Bt_not_a_block block_types"
  "parse_confirm_ack p h r = None \<longleftrightarrow> 104 < length r \<and> header_block_type h \<notin> insert Bt_not_a_block block_types"
  "header_type h = Mt_node_id_handshake \<Longrightarrow> parse_node_id_handshake h r \<noteq> None"
proof -
  show "header_type h = Mt_keepalive \<Longrightarrow> parse_keepalive h r \<noteq> None"
    by (simp add: parse_keepalive_def keepalive_deserialize_def)
  show "header_type h = Mt_publish \<Longrightarrow> parse_publish p h r = None \<longleftrightarrow> header_block_type h \<notin> block_types"
    by (simp add: parse_publish_def publish_deserialize_def bind_eq_None_conv deserialize_block_abort)
  show "header_type h = Mt_confirm_req \<Longrightarrow>
      parse_confirm_req p h r = None \<longleftrightarrow> header_block_type h \<notin> insert Bt_not_a_block block_types"
    by (simp add: parse_confirm_req_def confirm_req_deserialize_def bind_eq_None_conv deserialize_block_abort)
  show "parse_confirm_ack p h r = None \<longleftrightarrow> 104 < length r \<and> header_block_type h \<notin> insert Bt_not_a_block block_types"
    by (simp add: parse_confirm_ack_def confirm_ack_deserialize_def bind_eq_None_conv vote_read_abort)
  show "header_type h = Mt_node_id_handshake \<Longrightarrow> parse_node_id_handshake h r \<noteq> None"
    by (simp add: parse_node_id_handshake_def node_id_handshake_deserialize_def)
qed

lemma parse_header_abort:
  assumes "length r \<le> 500"
  shows "parse_header p h r = None \<longleftrightarrow> fatal p h r"
proof (cases "protocol_version_min \<le> version_using h \<and>
     (parser_network p = Nano_beta_network \<longrightarrow> protocol_version_reasonable_min \<le> version_using h)")
  case True
  then have v: "\<not> (parser_network p = Nano_beta_network \<and> version_using h < protocol_version_reasonable_min)"
    "\<not> version_using h < protocol_version_min" by (simp_all add: not_less)
  show ?thesis
    unfolding parse_header_def if_not_P [OF v(1)] if_not_P [OF v(2)]
    using True assms parsers_abort(1,2,3,5) [of h] parsers_abort(4) [of p h]
    by (cases "header_type h") (simp_all add: fatal_def)
next
  case False
  then show ?thesis by (auto simp: parse_header_def fatal_def not_le)
qed

lemma buffer_abort:
  "deserialize_buffer p s = None \<longleftrightarrow> (\<exists>h r. known_type (header_type h) \<and> s = header_serialize (parser_network p) h @ r \<and> fatal p h r)"
proof (cases "\<exists>h r. header_deserialize (parser_network p) s = Some (h, r)")
  case True
  then obtain h r where hr: "header_deserialize (parser_network p) s = Some (h, r)" by blast
  then have s: "s = header_serialize (parser_network p) h @ r" "known_type (header_type h)" by (simp_all add: header_deserialize_iff)
  have only: "h' = h \<and> r' = r" if "known_type (header_type h')" "s = header_serialize (parser_network p) h' @ r'" for h' r'
    using header_deserialize_iff [of "parser_network p" s h' r'] that hr by simp
  have eq: "(\<exists>h r. known_type (header_type h) \<and> s = header_serialize (parser_network p) h @ r \<and> fatal p h r) \<longleftrightarrow> fatal p h r"
    using s only by metis
  have "length s = 8 + length r" using s(1) by simp
  then show ?thesis
    unfolding eq using hr parse_header_abort [of r p h]
    by (cases "length r \<le> 500") (simp_all add: deserialize_buffer_def max_safe_udp_message_size_def fatal_def)
next
  case False
  then have "header_deserialize (parser_network p) s = None" by (metis not_Some_eq surj_pair)
  then show ?thesis using False by (auto simp: deserialize_buffer_def header_deserialize_iff)
qed

end
