(* ===== verification/Block_Processor.thy ===== *)
theory Block_Processor
  imports Message_Parser Processor Rollback
begin

text \<open>
  The block processor (src/nano/node/blockprocessor.cpp), which feeds the ledger, and the table
  of unchecked blocks (src/nano/node/lmdb.cpp) where it puts blocks whose predecessor or source
  is missing.

  The state is that of \<open>nano::block_processor\<close> together with what it works on: the ledger and
  the unchecked table. \<open>forced\<close> holds the winners of elections. Calls to parts of the node that
  are not modelled (elections, the gap cache, the vote cache, the bootstrap) are recorded in
  \<open>calls\<close>, in order. A pass of the loop of \<open>process_batch\<close> is \<open>process_next\<close>. Only the worker
  thread takes blocks out of the queues; a block that another thread adds while the mutex is
  free during a pass has the effect of one added before or after it, so a pass is one step.
  \<open>None\<close> is a failed assertion.
\<close>

section \<open>The unchecked table\<close>

type_synonym unchecked_table = "pending_key \<rightharpoonup> unchecked_info"

definition unchecked_clear :: "unchecked_table \<Rightarrow> unchecked_table" where
  "unchecked_clear u = Map.empty"

definition unchecked_put :: "unchecked_table \<Rightarrow> pending_key \<Rightarrow> unchecked_info \<Rightarrow> unchecked_table" where
  "unchecked_put u k i = u(k \<mapsto> i)"

definition unchecked_put_block ::
  "env \<Rightarrow> unchecked_table \<Rightarrow> uint256 \<Rightarrow> block \<Rightarrow> unchecked_table" where
  "unchecked_put_block env u h b =
     unchecked_put u (Pending_key h (block_hash (digest env) b))
       \<lparr>unchecked_block = b, unchecked_account = account b, unchecked_modified = now env,
         verified = Sv_unknown\<rparr>"

definition unchecked_get :: "unchecked_table \<Rightarrow> uint256 \<Rightarrow> unchecked_info list" where
  "unchecked_get u h =
     map (\<lambda>k. the (u k))
       (takeWhile (\<lambda>k. key_account k = h) (keys_from u (Pending_key h 0)))"

definition unchecked_exists :: "unchecked_table \<Rightarrow> pending_key \<Rightarrow> bool" where
  "unchecked_exists u k = (iterator_at (keys_from u k) = Some k)"

definition unchecked_del :: "unchecked_table \<Rightarrow> pending_key \<Rightarrow> unchecked_table" where
  "unchecked_del u k = u(k := None)"

definition unchecked_count :: "unchecked_table \<Rightarrow> uint64" where
  "unchecked_count u = table_entries u"

section \<open>The state of the processor\<close>

datatype node_call =
    Process_live uint256 block
  | Gap_cache_add uint256
  | Gap_cache_erase uint256
  | Update_difficulty block
  | Start_fork_election block
  | Votes_cache_remove uint256

record block_processor =
  node_ledger :: ledger
  store_unchecked :: unchecked_table
  state_blocks :: "unchecked_info list"
  blocks :: "unchecked_info list"
  blocks_hashes :: "uint256 set"
  forced :: "block list"
  rolled_back :: "(nat \<times> uint256) list"
  calls :: "node_call list"

text \<open>
  What the functions read of the node: the functions the ledger needs, the digest and network of
  the work test, the flag \<open>fast_bootstrap\<close>, the number of threads of the signature checker, the
  blocks \<open>block_arrival\<close> has seen lately and the reading of the steady clock.
\<close>

record node_env =
  node_ledger_env :: env
  node_work :: "byte list \<Rightarrow> uint64"
  node_network :: nano_networks
  fast_bootstrap :: bool
  signature_checker_threads :: uint32
  arrival_recent :: "uint256 \<Rightarrow> bool"
  steady_clock :: nat

abbreviation hash_of :: "node_env \<Rightarrow> block \<Rightarrow> uint256" where
  "hash_of ne b \<equiv> block_hash (digest (node_ledger_env ne)) b"

abbreviation hash_in :: "node_env \<Rightarrow> unchecked_info \<Rightarrow> uint256" where
  "hash_in ne i \<equiv> hash_of ne (unchecked_block i)"

definition processor_init :: "ledger \<Rightarrow> unchecked_table \<Rightarrow> block_processor" where
  "processor_init l u = \<lparr>node_ledger = l, store_unchecked = u, state_blocks = [], blocks = [],
     blocks_hashes = {}, forced = [], rolled_back = [], calls = []\<rparr>"

definition rolled_back_max :: nat where
  "rolled_back_max = 1024"

section \<open>The queues\<close>

definition full :: "node_env \<Rightarrow> block_processor \<Rightarrow> bool" where
  "full ne st =
     (let full_size = (if fast_bootstrap ne then 1024 * 1024 else 65536)
      in length (blocks st) + length (state_blocks st) > full_size)"

definition add :: "node_env \<Rightarrow> block_processor \<Rightarrow> unchecked_info \<Rightarrow> block_processor option" where
  "add ne st info =
     (if \<not> work_validate (node_work ne) (node_network ne) (unchecked_block info)
      then let hash = hash_in ne info
        in if hash \<notin> blocks_hashes st \<and> hash \<notin> snd ` set (rolled_back st)
        then Some ((if unchecked_info.verified info = Sv_unknown \<and>
                       (type_of (unchecked_block info) = Bt_state \<or>
                        type_of (unchecked_block info) = Bt_open \<or> unchecked_account info \<noteq> 0)
                    then st\<lparr>state_blocks := state_blocks st @ [info]\<rparr>
                    else st\<lparr>blocks := blocks st @ [info]\<rparr>)
                   \<lparr>blocks_hashes := insert hash (blocks_hashes st)\<rparr>)
        else Some st
      else None)"

definition add_block :: "node_env \<Rightarrow> block_processor \<Rightarrow> block \<Rightarrow> uint64 \<Rightarrow> block_processor option" where
  "add_block ne st b origination =
     add ne st \<lparr>unchecked_block = b, unchecked_account = 0, unchecked_modified = origination,
       verified = Sv_unknown\<rparr>"

definition force :: "block_processor \<Rightarrow> block \<Rightarrow> block_processor" where
  "force st b = st\<lparr>forced := forced st @ [b]\<rparr>"

definition have_blocks :: "block_processor \<Rightarrow> bool" where
  "have_blocks st \<longleftrightarrow> blocks st \<noteq> [] \<or> forced st \<noteq> [] \<or> state_blocks st \<noteq> []"

section \<open>Verification of signatures in batches\<close>

text \<open>The account whose signature is looked for, and what becomes of an item once it is known.\<close>

definition has_epoch_link :: "ledger \<Rightarrow> unchecked_info \<Rightarrow> bool" where
  "has_epoch_link l info \<longleftrightarrow>
     link (unchecked_block info) \<noteq> 0 \<and> is_epoch_link l (link (unchecked_block info))"

definition verify_account :: "ledger \<Rightarrow> unchecked_info \<Rightarrow> uint256" where
  "verify_account l info =
     (if has_epoch_link l info then epoch_signer l
      else if unchecked_account info \<noteq> 0 then unchecked_account info
      else account (unchecked_block info))"

definition verify_item :: "node_env \<Rightarrow> ledger \<Rightarrow> unchecked_info \<Rightarrow> unchecked_info option" where
  "verify_item ne l info =
     (let valid = (\<not> validate_message (node_ledger_env ne) (verify_account l info)
                      (hash_in ne info) (block_signature (unchecked_block info)))
      in if has_epoch_link l info
      then Some (info\<lparr>unchecked_info.verified := if valid then Sv_valid_epoch else Sv_unknown\<rparr>)
      else if valid then Some (info\<lparr>unchecked_info.verified := Sv_valid\<rparr>)
      else None)"

definition verify_state_blocks :: "node_env \<Rightarrow> block_processor \<Rightarrow> nat \<Rightarrow> block_processor" where
  "verify_state_blocks ne st max_count =
     (let l = node_ledger st;
          items = filter (\<lambda>i. \<not> block_exists_type (store l) (type_of (unchecked_block i)) (hash_in ne i))
            (take max_count (state_blocks st))
      in st\<lparr>state_blocks := drop max_count (state_blocks st),
            blocks := blocks st @ List.map_filter (verify_item ne l) items\<rparr>)"

section \<open>Processing a block\<close>

fun queue_infos :: "node_env \<Rightarrow> uint256 \<Rightarrow> unchecked_info list \<Rightarrow> block_processor \<Rightarrow> block_processor option" where
  "queue_infos ne h [] st = Some st"
| "queue_infos ne h (info # infos) st = do {
     let st = (if \<not> fast_bootstrap ne
               then st\<lparr>store_unchecked := unchecked_del (store_unchecked st) (Pending_key h (hash_in ne info))\<rparr>
               else st);
     st \<leftarrow> add ne st info;
     queue_infos ne h infos st }"

definition node_event :: "block_processor \<Rightarrow> node_call \<Rightarrow> block_processor" where
  "node_event st c = st\<lparr>calls := calls st @ [c]\<rparr>"

definition queue_unchecked :: "node_env \<Rightarrow> block_processor \<Rightarrow> uint256 \<Rightarrow> block_processor option" where
  "queue_unchecked ne st h = do {
     st \<leftarrow> queue_infos ne h (unchecked_get (store_unchecked st) h) st;
     Some (node_event st (Gap_cache_erase h)) }"

text \<open>\<open>process_fork\<close> starts an election between a block and the one the ledger holds at its root.\<close>

definition process_fork :: "node_env \<Rightarrow> block_processor \<Rightarrow> block \<Rightarrow> block_processor option" where
  "process_fork ne st b =
     (let s = store (node_ledger st)
      in if \<not> block_exists_type s (type_of b) (hash_of ne b) \<and> root_exists s (root b)
      then do {
        ledger_block \<leftarrow> forked_block (digest (node_ledger_env ne)) s b;
        Some (node_event st (Start_fork_election ledger_block)) }
      else Some st)"

definition gap_put ::
  "node_env \<Rightarrow> block_processor \<Rightarrow> unchecked_info \<Rightarrow> process_return \<Rightarrow> uint256 \<Rightarrow> block_processor" where
  "gap_put ne st info r dependency =
     (let info = info\<lparr>unchecked_info.verified := process_return.verified r\<rparr>;
          info = (if unchecked_modified info = 0
                  then info\<lparr>unchecked_modified := now (node_ledger_env ne)\<rparr> else info)
      in node_event
           (st\<lparr>store_unchecked := unchecked_put (store_unchecked st) (Pending_key dependency (hash_in ne info)) info\<rparr>)
           (Gap_cache_add (hash_in ne info)))"

definition process_one ::
  "node_env \<Rightarrow> block_processor \<Rightarrow> unchecked_info \<Rightarrow> (block_processor \<times> process_return) option" where
  "process_one ne st info = do {
     let env = node_ledger_env ne;
     let b = unchecked_block info;
     let hash = hash_of ne b;
     (l, r) \<leftarrow> process env (node_ledger st) b (unchecked_info.verified info);
     let st = st\<lparr>node_ledger := l\<rparr>;
     st \<leftarrow> (case code r of
         Progress \<Rightarrow> do {
           assert (unchecked_account info = 0 \<or> unchecked_account info = result_account r);
           let st = (if unchecked_modified info > now env - 300 \<and> arrival_recent ne hash
                     then node_event st (Process_live hash b) else st);
           queue_unchecked ne st hash }
       | Gap_previous \<Rightarrow> Some (gap_put ne st info r (previous b))
       | Gap_source \<Rightarrow> do {
           source \<leftarrow> block_source (store l) b;
           Some (gap_put ne st info r source) }
       | Old \<Rightarrow> do {
           st \<leftarrow> (if \<not> fast_bootstrap ne then queue_unchecked ne st hash else Some st);
           Some (node_event st (Update_difficulty b)) }
       | Fork \<Rightarrow>
           if unchecked_modified info < now env - 15
           then do {
             st \<leftarrow> process_fork ne st b;
             Some (st\<lparr>node_ledger := l\<lparr>stats := stat_inc (stats l) St_ledger Sd_fork Dir_in\<rparr>\<rparr>) }
           else Some st
       | _ \<Rightarrow> Some st);
     Some (st, r) }"

definition process_one_block ::
  "node_env \<Rightarrow> block_processor \<Rightarrow> block \<Rightarrow> (block_processor \<times> process_return) option" where
  "process_one_block ne st b =
     process_one ne st \<lparr>unchecked_block = b, unchecked_account = account b, unchecked_modified = 0,
       verified = Sv_unknown\<rparr>"

section \<open>The loop\<close>

text \<open>
  \<open>rolled_back\<close> is ordered by time, the oldest entry first, and holds a hash once: an insertion
  of a hash it holds fails.
\<close>

definition rolled_insert :: "nat \<Rightarrow> uint256 \<Rightarrow> uint256 \<Rightarrow> (nat \<times> uint256) list \<Rightarrow> (nat \<times> uint256) list" where
  "rolled_insert t successor_hash hash rs =
     (if successor_hash \<in> snd ` set rs then rs
      else let rs = takeWhile (\<lambda>r. fst r \<le> t) rs @ [(t, successor_hash)] @ dropWhile (\<lambda>r. fst r \<le> t) rs;
               rs = filter (\<lambda>r. snd r \<noteq> hash) rs
        in if length rs > rolled_back_max then tl rs else rs)"

definition roll_back_rival :: "node_env \<Rightarrow> block_processor \<Rightarrow> block \<Rightarrow> block_processor option" where
  "roll_back_rival ne st b = do {
     let l = node_ledger st;
     let hash = hash_of ne b;
     suc \<leftarrow> ledger_successor (store l) (previous b) (root b);
     (case suc of
        Some s \<Rightarrow>
          if hash_of ne s \<noteq> hash
          then do {
            (l, list) \<leftarrow> rollback_list (node_ledger_env ne) l (hash_of ne s) [];
            Some (fold (\<lambda>h st. node_event st (Votes_cache_remove h)) list
              (st\<lparr>node_ledger := l,
                 rolled_back := rolled_insert (steady_clock ne) (hash_of ne s) hash (rolled_back st)\<rparr>)) }
          else Some st
      | None \<Rightarrow> Some st) }"

definition batch_size :: "node_env \<Rightarrow> uint32 \<Rightarrow> nat" where
  "batch_size ne n = unat (n * (signature_checker_threads ne + 1))"

definition next_block :: "node_env \<Rightarrow> block_processor \<Rightarrow> (block_processor \<times> unchecked_info) option" where
  "next_block ne st =
     (case forced st of
        [] \<Rightarrow> (case blocks st of
            [] \<Rightarrow> None
          | info # rest \<Rightarrow>
              Some (st\<lparr>blocks := rest, blocks_hashes := blocks_hashes st - {hash_in ne info}\<rparr>, info))
      | b # rest \<Rightarrow> do {
          st \<leftarrow> roll_back_rival ne (st\<lparr>forced := rest\<rparr>) b;
          Some (st, \<lparr>unchecked_block = b, unchecked_account = 0,
            unchecked_modified = now (node_ledger_env ne), verified = Sv_unknown\<rparr>) })"

definition process_next :: "node_env \<Rightarrow> block_processor \<Rightarrow> block_processor option" where
  "process_next ne st = do {
     (st, info) \<leftarrow> next_block ne st;
     (st, r) \<leftarrow> process_one ne st info;
     Some (if blocks st = [] \<and> state_blocks st \<noteq> []
           then verify_state_blocks ne st (batch_size ne 256) else st) }"

text \<open>
  The worker thread in \<open>process_blocks\<close>: \<open>process_batch\<close> first verifies the queue of state blocks
  batch by batch, then takes blocks one by one until its deadline. The deadlines decide only how
  many steps of each kind a batch has, and the step relation leaves that open. The size of a
  batch is \<open>2048 * (signature_checker_threads + 1)\<close> in 32 bits, or unlimited under
  \<open>fast_bootstrap\<close>. Each pass reads the clocks and the recent arrivals anew (\<open>at_time\<close>).
\<close>

definition at_time :: "node_env \<Rightarrow> uint64 \<Rightarrow> nat \<Rightarrow> (uint256 \<Rightarrow> bool) \<Rightarrow> node_env" where
  "at_time ne t c recent = ne\<lparr>node_ledger_env := (node_ledger_env ne)\<lparr>now := t\<rparr>,
     steady_clock := c, arrival_recent := recent\<rparr>"

definition max_verification_batch :: "node_env \<Rightarrow> nat" where
  "max_verification_batch ne = (if fast_bootstrap ne then 2 ^ 64 - 1 else batch_size ne 2048)"

inductive worker_step :: "node_env \<Rightarrow> block_processor \<Rightarrow> block_processor \<Rightarrow> bool"
  for ne :: node_env where
  worker_verify:
    "state_blocks st \<noteq> [] \<Longrightarrow>
     worker_step ne st (verify_state_blocks ne st (max_verification_batch ne))"
| worker_process:
    "blocks st \<noteq> [] \<or> forced st \<noteq> [] \<Longrightarrow> process_next (at_time ne t c recent) st = Some st' \<Longrightarrow>
     worker_step ne st st'"

inductive_cases worker_stepE: "worker_step ne st st'"

text \<open>The other threads: blocks arrive from the network and winners from the elections.\<close>

inductive processor_step :: "node_env \<Rightarrow> block_processor \<Rightarrow> block_processor \<Rightarrow> bool"
  for ne :: node_env where
  step_worker: "worker_step ne st st' \<Longrightarrow> processor_step ne st st'"
| step_add: "add ne st info = Some st' \<Longrightarrow> processor_step ne st st'"
| step_force: "processor_step ne st (force st b)"

inductive_cases processor_stepE: "processor_step ne st st'"

end
