(* ===== verification/Stored_Blocks.thy ===== *)
theory Stored_Blocks
  imports Block_Processor
begin

text \<open>
  Which blocks the store holds before and after \<open>process\<close> and \<open>rollback\<close>, for any store and any
  block: \<open>process\<close> adds its block exactly when it reports progress, and reports \<open>Old\<close> only of a
  block it holds; \<open>rollback\<close> adds nothing. Unlike the theorems on reachable ledgers these need
  no assumption on hashes or signatures.
\<close>

section \<open>Writes to the tables\<close>

lemma exists_type_tables:
  "block_tables s' = block_tables s \<Longrightarrow> block_exists_type s' = block_exists_type s"
proof (intro ext)
  fix t h
  assume "block_tables s' = block_tables s"
  then show "block_exists_type s' t h = block_exists_type s t h" by (cases t) simp_all
qed

lemma exists_raw_put:
  assumes "block_database t e = Some db"
  shows "block_exists_type (block_raw_put s db h x) =
    (\<lambda>t' h'. block_exists_type s t' h' \<or> t' = t \<and> h' = h)"
proof (intro ext)
  fix t' h'
  show "block_exists_type (block_raw_put s db h x) t' h' \<longleftrightarrow>
      block_exists_type s t' h' \<or> t' = t \<and> h' = h"
    using assms
    by (cases t; cases e; cases t') (auto simp: block_raw_put_def split: if_splits)
qed

lemma raw_get_type:
  "block_raw_get_by_type s h t = Some e \<Longrightarrow> block_exists_type s t h"
  by (cases t) (auto split: option.splits)

lemma raw_get_types:
  "block_raw_get_types s h ts = Some (t, e) \<Longrightarrow> block_exists_type s t h"
  by (induction ts) (auto dest: raw_get_type split: option.splits)

lemma exists_successor_put:
  assumes "block_successor_put s h x = Some s'"
  shows "block_exists_type s' = block_exists_type s"
proof -
  obtain t b sb db where "block_raw_get s h = Some (t, b, sb)"
    and db: "block_database t (block_version s h) = Some db"
    and s': "s' = block_raw_put s db h (b, sb\<lparr>successor := x\<rparr>)"
    using assms by (auto simp: block_successor_put_def bind_eq_Some_conv)
  then have "block_exists_type s t h" unfolding block_raw_get_def by (blast dest: raw_get_types)
  then show ?thesis unfolding s' exists_raw_put [OF db] by auto
qed

lemma exists_predecessor_set:
  "block_predecessor_set H s b = Some s' \<Longrightarrow> block_exists_type s' = block_exists_type s"
  by (cases b) (auto simp: fill_value_def dest: exists_successor_put split: if_splits)

lemma exists_block_put:
  assumes "block_put H s h b sb e = Some s'"
  shows "block_exists_type s' = (\<lambda>t' h'. block_exists_type s t' h' \<or> t' = type_of b \<and> h' = h)"
proof -
  obtain db where db: "block_database (type_of b) e = Some db"
    and s': "block_predecessor_set H (block_raw_put s db h (b, sideband_stored sb)) b = Some s'"
    using assms by (auto simp: block_put_def bind_eq_Some_conv assert_def split: if_splits)
  show ?thesis unfolding exists_predecessor_set [OF s'] exists_raw_put [OF db] ..
qed

lemma exists_table_writes:
  "account_put s a i = Some s' \<Longrightarrow> block_exists_type s' = block_exists_type s"
  "account_del s a = Some s' \<Longrightarrow> block_exists_type s' = block_exists_type s"
  "pending_put s k p = Some s' \<Longrightarrow> block_exists_type s' = block_exists_type s"
  "pending_del s k = Some s' \<Longrightarrow> block_exists_type s' = block_exists_type s"
  "frontier_del s h = Some s' \<Longrightarrow> block_exists_type s' = block_exists_type s"
  "representation_add s x d = Some s' \<Longrightarrow> block_exists_type s' = block_exists_type s"
  by (rule exists_type_tables;
      auto simp: account_put_def account_del_def pending_put_def pending_del_def frontier_del_def
        representation_add_def representation_put_def bind_eq_Some_conv
        split: epoch.splits if_splits)+

lemma exists_frontier_put [simp]: "block_exists_type (frontier_put s h a) = block_exists_type s"
  by (rule exists_type_tables) (simp add: frontier_put_def)

lemma exists_change_latest:
  "change_latest t s a h rep bal count e = Some s' \<Longrightarrow> block_exists_type s' = block_exists_type s"
  by (auto simp: change_latest_def Let_def bind_eq_Some_conv
      dest!: exists_table_writes(1,2) split: if_splits)

lemmas exists_writes = exists_table_writes exists_change_latest exists_block_put

section \<open>Processing\<close>

text \<open>What a run of \<open>process\<close> from \<open>l\<close> says of the blocks held.\<close>

definition stored_step :: "ledger \<Rightarrow> block_type \<Rightarrow> uint256 \<Rightarrow> ledger \<Rightarrow> process_return \<Rightarrow> bool" where
  "stored_step l t h l' r \<longleftrightarrow>
     (if code r = Progress
      then \<not> block_exists_type (store l) t h \<and>
        block_exists_type (store l') =
          (\<lambda>t' h'. block_exists_type (store l) t' h' \<or> t' = t \<and> h' = h)
      else l' = l \<and> (code r = Old \<longrightarrow> block_exists_type (store l) t h))"

lemma stored_change:
  assumes "change_block_process env l r b = Some (l', r')"
  shows "stored_step l Bt_change (block_hash (digest env) (Change_block b)) l' r'"
  using assms
  by (auto simp: change_block_process_def stored_step_def Let_def bind_eq_Some_conv assert_def
      dest!: exists_writes split: if_splits option.splits)

lemma stored_send:
  assumes "send_block_process env l r b = Some (l', r')"
  shows "stored_step l Bt_send (block_hash (digest env) (Send_block b)) l' r'"
  using assms
  by (auto simp: send_block_process_def stored_step_def Let_def bind_eq_Some_conv assert_def
      dest!: exists_writes split: if_splits option.splits)

lemma stored_receive:
  assumes "receive_block_process env l r b = Some (l', r')"
  shows "stored_step l Bt_receive (block_hash (digest env) (Receive_block b)) l' r'"
  using assms
  by (auto simp: receive_block_process_def stored_step_def Let_def bind_eq_Some_conv assert_def
      dest!: exists_writes split: if_splits option.splits)

lemma stored_open:
  assumes "open_block_process env l r b = Some (l', r')"
  shows "stored_step l Bt_open (block_hash (digest env) (Open_block b)) l' r'"
  using assms
  by (auto simp: open_block_process_def stored_step_def Let_def bind_eq_Some_conv assert_def
      dest!: exists_writes split: if_splits option.splits)

lemma stored_state_apply:
  assumes "state_block_apply env s info sends amount e b = Some s'"
  shows "block_exists_type s' = (\<lambda>t h. block_exists_type s t h \<or>
    t = Bt_state \<and> h = block_hash (digest env) (State_block b))"
proof -
  let ?hash = "block_hash (digest env) (State_block b)"
  let ?h = "hashables b"
  obtain sb s1 s2 s3 s4 s5 where s1: "block_put (digest env) s ?hash (State_block b) sb e = Some s1"
    and s2: "(if rep_block info \<noteq> 0
        then representation_add s1 (rep_block info) (0 - info_balance info) else Some s1) = Some s2"
    and s3: "representation_add s2 ?hash (state_balance ?h) = Some s3"
    and s4: "(if sends then pending_put s3 (Pending_key (state_link ?h) ?hash)
          \<lparr>pending_source = state_account ?h, pending_amount = amount, pending_epoch = e\<rparr>
        else if state_link ?h \<noteq> 0
        then pending_del s3 (Pending_key (state_account ?h) (state_link ?h)) else Some s3) = Some s4"
    and s5: "change_latest (now env) s4 (state_account ?h) ?hash ?hash (state_balance ?h)
        (block_count info + 1) e = Some s5"
    and s': "(if frontier_get s5 (head info) \<noteq> 0 then frontier_del s5 (head info) else Some s5) = Some s'"
    using assms unfolding state_block_apply_def Let_def bind_eq_Some_conv by blast
  have "block_exists_type s' = block_exists_type s5"
    using s' by (auto dest: exists_writes split: if_splits)
  also have "\<dots> = block_exists_type s4" by (rule exists_change_latest [OF s5])
  also have "\<dots> = block_exists_type s3" using s4 by (auto dest: exists_writes split: if_splits)
  also have "\<dots> = block_exists_type s2" by (rule exists_table_writes(6) [OF s3])
  also have "\<dots> = block_exists_type s1" using s2 by (auto dest: exists_writes split: if_splits)
  finally show ?thesis by (simp add: exists_block_put [OF s1])
qed

lemma state_checks_not_old:
  "code (fst (state_account_check s info_o r h)) \<noteq> Old"
  "code (fst (state_link_check s r e h)) \<noteq> Old"
  by (simp_all add: state_account_check_def state_link_check_def Let_def split: option.splits)

lemma stored_state_impl:
  assumes "state_block_impl env l r b = Some (l', r')"
  shows "stored_step l Bt_state (block_hash (digest env) (State_block b)) l' r'"
proof -
  let ?h = "hashables b"
  let ?o = "account_get (store l) (state_account ?h)"
  let ?e = "case ?o of Some i \<Rightarrow> info_epoch i | None \<Rightarrow> Epoch_0"
  obtain r1 sends where c: "state_account_check (store l) ?o (r\<lparr>verified := Sv_valid\<rparr>) ?h = (r1, sends)"
    by fastforce
  obtain r2 e2 where d:
    "(if code r1 = Progress \<and> \<not> sends then state_link_check (store l) r1 ?e ?h else (r1, ?e)) = (r2, e2)"
    by fastforce
  have "code r1 \<noteq> Old" using state_checks_not_old(1) c by (metis fst_conv)
  then have "code r2 \<noteq> Old" using state_checks_not_old(2) d by (metis fst_conv)
  then show ?thesis
    using assms unfolding state_block_impl_def Let_def c prod.case d
    by (auto simp: stored_step_def bind_eq_Some_conv assert_def
        dest!: stored_state_apply split: if_splits)
qed

lemma epoch_account_check_not_old: "epoch_account_check s info_o h \<noteq> Some Old"
  by (auto simp: epoch_account_check_def bind_eq_Some_conv split: option.splits if_splits)

lemma stored_epoch_impl:
  assumes "epoch_block_impl env l r b = Some (l', r')"
  shows "stored_step l Bt_state (block_hash (digest env) (State_block b)) l' r'"
  using assms
  by (cases r; cases l) (auto simp: epoch_block_impl_def stored_step_def Let_def bind_eq_Some_conv assert_def
      epoch_account_check_not_old dest!: exists_writes split: if_splits)

lemma epoch_check_not_old:
  "epoch_block_check env l r b = Some (r', e) \<Longrightarrow> code r' \<noteq> Old"
  by (auto simp: epoch_block_check_def Let_def bind_eq_Some_conv split: if_splits)

lemma stored_state:
  assumes "state_block_process env l r b = Some (l', r')"
  shows "stored_step l Bt_state (block_hash (digest env) (State_block b)) l' r'"
proof -
  obtain r1 e where c: "epoch_block_check env l r b = Some (r1, e)"
    using assms by (auto simp: state_block_process_def bind_eq_Some_conv)
  show ?thesis
  proof (cases "code r1 = Progress")
    case True
    then show ?thesis using assms c
      by (auto simp: state_block_process_def dest: stored_state_impl stored_epoch_impl split: if_splits)
  next
    case False
    then show ?thesis using assms c epoch_check_not_old [OF c]
      by (auto simp: state_block_process_def stored_step_def)
  qed
qed

lemma stored_process:
  assumes "process env l b ver = Some (l', r)"
  shows "stored_step l (type_of b) (block_hash (digest env) b) l' r"
  using assms
  by (cases b) (auto simp: process_def Let_def
      dest: stored_change stored_send stored_receive stored_open stored_state)

section \<open>Rolling back\<close>

text \<open>Every block held at the end was held at the start.\<close>

definition fewer :: "rollback_state \<Rightarrow> rollback_state \<Rightarrow> bool" where
  "fewer st st' \<longleftrightarrow>
     (\<forall>t h. block_exists_type (store (fst st')) t h \<longrightarrow> block_exists_type (store (fst st)) t h)"

lemma fewer_refl: "fewer st st"
  by (simp add: fewer_def)

lemma fewer_trans: "fewer st st' \<Longrightarrow> fewer st' st'' \<Longrightarrow> fewer st st''"
  by (auto simp: fewer_def)

lemma fewer_store:
  "fewer (l, xs) (l', ys) \<longleftrightarrow>
     (\<forall>t h. block_exists_type (store l') t h \<longrightarrow> block_exists_type (store l) t h)"
  by (simp add: fewer_def)

lemma exists_block_del_from:
  "block_del_from dbs s h = Some s' \<Longrightarrow>
    \<forall>t x. block_exists_type s' t x \<longrightarrow> block_exists_type s t x"
proof (induction dbs)
  case (Cons db dbs)
  show ?case
  proof (cases "block_tables s db h = None")
    case False
    have "block_exists_type s' t x \<Longrightarrow> block_exists_type s t x" for t x
      using Cons.prems False by (cases t) (auto split: if_splits)
    then show ?thesis by blast
  qed (use Cons in simp)
qed simp

lemmas exists_block_del = exists_block_del_from [of "[Db_state_v1, Db_state_v0, Db_send, Db_receive, Db_open, Db_change]", folded block_del_def]

lemma rollback_stat_store [simp]: "store (rollback_stat l d) = store l"
  by (simp add: rollback_stat_def)

lemmas exists_clear = exists_successor_put [of _ _ 0, folded block_successor_clear_def]

lemma fewer_legacy:
  "rollback_receive_block env st rb = Some st' \<Longrightarrow> fewer st st'"
  "rollback_open_block env st ob = Some st' \<Longrightarrow> fewer st st'"
  "rollback_change_block env st cb = Some st' \<Longrightarrow> fewer st st'"
  by (cases st; cases st'; auto simp: rollback_receive_block_def rollback_open_block_def
      rollback_change_block_def fewer_store Let_def bind_eq_Some_conv
      dest!: exists_writes exists_clear exists_block_del split: prod.splits)+

lemma fewer_send:
  assumes "\<And>k d st st'. wait k d st = Some st' \<Longrightarrow> fewer st st'"
    and "rollback_send_block wait env st b = Some st'"
  shows "fewer st st'"
proof -
  obtain l1 xs1 where w: "wait (Pending_key (send_destination (hashables b))
      (block_hash (digest env) (Send_block b))) (send_destination (hashables b)) st = Some (l1, xs1)"
    using assms(2) by (auto simp: rollback_send_block_def Let_def bind_eq_Some_conv)
  have "fewer (l1, xs1) st'"
    using assms(2) w by (cases st') (auto simp: rollback_send_block_def fewer_store Let_def bind_eq_Some_conv
      dest!: exists_writes exists_clear exists_block_del)
  with assms(1) [OF w] show ?thesis by (rule fewer_trans)
qed

lemma fewer_state_pending:
  assumes "\<And>k d st st'. wait k d st = Some st' \<Longrightarrow> fewer st st'"
    and "rollback_state_pending wait env st balance b = Some st'"
  shows "fewer st st'"
  using assms(2)
  by (cases st; cases st') (auto simp: rollback_state_pending_def Let_def bind_eq_Some_conv fewer_def
      dest!: exists_writes assms(1) split: if_splits)

lemma fewer_state_unlink:
  assumes "rollback_state_unlink env l info rep balance b = Some l'"
  shows "fewer (l, xs) (l', ys)"
  using assms
  by (auto simp: rollback_state_unlink_def Let_def bind_eq_Some_conv fewer_store
      dest!: exists_writes exists_clear exists_block_del split: if_splits option.splits)

lemma fewer_state:
  assumes wait: "\<And>k d st st'. wait k d st = Some st' \<Longrightarrow> fewer st st'"
    and run: "rollback_state_block wait env st b = Some st'"
  shows "fewer st st'"
proof -
  obtain l xs where st: "st = (l, xs)" by fastforce
  obtain s bal l2 xs2 info rep l3 where s: "block_exists_type s = block_exists_type (store l)"
    and p: "rollback_state_pending wait env (l\<lparr>store := s\<rparr>, xs) bal b = Some (l2, xs2)"
    and u: "rollback_state_unlink env l2 info rep bal b = Some l3" and st': "st' = (l3, xs2)"
    using run unfolding st
    by (auto simp: rollback_state_block_def Let_def bind_eq_Some_conv dest!: exists_writes split: if_splits)
  have "fewer st (l\<lparr>store := s\<rparr>, xs)" by (simp add: st fewer_store s)
  moreover have "fewer (l\<lparr>store := s\<rparr>, xs) (l2, xs2)" by (rule fewer_state_pending [OF wait p])
  moreover have "fewer (l2, xs2) (l3, xs2)" by (rule fewer_state_unlink [OF u])
  ultimately show ?thesis unfolding st' by (blast intro: fewer_trans)
qed

lemma fewer_visit:
  assumes "\<And>k d st st'. wait k d st = Some st' \<Longrightarrow> fewer st st'"
    and "rollback_visit wait env st b = Some st'"
  shows "fewer st st'"
proof (cases b)
  case (Send_block x)
  then show ?thesis using assms(2) by (simp add: fewer_send [OF assms(1)])
next
  case (State_block x)
  then show ?thesis using assms(2) by (simp add: fewer_state [OF assms(1)])
qed (use assms(2) in \<open>simp_all add: fewer_legacy\<close>)

lemma fewer_run:
  assumes "rollback_run task env st = Some st'"
  shows "fewer st st'"
proof (rule rollback_run.raw_induct [of "\<lambda>task env st st'. fewer st st'", OF _ assms])
  fix run :: "rollback_task \<Rightarrow> env \<Rightarrow> rollback_state \<Rightarrow> rollback_state option" and task env st st'
  assume run: "\<And>task env st st'. run task env st = Some st' \<Longrightarrow> fewer st st'"
  have wait: "wait_of (\<lambda>t st. run t env st) b k d st = Some st' \<Longrightarrow> fewer st st'" for b k d st st'
    by (cases b) (simp_all add: run)
  have visit: "rollback_visit (wait_of (\<lambda>t st. run t env st) b) env (fst st, xs) b = Some st' \<Longrightarrow> fewer st st'"
    for b st xs st'
    using fewer_visit [where wait = "wait_of (\<lambda>t st. run t env st) b" and st = "(fst st, xs)", OF wait]
    by (simp add: fewer_def)

  assume "(case task of
        Rollback h \<Rightarrow> do {
          assert (block_exists (store (fst st)) h);
          a \<leftarrow> block_account (store (fst st)) h;
          run (Rollback_while h a) env st }
      | Rollback_while h a \<Rightarrow>
          if block_exists (store (fst st)) h
          then do {
            info \<leftarrow> account_get (store (fst st)) a;
            b \<leftarrow> block_get (store (fst st)) (head info);
            st \<leftarrow> rollback_visit (wait_of (\<lambda>t st. run t env st) b) env
              (fst st, snd st @ [head info]) b;
            run (Rollback_while h a) env st }
          else Some st
      | Send_wait k d \<Rightarrow>
          if pending_get (store (fst st)) k = None
          then do {
            st \<leftarrow> run (Rollback (latest (store (fst st)) d)) env st;
            run (Send_wait k d) env st }
          else Some st
      | State_wait k d \<Rightarrow>
          if \<not> pending_exists (store (fst st)) k
          then do {
            st \<leftarrow> run (Rollback (latest (store (fst st)) d)) env st;
            run (State_wait k d) env st }
          else Some st) = Some st'"
  then show "fewer st st'"
    by (auto simp: bind_eq_Some_conv fewer_refl dest!: run visit
        intro: fewer_trans split: rollback_task.splits if_splits)
qed

end
