(* ===== verification/Processor_Queue.thy ===== *)
theory Processor_Queue
  imports Stored_Blocks
begin

text \<open>
  The queues of the block processor: what each operation does to them, the form of the unchecked
  table, and that the worker thread comes to an end unless new blocks arrive.
\<close>

section \<open>The unchecked table\<close>

text \<open>Every entry is filed under the hash of its block, below the hash it waits for.\<close>

definition unchecked_ok :: "node_env \<Rightarrow> unchecked_table \<Rightarrow> bool" where
  "unchecked_ok ne u \<longleftrightarrow> finite (dom u) \<and> (\<forall>k i. u k = Some i \<longrightarrow> key_hash k = hash_in ne i)"

lemma hash_at_time [simp]: "digest (node_ledger_env (at_time ne t c recent)) = digest (node_ledger_env ne)"
  by (simp add: at_time_def)

lemma unchecked_ok_at_time [simp]: "unchecked_ok (at_time ne t c recent) u = unchecked_ok ne u"
  by (simp add: unchecked_ok_def)

lemma unchecked_keys:
  assumes "finite (dom u)"
  shows "takeWhile (\<lambda>k. key_account k = h) (keys_from u (Pending_key h 0)) =
    filter (\<lambda>k. key_account k = h) (keys_from u (Pending_key h 0))"
proof (rule takeWhile_eq_filter)
  let ?P = "\<lambda>k. key_account k = h"
  let ?ks = "keys_from u (Pending_key h 0)"
  have sorted: "sorted ?ks" and ge: "\<And>k. k \<in> set ?ks \<Longrightarrow> Pending_key h 0 \<le> k"
    using assms by (simp_all add: keys_from_def)
  fix k assume k: "k \<in> set (dropWhile ?P ?ks)"
  then obtain j js where d: "dropWhile ?P ?ks = j # js" by (cases "dropWhile ?P ?ks") auto
  have j: "key_account j \<noteq> h" using hd_dropWhile [of ?P ?ks] d by simp
  have "sorted (j # js)" using sorted sorted_dropWhile [of ?ks ?P] d by simp
  then have "j \<le> k" using k d by auto
  moreover have "Pending_key h 0 \<le> j" using ge d by (metis list.set_intros(1) set_dropWhileD)
  ultimately show "\<not> ?P k" using j by (auto simp: less_eq_pending_key_def)
qed

lemma unchecked_get_set:
  assumes "finite (dom u)"
  shows "set (unchecked_get u h) = {i. \<exists>k. key_account k = h \<and> u k = Some i}"
proof -
  have "Pending_key h 0 \<le> k" if "key_account k = h" for k
    using that by (simp add: less_eq_pending_key_def)
  then have "set (filter (\<lambda>k. key_account k = h) (keys_from u (Pending_key h 0))) =
      {k \<in> dom u. key_account k = h}"
    using assms by (auto simp: keys_from_def)
  then show ?thesis unfolding unchecked_get_def unchecked_keys [OF assms] by (force simp: dom_def)
qed

lemma unchecked_get_distinct:
  assumes "unchecked_ok ne u"
  shows "distinct (map (hash_in ne) (unchecked_get u h))"
proof -
  have fin: "finite (dom u)" using assms by (simp add: unchecked_ok_def)
  let ?ks = "filter (\<lambda>k. key_account k = h) (keys_from u (Pending_key h 0))"
  have in_u: "k \<in> dom u \<and> key_account k = h" if "k \<in> set ?ks" for k
    using that fin by (simp add: keys_from_def)
  have hash: "hash_in ne (the (u k)) = key_hash k" if k: "k \<in> set ?ks" for k
  proof -
    obtain i where "u k = Some i" using in_u [OF k] by blast
    then show ?thesis using assms by (simp add: unchecked_ok_def)
  qed
  have maps: "map (hash_in ne) (map (\<lambda>k. the (u k)) ?ks) = map key_hash ?ks"
    unfolding map_map by (rule map_cong [OF refl]) (simp only: o_apply hash)
  have "distinct ?ks" by (simp add: keys_from_def)
  moreover have "inj_on key_hash (set ?ks)"
    by (rule inj_onI, rule pending_key.expand) (metis in_u)
  ultimately have "distinct (map key_hash ?ks)" by (simp add: distinct_map del: set_filter)
  then show ?thesis unfolding unchecked_get_def unchecked_keys [OF fin] maps .
qed

lemma unchecked_get_at:
  assumes "unchecked_ok ne u" "i \<in> set (unchecked_get u h)"
  shows "u (Pending_key h (hash_in ne i)) = Some i"
proof -
  have "finite (dom u)" using assms by (simp add: unchecked_ok_def)
  with assms(2) obtain k where k: "key_account k = h" "u k = Some i" by (auto simp: unchecked_get_set)
  then have "key_hash k = hash_in ne i" using assms(1) by (simp add: unchecked_ok_def)
  then show ?thesis using k by (metis pending_key.collapse)
qed

section \<open>What the operations leave alone\<close>

lemma add_cases:
  assumes "add ne st info = Some st'"
  obtains (ignored) "st' = st" "hash_in ne info \<in> blocks_hashes st \<or> hash_in ne info \<in> snd ` set (rolled_back st)"
  | (verify) "st' = st\<lparr>state_blocks := state_blocks st @ [info],
        blocks_hashes := insert (hash_in ne info) (blocks_hashes st)\<rparr>"
      "hash_in ne info \<notin> blocks_hashes st" "unchecked_info.verified info = Sv_unknown"
  | (queue) "st' = st\<lparr>blocks := blocks st @ [info],
        blocks_hashes := insert (hash_in ne info) (blocks_hashes st)\<rparr>"
      "hash_in ne info \<notin> blocks_hashes st"
      "unchecked_info.verified info = Sv_unknown \<longrightarrow> type_of (unchecked_block info) \<noteq> Bt_state \<and>
        type_of (unchecked_block info) \<noteq> Bt_open \<and> unchecked_account info = 0"
  using assms by (auto simp: add_def Let_def split: if_splits)

text \<open>\<open>same_outside st st'\<close>: the queues, their hashes, the unchecked table and the calls may differ.\<close>

definition same_outside :: "block_processor \<Rightarrow> block_processor \<Rightarrow> bool" where
  "same_outside st st' \<longleftrightarrow> node_ledger st' = node_ledger st \<and> forced st' = forced st \<and>
     rolled_back st' = rolled_back st"

lemma same_outside_refl [simp]: "same_outside st st"
  by (simp add: same_outside_def)

lemma same_outside_trans: "same_outside st st' \<Longrightarrow> same_outside st' st'' \<Longrightarrow> same_outside st st''"
  by (simp add: same_outside_def)

lemma add_same: "add ne st info = Some st' \<Longrightarrow> same_outside st st' \<and> store_unchecked st' = store_unchecked st"
  by (erule add_cases) (simp_all add: same_outside_def)

lemma queue_infos_same: "queue_infos ne h infos st = Some st' \<Longrightarrow> same_outside st st'"
proof (induction infos arbitrary: st)
  case (Cons info infos)
  let ?st = "if \<not> fast_bootstrap ne
    then st\<lparr>store_unchecked := unchecked_del (store_unchecked st) (Pending_key h (hash_in ne info))\<rparr> else st"
  obtain st1 where st1: "add ne ?st info = Some st1" and "queue_infos ne h infos st1 = Some st'"
    using Cons.prems by (auto simp: Let_def bind_eq_Some_conv)
  then have "same_outside st1 st'" using Cons.IH by blast
  moreover have "same_outside st ?st" by (simp add: same_outside_def)
  ultimately show ?case using add_same [OF st1] same_outside_trans by blast
qed simp

lemma node_event_simps [simp]:
  "node_ledger (node_event st c) = node_ledger st" "store_unchecked (node_event st c) = store_unchecked st"
  "state_blocks (node_event st c) = state_blocks st" "blocks (node_event st c) = blocks st"
  "blocks_hashes (node_event st c) = blocks_hashes st" "forced (node_event st c) = forced st"
  "rolled_back (node_event st c) = rolled_back st"
  by (simp_all add: node_event_def)

lemma same_outside_event [simp]: "same_outside st (node_event st' c) = same_outside st st'"
  by (simp add: same_outside_def)

lemma queue_unchecked_same: "queue_unchecked ne st h = Some st' \<Longrightarrow> same_outside st st'"
  by (auto simp: queue_unchecked_def bind_eq_Some_conv dest: queue_infos_same)

section \<open>Known blocks\<close>

text \<open>The blocks in the queues and in the unchecked table, and those of them not yet stored.\<close>

definition known_blocks :: "block_processor \<Rightarrow> block set" where
  "known_blocks st =
     unchecked_block ` (set (blocks st) \<union> set (state_blocks st) \<union> ran (store_unchecked st))"

definition missing_blocks :: "node_env \<Rightarrow> block_processor \<Rightarrow> block set" where
  "missing_blocks ne st =
     {b \<in> known_blocks st. \<not> block_exists_type (store (node_ledger st)) (type_of b) (hash_of ne b)}"

definition total_blocks :: "block_processor \<Rightarrow> nat" where
  "total_blocks st = length (blocks st) + length (state_blocks st) + card (dom (store_unchecked st))"

definition queue_work :: "block_processor \<Rightarrow> nat" where
  "queue_work st = length (blocks st) + 2 * length (state_blocks st)"

lemma known_event [simp]: "known_blocks (node_event st c) = known_blocks st"
  by (simp add: known_blocks_def)

lemma total_event [simp]: "total_blocks (node_event st c) = total_blocks st"
  by (simp add: total_blocks_def)

lemma finite_known: "unchecked_ok ne (store_unchecked st) \<Longrightarrow> finite (known_blocks st)"
  by (simp add: known_blocks_def unchecked_ok_def finite_ran)

lemma ran_delete: "ran (u(k := None)) \<subseteq> ran u"
  by (auto simp: ran_def)

lemma unchecked_ok_delete: "unchecked_ok ne u \<Longrightarrow> unchecked_ok ne (u(k := None))"
  by (auto simp: unchecked_ok_def)

lemma add_known:
  "add ne st info = Some st' \<Longrightarrow> known_blocks st' \<subseteq> insert (unchecked_block info) (known_blocks st) \<and>
    total_blocks st' \<le> Suc (total_blocks st)"
  by (erule add_cases) (auto simp: known_blocks_def total_blocks_def)

lemma queue_infos_known:
  assumes "queue_infos ne h infos st = Some st'" "unchecked_ok ne (store_unchecked st)"
  shows "unchecked_ok ne (store_unchecked st') \<and>
    known_blocks st' \<subseteq> known_blocks st \<union> unchecked_block ` set infos"
  using assms
proof (induction infos arbitrary: st)
  case (Cons info infos)
  let ?st = "if \<not> fast_bootstrap ne
    then st\<lparr>store_unchecked := unchecked_del (store_unchecked st) (Pending_key h (hash_in ne info))\<rparr> else st"
  obtain st1 where st1: "add ne ?st info = Some st1" and run: "queue_infos ne h infos st1 = Some st'"
    using Cons.prems by (auto simp: Let_def bind_eq_Some_conv)
  have "unchecked_ok ne (store_unchecked st1)"
    using add_same [OF st1] Cons.prems(2) by (simp add: unchecked_del_def unchecked_ok_delete)
  moreover have "known_blocks ?st \<subseteq> known_blocks st"
    using ran_delete [of "store_unchecked st"] by (auto simp: known_blocks_def unchecked_del_def)
  ultimately show ?case using Cons.IH [OF run] add_known [OF st1] by auto
qed simp

lemma queue_infos_total:
  assumes "queue_infos ne h infos st = Some st'" "unchecked_ok ne (store_unchecked st)" "\<not> fast_bootstrap ne"
    and "distinct (map (hash_in ne) infos)"
    and "\<forall>i\<in>set infos. store_unchecked st (Pending_key h (hash_in ne i)) = Some i"
  shows "total_blocks st' \<le> total_blocks st"
  using assms
proof (induction infos arbitrary: st)
  case (Cons info infos)
  let ?k = "Pending_key h (hash_in ne info)"
  let ?st = "st\<lparr>store_unchecked := (store_unchecked st)(?k := None)\<rparr>"
  obtain st1 where st1: "add ne ?st info = Some st1" and run: "queue_infos ne h infos st1 = Some st'"
    using Cons.prems by (auto simp: unchecked_del_def bind_eq_Some_conv)
  have u: "store_unchecked st1 = (store_unchecked st)(?k := None)" using add_same [OF st1] by simp
  have "finite (dom (store_unchecked st))" "?k \<in> dom (store_unchecked st)"
    using Cons.prems by (auto simp: unchecked_ok_def)
  then have "Suc (card (dom (store_unchecked st) - {?k})) = card (dom (store_unchecked st))"
    by (rule card_Suc_Diff1)
  then have "Suc (total_blocks ?st) = total_blocks st" by (simp add: total_blocks_def)
  moreover have "total_blocks st' \<le> total_blocks st1"
  proof (rule Cons.IH [OF run])
    show "unchecked_ok ne (store_unchecked st1)"
      unfolding u using Cons.prems(2) by (rule unchecked_ok_delete)
    show "\<forall>i\<in>set infos. store_unchecked st1 (Pending_key h (hash_in ne i)) = Some i"
    proof
      fix i assume i: "i \<in> set infos"
      have "hash_in ne info \<notin> hash_in ne ` set infos" using Cons.prems(4) by simp
      then have "hash_in ne i \<noteq> hash_in ne info" using i by (metis (no_types) image_eqI)
      then show "store_unchecked st1 (Pending_key h (hash_in ne i)) = Some i"
        using Cons.prems(5) i by (simp add: u)
    qed
  qed (use Cons.prems in simp_all)
  ultimately show ?case using add_known [OF st1] by simp
qed simp

lemma queue_unchecked_known:
  assumes "queue_unchecked ne st h = Some st'" and ok: "unchecked_ok ne (store_unchecked st)"
  shows "unchecked_ok ne (store_unchecked st')" "known_blocks st' \<subseteq> known_blocks st"
    "\<not> fast_bootstrap ne \<Longrightarrow> total_blocks st' \<le> total_blocks st"
proof -
  let ?u = "store_unchecked st"
  let ?is = "unchecked_get ?u h"
  obtain st1 where run: "queue_infos ne h ?is st = Some st1" and st': "st' = node_event st1 (Gap_cache_erase h)"
    using assms(1) by (auto simp: queue_unchecked_def bind_eq_Some_conv)
  have "set ?is \<subseteq> ran ?u" using unchecked_get_at [OF ok] by (auto simp: ran_def)
  then have "unchecked_block ` set ?is \<subseteq> known_blocks st" by (auto simp: known_blocks_def)
  then show "unchecked_ok ne (store_unchecked st')" "known_blocks st' \<subseteq> known_blocks st"
    using queue_infos_known [OF run ok] unfolding st' by (simp_all add: subset_Un_eq Un_absorb2)
  show "total_blocks st' \<le> total_blocks st" if "\<not> fast_bootstrap ne"
    using queue_infos_total [OF run ok that unchecked_get_distinct [OF ok]] unchecked_get_at [OF ok]
    unfolding st' by simp
qed

section \<open>Verification\<close>

lemma verify_item_block: "verify_item ne l i = Some i' \<Longrightarrow> unchecked_block i' = unchecked_block i"
  by (auto simp: verify_item_def Let_def split: if_splits)

lemma map_filter_blocks:
  "unchecked_block ` set (List.map_filter (verify_item ne l) xs) \<subseteq> unchecked_block ` set xs"
  using verify_item_block [of ne l] by (force simp: List.map_filter_def)

lemma map_filter_length: "length (List.map_filter f xs) \<le> length xs"
  by (simp add: List.map_filter_def)

lemma verify_same: "same_outside st (verify_state_blocks ne st n) \<and>
    store_unchecked (verify_state_blocks ne st n) = store_unchecked st \<and>
    blocks_hashes (verify_state_blocks ne st n) = blocks_hashes st"
  by (simp add: verify_state_blocks_def same_outside_def Let_def)

lemma verify_known: "known_blocks (verify_state_blocks ne st n) \<subseteq> known_blocks st"
proof -
  let ?l = "node_ledger st"
  let ?items = "filter (\<lambda>i. \<not> block_exists_type (store ?l) (type_of (unchecked_block i)) (hash_in ne i))
    (take n (state_blocks st))"
  have "unchecked_block ` set (List.map_filter (verify_item ne ?l) ?items) \<subseteq> unchecked_block ` set (state_blocks st)"
    using map_filter_blocks [of ne ?l ?items] by (auto dest: in_set_takeD)
  then show ?thesis
    by (auto simp: known_blocks_def verify_state_blocks_def Let_def dest: in_set_dropD)
qed

lemma verify_counts:
  "total_blocks (verify_state_blocks ne st n) \<le> total_blocks st"
  "queue_work (verify_state_blocks ne st n) \<le> queue_work st - min n (length (state_blocks st))"
proof -
  let ?l = "node_ledger st"
  let ?items = "filter (\<lambda>i. \<not> block_exists_type (store ?l) (type_of (unchecked_block i)) (hash_in ne i))
    (take n (state_blocks st))"
  have "length (List.map_filter (verify_item ne ?l) ?items) \<le> min n (length (state_blocks st))"
    using map_filter_length [of "verify_item ne ?l" ?items] length_filter_le [of _ "take n (state_blocks st)"]
    by (metis (no_types, lifting) length_take min.commute order_trans)
  then show "total_blocks (verify_state_blocks ne st n) \<le> total_blocks st"
    "queue_work (verify_state_blocks ne st n) \<le> queue_work st - min n (length (state_blocks st))"
    by (simp_all add: total_blocks_def queue_work_def verify_state_blocks_def Let_def min_def split: if_splits)
qed

section \<open>Processing one block\<close>

lemma process_fork_calls: "process_fork ne st b = Some st' \<Longrightarrow> \<exists>x. st' = st\<lparr>calls := x\<rparr>"
  by (cases st) (auto simp: process_fork_def node_event_def Let_def bind_eq_Some_conv split: if_splits)

text \<open>The five ways \<open>process_one\<close> can go, by the code of the ledger.\<close>

lemma process_one_cases:
  assumes "process_one ne st info = Some (st', r)"
  obtains (progress) l st1 where
      "process (node_ledger_env ne) (node_ledger st) (unchecked_block info) (unchecked_info.verified info) = Some (l, r)"
      "code r = Progress" "unchecked_account info = 0 \<or> unchecked_account info = result_account r"
      "st1 = st\<lparr>node_ledger := l\<rparr> \<or> st1 = node_event (st\<lparr>node_ledger := l\<rparr>) (Process_live (hash_in ne info) (unchecked_block info))"
      "queue_unchecked ne st1 (hash_in ne info) = Some st'"
  | (gap) l d where
      "process (node_ledger_env ne) (node_ledger st) (unchecked_block info) (unchecked_info.verified info) = Some (l, r)"
      "code r = Gap_previous \<and> d = previous (unchecked_block info) \<or>
       code r = Gap_source \<and> block_source (store l) (unchecked_block info) = Some d"
      "st' = gap_put ne (st\<lparr>node_ledger := l\<rparr>) info r d"
  | (old) l st1 where
      "process (node_ledger_env ne) (node_ledger st) (unchecked_block info) (unchecked_info.verified info) = Some (l, r)"
      "code r = Old" "st' = node_event st1 (Update_difficulty (unchecked_block info))"
      "if fast_bootstrap ne then st1 = st\<lparr>node_ledger := l\<rparr>
       else queue_unchecked ne (st\<lparr>node_ledger := l\<rparr>) (hash_in ne info) = Some st1"
  | (fork) l x where
      "process (node_ledger_env ne) (node_ledger st) (unchecked_block info) (unchecked_info.verified info) = Some (l, r)"
      "code r = Fork"
      "st' = st\<lparr>calls := x, node_ledger := l\<lparr>stats := stat_inc (stats l) St_ledger Sd_fork Dir_in\<rparr>\<rparr>"
  | (other) l where
      "process (node_ledger_env ne) (node_ledger st) (unchecked_block info) (unchecked_info.verified info) = Some (l, r)"
      "code r \<notin> {Progress, Gap_previous, Gap_source, Old}" "st' = st\<lparr>node_ledger := l\<rparr>"
proof -
  let ?b = "unchecked_block info"
  obtain l st1 where p: "process (node_ledger_env ne) (node_ledger st) ?b (unchecked_info.verified info) = Some (l, r)"
    and k: "process_one ne st info = Some (st', r)"
    using assms by (auto simp: process_one_def bind_eq_Some_conv Let_def split: prod.splits)
  show thesis
  proof (cases "code r")
    case Progress
    show thesis
      by (rule progress [OF p Progress]) (use k p Progress in \<open>auto simp: process_one_def Let_def bind_eq_Some_conv assert_def split: if_splits\<close>)
  next
    case Fork
    have "thesis" if "unchecked_modified info < now (node_ledger_env ne) - 15"
    proof -
      have "\<exists>x. st' = st\<lparr>calls := x, node_ledger := l\<lparr>stats := stat_inc (stats l) St_ledger Sd_fork Dir_in\<rparr>\<rparr>"
        using k p Fork that
        by (auto simp: process_one_def Let_def bind_eq_Some_conv dest!: process_fork_calls)
      then show thesis using fork [OF p Fork] by blast
    qed
    moreover have thesis if "\<not> unchecked_modified info < now (node_ledger_env ne) - 15"
      by (rule other [OF p]) (use k p Fork that in \<open>auto simp: process_one_def Let_def\<close>)
    ultimately show thesis by blast
  next
    case Old
    show thesis
      using k p Old
      by (cases "fast_bootstrap ne") (auto simp: process_one_def Let_def bind_eq_Some_conv intro!: old [OF p Old])
  next
    case Gap_previous
    show thesis by (rule gap [OF p]) (use k p Gap_previous in \<open>auto simp: process_one_def Let_def\<close>)
  next
    case Gap_source
    then obtain d where "block_source (store l) ?b = Some d" "st' = gap_put ne (st\<lparr>node_ledger := l\<rparr>) info r d"
      using k p by (auto simp: process_one_def Let_def bind_eq_Some_conv)
    then show thesis using gap [OF p] Gap_source by blast
  qed (rule other [OF p]; use k p in \<open>simp add: process_one_def Let_def\<close>)+
qed

lemma gap_put_fields:
  "forced (gap_put ne st info r d) = forced st" "rolled_back (gap_put ne st info r d) = rolled_back st"
  "node_ledger (gap_put ne st info r d) = node_ledger st" "blocks (gap_put ne st info r d) = blocks st"
  "state_blocks (gap_put ne st info r d) = state_blocks st"
  "blocks_hashes (gap_put ne st info r d) = blocks_hashes st"
  by (simp_all add: gap_put_def Let_def)

lemma gap_put_entry:
  obtains i where "store_unchecked (gap_put ne st info r d) =
      (store_unchecked st)(Pending_key d (hash_in ne info) \<mapsto> i)"
    "unchecked_block i = unchecked_block info" "unchecked_account i = unchecked_account info"
    "unchecked_info.verified i = process_return.verified r"
  by (rule that [of "if unchecked_modified info = 0
        then info\<lparr>unchecked_info.verified := process_return.verified r,
          unchecked_modified := now (node_ledger_env ne)\<rparr>
        else info\<lparr>unchecked_info.verified := process_return.verified r\<rparr>"])
    (simp_all add: gap_put_def unchecked_put_def Let_def)

section \<open>The worker comes to an end\<close>

lemma unchecked_ok_put:
  assumes "unchecked_ok ne u" "unchecked_block i = unchecked_block info"
  shows "unchecked_ok ne (u(Pending_key d (hash_in ne info) \<mapsto> i))"
  using assms by (auto simp: unchecked_ok_def)

lemma ran_put: "ran (u(k \<mapsto> i)) \<subseteq> insert i (ran u)"
  by (auto simp: ran_def)

text \<open>What processing the block of \<open>info\<close>, which is out of the queue, does to the counts.\<close>

lemma gap_put_counts:
  assumes "unchecked_ok ne (store_unchecked st)"
  shows "unchecked_ok ne (store_unchecked (gap_put ne st info r d))"
    "known_blocks (gap_put ne st info r d) \<subseteq> insert (unchecked_block info) (known_blocks st)"
    "total_blocks (gap_put ne st info r d) \<le> Suc (total_blocks st)"
    "queue_work (gap_put ne st info r d) = queue_work st"
proof -
  obtain i where u: "store_unchecked (gap_put ne st info r d) =
      (store_unchecked st)(Pending_key d (hash_in ne info) \<mapsto> i)"
    and i: "unchecked_block i = unchecked_block info"
    by (rule gap_put_entry) blast
  show "unchecked_ok ne (store_unchecked (gap_put ne st info r d))"
    unfolding u by (rule unchecked_ok_put [OF assms i])
  show "known_blocks (gap_put ne st info r d) \<subseteq> insert (unchecked_block info) (known_blocks st)"
    using ran_put [of "store_unchecked st"] by (auto simp: known_blocks_def gap_put_fields u i [symmetric])
  show "total_blocks (gap_put ne st info r d) \<le> Suc (total_blocks st)"
    by (simp add: total_blocks_def gap_put_fields u card_insert_le_m1 card_insert_if)
  show "queue_work (gap_put ne st info r d) = queue_work st"
    by (simp add: queue_work_def gap_put_fields)
qed

lemma known_ledger [simp]: "known_blocks (st\<lparr>node_ledger := l\<rparr>) = known_blocks st"
  by (simp add: known_blocks_def)

lemma process_one_keeps:
  assumes run: "process_one ne st info = Some (st', r)" and ok: "unchecked_ok ne (store_unchecked st)"
  shows "forced st' = forced st" "rolled_back st' = rolled_back st" "unchecked_ok ne (store_unchecked st')"
    "known_blocks st' \<subseteq> insert (unchecked_block info) (known_blocks st)"
proof -
  have "forced st' = forced st \<and> rolled_back st' = rolled_back st \<and> unchecked_ok ne (store_unchecked st') \<and>
      known_blocks st' \<subseteq> insert (unchecked_block info) (known_blocks st)"
    using run
  proof (cases rule: process_one_cases)
    case (progress l st1)
    then have "forced st1 = forced st" "rolled_back st1 = rolled_back st" "known_blocks st1 = known_blocks st"
      "unchecked_ok ne (store_unchecked st1)" using ok by auto
    then show ?thesis
      using queue_unchecked_same [OF progress(5)] queue_unchecked_known [OF progress(5)]
      by (auto simp: same_outside_def)
  next
    case (gap l d)
    then show ?thesis using gap_put_counts(1,2) [of ne "st\<lparr>node_ledger := l\<rparr>" info r d] ok
      by (simp add: gap_put_fields)
  next
    case (old l st1)
    then show ?thesis
      using ok queue_unchecked_same [of ne "st\<lparr>node_ledger := l\<rparr>"] queue_unchecked_known(1,2) [of ne "st\<lparr>node_ledger := l\<rparr>"]
      by (cases "fast_bootstrap ne") (fastforce simp: same_outside_def)+
  qed (use ok in \<open>auto simp: known_blocks_def\<close>)
  then show "forced st' = forced st" "rolled_back st' = rolled_back st" "unchecked_ok ne (store_unchecked st')"
    "known_blocks st' \<subseteq> insert (unchecked_block info) (known_blocks st)" by blast+
qed

lemma process_one_stored:
  assumes "process_one ne st info = Some (st', r)"
  shows "\<exists>l. stored_step (node_ledger st) (type_of (unchecked_block info)) (hash_in ne info) l r \<and>
    store (node_ledger st') = store l"
  using assms
proof (cases rule: process_one_cases)
  case (progress l st1)
  then show ?thesis using stored_process [OF progress(1)] queue_unchecked_same [OF progress(5)]
    by (auto simp: same_outside_def)
next
  case (old l st1)
  then show ?thesis using stored_process [OF old(1)] queue_unchecked_same [of ne "st\<lparr>node_ledger := l\<rparr>"]
    by (cases "fast_bootstrap ne") (fastforce simp: same_outside_def)+
qed (use stored_process in \<open>fastforce simp: gap_put_fields\<close>)+

lemma process_one_counts:
  assumes run: "process_one ne st info = Some (st', r)" and ok: "unchecked_ok ne (store_unchecked st)"
    and code: "code r \<noteq> Progress"
  shows "total_blocks st' \<le> total_blocks st \<or> total_blocks st' \<le> Suc (total_blocks st) \<and> queue_work st' \<le> queue_work st"
  using run
proof (cases rule: process_one_cases)
  case (gap l d)
  then show ?thesis using gap_put_counts(3,4) [of ne "st\<lparr>node_ledger := l\<rparr>" info r d] ok
    by (simp add: total_blocks_def queue_work_def)
next
  case (old l st1)
  then show ?thesis
    using ok queue_unchecked_known(3) [of ne "st\<lparr>node_ledger := l\<rparr>"]
    by (cases "fast_bootstrap ne") (fastforce simp: total_blocks_def)+
qed (use code in \<open>auto simp: total_blocks_def\<close>)

text \<open>
  The measure: winners of elections first, since replacing a block can make stored blocks
  missing; then the known blocks that are not stored, the number of blocks held, and the work
  left in the queues.
\<close>

definition worker_measure :: "node_env \<Rightarrow> (block_processor \<times> block_processor) set" where
  "worker_measure ne = measures [\<lambda>st. length (forced st), \<lambda>st. card (missing_blocks ne st),
     total_blocks, queue_work]"

lemma finite_missing: "unchecked_ok ne (store_unchecked st) \<Longrightarrow> finite (missing_blocks ne st)"
  using finite_known by (simp add: missing_blocks_def)

lemma missing_mono:
  assumes "known_blocks st' \<subseteq> known_blocks st"
    and "block_exists_type (store (node_ledger st')) = block_exists_type (store (node_ledger st))"
    and "unchecked_ok ne (store_unchecked st)"
  shows "card (missing_blocks ne st') \<le> card (missing_blocks ne st)"
  using assms finite_missing by (intro card_mono) (auto simp: missing_blocks_def)

text \<open>The last step of a pass, which verifies signatures if the queue has run empty.\<close>

lemma verify_after:
  assumes ok: "unchecked_ok ne (store_unchecked st)"
    and st': "st' = (if blocks st = [] \<and> state_blocks st \<noteq> [] then verify_state_blocks ne1 st n else st)"
  shows "forced st' = forced st" "unchecked_ok ne (store_unchecked st')" "node_ledger st' = node_ledger st"
    "known_blocks st' \<subseteq> known_blocks st" "card (missing_blocks ne st') \<le> card (missing_blocks ne st)"
    "total_blocks st' \<le> total_blocks st" "queue_work st' \<le> queue_work st"
proof -
  show known: "known_blocks st' \<subseteq> known_blocks st" unfolding st' using verify_known by simp
  show "forced st' = forced st" "unchecked_ok ne (store_unchecked st')" and l: "node_ledger st' = node_ledger st"
    unfolding st' using ok verify_same by (auto simp: same_outside_def)
  show "card (missing_blocks ne st') \<le> card (missing_blocks ne st)"
    using known ok l by (intro missing_mono) simp_all
  show "total_blocks st' \<le> total_blocks st" unfolding st' using verify_counts(1) by simp
  show "queue_work st' \<le> queue_work st"
    unfolding st' using verify_counts(2) [of ne1 st n] diff_le_self order_trans by auto
qed

lemma process_next_queue:
  assumes "process_next ne1 st = Some st'" "forced st = []"
  obtains info rest st0 st1 r where "blocks st = info # rest"
    "st0 = st\<lparr>blocks := rest, blocks_hashes := blocks_hashes st - {hash_in ne1 info}\<rparr>"
    "process_one ne1 st0 info = Some (st1, r)"
    "st' = (if blocks st1 = [] \<and> state_blocks st1 \<noteq> [] then verify_state_blocks ne1 st1 (batch_size ne1 256) else st1)"
  using assms by (auto simp: process_next_def next_block_def bind_eq_Some_conv split: list.splits prod.splits)

lemma process_queue_decreases:
  assumes run: "process_next (at_time ne t c recent) st = Some st'" and "forced st = []"
    and ok: "unchecked_ok ne (store_unchecked st)"
  shows "(st', st) \<in> worker_measure ne \<and> unchecked_ok ne (store_unchecked st')"
proof -
  let ?ne = "at_time ne t c recent"
  obtain info rest st0 st1 r where blocks: "blocks st = info # rest"
    and st0: "st0 = st\<lparr>blocks := rest, blocks_hashes := blocks_hashes st - {hash_in ?ne info}\<rparr>"
    and one: "process_one ?ne st0 info = Some (st1, r)"
    and st': "st' = (if blocks st1 = [] \<and> state_blocks st1 \<noteq> [] then verify_state_blocks ?ne st1 (batch_size ?ne 256) else st1)"
    by (rule process_next_queue [OF run assms(2)])
  have ok0: "unchecked_ok ?ne (store_unchecked st0)" using ok by (simp add: st0)
  note keeps = process_one_keeps [OF one ok0]
  have ok1: "unchecked_ok ne (store_unchecked st1)" using keeps(3) by simp
  note after = verify_after [OF ok1 st']
  have known0: "insert (unchecked_block info) (known_blocks st0) = known_blocks st"
    by (auto simp: known_blocks_def st0 blocks)
  have counts0: "Suc (total_blocks st0) = total_blocks st" "Suc (queue_work st0) = queue_work st"
    by (simp_all add: total_blocks_def queue_work_def st0 blocks)
  obtain l where step: "stored_step (node_ledger st) (type_of (unchecked_block info)) (hash_in ne info) l r"
    and l: "store (node_ledger st1) = store l"
    using process_one_stored [OF one] by (auto simp: st0)
  have known1: "known_blocks st1 \<subseteq> known_blocks st" using keeps(4) known0 by simp
  have forced1: "forced st1 = forced st" using keeps(1) by (simp add: st0)
  have "(st', st) \<in> worker_measure ne"
  proof (cases "code r = Progress")
    case True
    have "missing_blocks ne st1 \<subset> missing_blocks ne st"
    proof
      show "missing_blocks ne st1 \<subseteq> missing_blocks ne st"
        using known1 step True l by (auto simp: missing_blocks_def stored_step_def)
      show "missing_blocks ne st1 \<noteq> missing_blocks ne st"
        using known0 step True l by (auto simp: missing_blocks_def stored_step_def)
    qed
    then have "card (missing_blocks ne st1) < card (missing_blocks ne st)"
      by (rule psubset_card_mono [OF finite_missing [OF ok]])
    then show ?thesis using after(1,5) forced1 by (simp add: worker_measure_def)
  next
    case False
    then have "store (node_ledger st1) = store (node_ledger st)"
      using step l by (simp add: stored_step_def)
    then have "card (missing_blocks ne st1) \<le> card (missing_blocks ne st)"
      using known1 ok by (intro missing_mono) simp_all
    then show ?thesis
      using process_one_counts [OF one ok0 False] counts0 after(1,5,6,7) forced1
      by (auto simp: worker_measure_def)
  qed
  then show ?thesis using after(2) by blast
qed

lemma fold_event_fields:
  "node_ledger (fold (\<lambda>h st. node_event st (f h)) hs st) = node_ledger st"
  "store_unchecked (fold (\<lambda>h st. node_event st (f h)) hs st) = store_unchecked st"
  "state_blocks (fold (\<lambda>h st. node_event st (f h)) hs st) = state_blocks st"
  "blocks (fold (\<lambda>h st. node_event st (f h)) hs st) = blocks st"
  "blocks_hashes (fold (\<lambda>h st. node_event st (f h)) hs st) = blocks_hashes st"
  "forced (fold (\<lambda>h st. node_event st (f h)) hs st) = forced st"
  "rolled_back (fold (\<lambda>h st. node_event st (f h)) hs st) = rolled_back st"
  by (induction hs arbitrary: st) simp_all

lemma rival_fields:
  assumes "roll_back_rival ne st b = Some st'"
  shows "store_unchecked st' = store_unchecked st" "state_blocks st' = state_blocks st"
    "blocks st' = blocks st" "blocks_hashes st' = blocks_hashes st" "forced st' = forced st"
  using assms
  by (auto simp: roll_back_rival_def Let_def bind_eq_Some_conv fold_event_fields split: option.splits if_splits)

lemma process_next_forced:
  assumes "process_next ne1 st = Some st'" "forced st \<noteq> []"
  obtains b rest st0 st1 r where "forced st = b # rest"
    "roll_back_rival ne1 (st\<lparr>forced := rest\<rparr>) b = Some st0"
    "process_one ne1 st0 \<lparr>unchecked_block = b, unchecked_account = 0,
       unchecked_modified = now (node_ledger_env ne1), verified = Sv_unknown\<rparr> = Some (st1, r)"
    "st' = (if blocks st1 = [] \<and> state_blocks st1 \<noteq> [] then verify_state_blocks ne1 st1 (batch_size ne1 256) else st1)"
  using assms by (auto simp: process_next_def next_block_def bind_eq_Some_conv split: list.splits prod.splits)

lemma process_forced_decreases:
  assumes run: "process_next (at_time ne t c recent) st = Some st'" and "forced st \<noteq> []"
    and ok: "unchecked_ok ne (store_unchecked st)"
  shows "(st', st) \<in> worker_measure ne \<and> unchecked_ok ne (store_unchecked st')"
proof -
  let ?ne = "at_time ne t c recent"
  obtain b rest st0 st1 r where forced: "forced st = b # rest"
    and rival: "roll_back_rival ?ne (st\<lparr>forced := rest\<rparr>) b = Some st0"
    and one: "process_one ?ne st0 \<lparr>unchecked_block = b, unchecked_account = 0,
       unchecked_modified = now (node_ledger_env ?ne), verified = Sv_unknown\<rparr> = Some (st1, r)"
    and st': "st' = (if blocks st1 = [] \<and> state_blocks st1 \<noteq> [] then verify_state_blocks ?ne st1 (batch_size ?ne 256) else st1)"
    by (rule process_next_forced [OF run assms(2)])
  have ok0: "unchecked_ok ?ne (store_unchecked st0)" using ok rival_fields(1) [OF rival] by simp
  note keeps = process_one_keeps [OF one ok0]
  have ok1: "unchecked_ok ne (store_unchecked st1)" using keeps(3) by simp
  show ?thesis
    using verify_after(1,2) [OF ok1 st'] keeps(1) rival_fields(5) [OF rival] forced
    by (simp add: worker_measure_def)
qed

lemma worker_decreases:
  assumes "worker_step ne st st'" "unchecked_ok ne (store_unchecked st)" "max_verification_batch ne \<noteq> 0"
  shows "(st', st) \<in> worker_measure ne \<and> unchecked_ok ne (store_unchecked st')"
  using assms(1)
proof (cases rule: worker_step.cases)
  case worker_verify
  let ?st = "verify_state_blocks ne st (max_verification_batch ne)"
  have "0 < min (max_verification_batch ne) (length (state_blocks st))"
    "min (max_verification_batch ne) (length (state_blocks st)) \<le> queue_work st"
    using worker_verify(2) assms(3) by (simp_all add: queue_work_def)
  then have "queue_work ?st < queue_work st"
    using verify_counts(2) [of ne st "max_verification_batch ne"] by linarith
  moreover have "card (missing_blocks ne ?st) \<le> card (missing_blocks ne st)"
    using verify_known verify_same assms(2) by (intro missing_mono) (simp_all add: same_outside_def)
  moreover have "forced ?st = forced st" "store_unchecked ?st = store_unchecked st"
    using verify_same [of st ne] by (simp_all add: same_outside_def)
  ultimately show ?thesis
    using verify_counts(1) [of ne st "max_verification_batch ne"] assms(2)
    by (auto simp: worker_measure_def worker_verify(1))
next
  case (worker_process t c recent)
  then show ?thesis
    using process_queue_decreases process_forced_decreases assms(2) by (cases "forced st = []") blast+
qed

lemma worker_no_infinite_run:
  assumes "unchecked_ok ne (store_unchecked (run 0))" "max_verification_batch ne \<noteq> 0"
  shows "\<exists>i. \<not> worker_step ne (run i) (run (Suc i))"
proof (rule ccontr)
  assume "\<not> ?thesis"
  then have steps: "worker_step ne (run i) (run (Suc i))" for i by blast
  have ok: "unchecked_ok ne (store_unchecked (run i))" for i
    by (induction i) (use assms worker_decreases [OF steps] in blast)+
  then have "(run (Suc i), run i) \<in> worker_measure ne" for i
    using worker_decreases [OF steps] assms(2) by blast
  moreover have "wf (worker_measure ne)" by (simp add: worker_measure_def)
  ultimately show False by (auto simp: wf_iff_no_infinite_down_chain)
qed

end
