(* ===== verification/Ledger_Reports.thy ===== *)
theory Ledger_Reports
  imports Stored_Blocks Queries
begin

text \<open>
  What the codes of \<open>ledger::process\<close> mean to the block processor: the account of a block that
  is taken in, the blocks that a gap waits for, the marks of verified signatures, and when a
  fork has a rival.
\<close>

section \<open>What the ledger reports\<close>

text \<open>The ways a state block can end when it is neither old nor refused for its signature.\<close>

lemma state_impl_code:
  assumes "state_block_impl env l r b = Some (l', r')" "code r' \<in> {Gap_previous, Gap_source, Fork}"
  obtains r1 sends where "process_return.verified r' = Sv_valid"
    "\<not> validate_message env (state_account (hashables b)) (block_hash (digest env) (State_block b)) (signature b)"
    "state_account_check (store l) (account_get (store l) (state_account (hashables b)))
       (r\<lparr>verified := Sv_valid\<rparr>) (hashables b) = (r1, sends)"
    "code r1 = code r' \<or> code r1 = Progress \<and> \<not> sends \<and> code r' = Gap_source \<and>
       state_link (hashables b) \<noteq> 0 \<and> \<not> source_exists (store l) (state_link (hashables b))"
proof -
  let ?h = "hashables b"
  let ?o = "account_get (store l) (state_account ?h)"
  let ?e = "case ?o of Some i \<Rightarrow> info_epoch i | None \<Rightarrow> Epoch_0"
  obtain r1 sends where c: "state_account_check (store l) ?o (r\<lparr>verified := Sv_valid\<rparr>) ?h = (r1, sends)"
    by fastforce
  have v: "process_return.verified r1 = Sv_valid"
    using c by (auto simp: state_account_check_def Let_def split: option.splits if_splits)
  obtain r2 e2 where d:
    "(if code r1 = Progress \<and> \<not> sends then state_link_check (store l) r1 ?e ?h else (r1, ?e)) = (r2, e2)"
    by fastforce
  have v2: "process_return.verified r2 = Sv_valid"
    using d v by (auto simp: state_link_check_def split: option.splits if_splits)
  have sig: "\<not> validate_message env (state_account ?h) (block_hash (digest env) (State_block b)) (signature b)"
    and r': "r' = r2" "code r2 \<noteq> Progress"
    using assms unfolding state_block_impl_def Let_def c prod.case d
    by (auto simp: bind_eq_Some_conv assert_def split: if_splits)
  have "code r1 = code r' \<or> code r1 = Progress \<and> \<not> sends \<and> code r' = Gap_source \<and>
       state_link ?h \<noteq> 0 \<and> \<not> source_exists (store l) (state_link ?h)"
    using d r' assms(2) by (auto simp: state_link_check_def split: option.splits if_splits)
  then show thesis using that v2 r' sig c by blast
qed

lemma epoch_impl_code:
  assumes "epoch_block_impl env l r b = Some (l', r')" "code r' \<in> {Gap_previous, Gap_source, Fork}"
  shows "code r' = Fork \<and> (\<exists>i. account_get (store l) (state_account (hashables b)) = Some i \<and>
    (state_previous (hashables b) = 0 \<or> state_previous (hashables b) \<noteq> head i))"
proof -
  let ?h = "hashables b"
  let ?o = "account_get (store l) (state_account ?h)"
  have "epoch_account_check (store l) ?o ?h = Some (code r')"
    using assms by (cases r) (auto simp: epoch_block_impl_def Let_def bind_eq_Some_conv assert_def split: if_splits)
  then show ?thesis
    using assms(2) by (auto simp: epoch_account_check_def bind_eq_Some_conv split: option.splits if_splits)
qed

text \<open>What \<open>epoch_block_check\<close> leaves behind when it ends the processing, or lets it go on.\<close>

lemma epoch_check_code:
  assumes "epoch_block_check env l r b = Some (r1, e)"
  shows "code r1 \<in> {Progress, Gap_previous, Bad_signature}"
    "code r1 = Progress \<Longrightarrow> process_return.verified r1 = process_return.verified r \<and>
      (e \<longrightarrow> state_previous (hashables b) = 0 \<or> block_exists (store l) (state_previous (hashables b)))"
    "code r1 = Gap_previous \<Longrightarrow> \<not> block_exists (store l) (state_previous (hashables b)) \<and>
      (process_return.verified r1 = process_return.verified r \<or>
       process_return.verified r1 = Sv_valid \<and> \<not> validate_message env (state_account (hashables b))
         (block_hash (digest env) (State_block b)) (signature b) \<or>
       process_return.verified r1 = Sv_valid_epoch \<and> \<not> validate_message env (epoch_signer l)
         (block_hash (digest env) (State_block b)) (signature b))"
  using assms
  by (auto simp: epoch_block_check_def Let_def bind_eq_Some_conv split: if_splits)

section \<open>Accounts\<close>

lemma result_account_legacy:
  "send_block_process env l r0 sb = Some (l', r) \<Longrightarrow> code r = Progress \<Longrightarrow> result_account r = frontier_get (store l) (send_previous (hashables sb)) \<and>
    frontier_get (store l) (send_previous (hashables sb)) \<noteq> 0"
  "change_block_process env l r0 cb = Some (l', r) \<Longrightarrow> code r = Progress \<Longrightarrow> result_account r = frontier_get (store l) (change_previous (hashables cb)) \<and>
    frontier_get (store l) (change_previous (hashables cb)) \<noteq> 0"
  "open_block_process env l r0 ob = Some (l', r) \<Longrightarrow> code r = Progress \<Longrightarrow> result_account r = open_account (hashables ob)"
  "receive_block_process env l r0 rb = Some (l', r) \<Longrightarrow> code r = Progress \<Longrightarrow> result_account r = frontier_get (store l) (receive_previous (hashables rb)) \<and>
    frontier_get (store l) (receive_previous (hashables rb)) \<noteq> 0"
  by (auto simp: send_block_process_def change_block_process_def open_block_process_def receive_block_process_def
      Let_def bind_eq_Some_conv split: if_splits option.splits)

lemma result_account_state:
  assumes "state_block_process env l r0 b = Some (l', r)" "code r = Progress"
  shows "result_account r = state_account (hashables b)"
proof -
  obtain r1 e where c: "epoch_block_check env l r0 b = Some (r1, e)"
    using assms by (auto simp: state_block_process_def bind_eq_Some_conv)
  have "result_account r = state_account (hashables b)" if "state_block_impl env l r1 b = Some (l', r)"
    using that assms(2)
    by (auto simp: state_block_impl_def Let_def bind_eq_Some_conv split: if_splits prod.splits)
  moreover have "result_account r = state_account (hashables b)" if "epoch_block_impl env l r1 b = Some (l', r)"
    using that assms(2)
    by (cases r1) (auto simp: epoch_block_impl_def Let_def bind_eq_Some_conv split: if_splits)
  ultimately show ?thesis using assms c by (auto simp: state_block_process_def split: if_splits)
qed

lemma result_account_signer:
  assumes "process env l b ver = Some (l', r)" "code r = Progress"
  shows "result_account r = signer (store l) b"
  using assms result_account_legacy result_account_state
  by (cases b) (auto simp: process_def Let_def)

section \<open>Gaps\<close>

fun wanted_source :: "block \<Rightarrow> uint256" where
  "wanted_source (State_block b) = state_link (hashables b)"
| "wanted_source b = source b"

text \<open>The predecessor of a state block, when stored, belongs to the account of the block.\<close>

definition own_predecessor :: "store \<Rightarrow> block \<Rightarrow> bool" where
  "own_predecessor s b \<longleftrightarrow> (\<forall>sb. b = State_block sb \<longrightarrow> block_exists s (previous b) \<longrightarrow>
     block_account s (previous b) = Some (state_account (hashables sb)))"

lemma owner_opened:
  assumes "chain_inv H (view s)" "block_account s h = Some a"
  shows "account_get s a \<noteq> None"
proof -
  obtain b sb where "block_get_sideband s h = Some (b, sb)" and a: "entry_account (b, sb) = a"
    using assms(2) by (auto simp: block_account_def entry_account_def bind_eq_Some_conv Let_def assert_def split: if_splits)
  then have "block_inv H (view s) h b sb" using chain_inv_block [OF assms(1)] by simp
  then show ?thesis using a by (auto simp: block_inv_def)
qed

lemma frontier_head:
  assumes "chain_inv H (view s)" "frontier_get s h \<noteq> 0"
  shows "\<exists>i. account_get s (frontier_get s h) = Some i \<and> head i = h"
proof -
  obtain a where a: "frontiers s h = Some a" "frontier_get s h = a"
    using assms(2) by (auto simp: frontier_get_def split: option.splits)
  then show ?thesis using chain_inv_frontier [OF assms(1)] by (fastforce simp: frontier_inv_def)
qed

lemma legacy_gap_previous:
  assumes "chain_inv (digest env) (view (store l))"
  shows "send_block_process env l r0 sb = Some (l', r) \<Longrightarrow> code r = Gap_previous \<Longrightarrow>
      \<not> block_exists (store l) (send_previous (hashables sb))"
    "change_block_process env l r0 cb = Some (l', r) \<Longrightarrow> code r = Gap_previous \<Longrightarrow>
      \<not> block_exists (store l) (change_previous (hashables cb))"
    "receive_block_process env l r0 rb = Some (l', r) \<Longrightarrow> code r = Gap_previous \<Longrightarrow>
      \<not> block_exists (store l) (receive_previous (hashables rb))"
    "open_block_process env l r0 ob = Some (l', r) \<Longrightarrow> code r \<noteq> Gap_previous"
  using frontier_head [OF assms, of "receive_previous (hashables rb)"]
  by (auto simp: send_block_process_def change_block_process_def receive_block_process_def open_block_process_def
      Let_def bind_eq_Some_conv block_get_view block_exists_view split: if_splits option.splits)

lemma state_process_code:
  assumes "state_block_process env l r0 b = Some (l', r)"
  obtains (checked) r1 e where "epoch_block_check env l r0 b = Some (r1, e)" "code r1 \<noteq> Progress" "r = r1"
  | (epoch) r1 where "epoch_block_check env l r0 b = Some (r1, True)" "code r1 = Progress"
      "epoch_block_impl env l r1 b = Some (l', r)"
  | (state) r1 where "epoch_block_check env l r0 b = Some (r1, False)" "code r1 = Progress"
      "state_block_impl env l r1 b = Some (l', r)"
  using assms by (auto simp: state_block_process_def bind_eq_Some_conv split: if_splits)

lemma state_gap_previous:
  assumes "state_block_process env l r0 b = Some (l', r)" "code r = Gap_previous"
    and chain: "chain_inv H (view (store l))" and own: "own_predecessor (store l) (State_block b)"
  shows "\<not> block_exists (store l) (state_previous (hashables b))"
  using assms(1)
proof (cases rule: state_process_code)
  case (checked r1 e)
  then show ?thesis using epoch_check_code(3) assms(2) by blast
next
  case (epoch r1)
  then show ?thesis using epoch_impl_code assms(2) by fastforce
next
  case (state r1)
  obtain r2 sends where "state_account_check (store l) (account_get (store l) (state_account (hashables b)))
       (r1\<lparr>verified := Sv_valid\<rparr>) (hashables b) = (r2, sends)" "code r2 = Gap_previous"
    by (rule state_impl_code [OF state(3)]) (use assms(2) in auto)
  then have "\<not> block_exists (store l) (state_previous (hashables b)) \<or>
      account_get (store l) (state_account (hashables b)) = None"
    by (auto simp: state_account_check_def Let_def split: option.splits if_splits)
  moreover have "account_get (store l) (state_account (hashables b)) \<noteq> None"
    if "block_exists (store l) (state_previous (hashables b))"
    using that own by (intro owner_opened [OF chain]) (auto simp: own_predecessor_def)
  ultimately show ?thesis by blast
qed

lemma gap_previous_missing:
  assumes "process env l b ver = Some (l', r)" "code r = Gap_previous"
    and "chain_inv (digest env) (view (store l))" "own_predecessor (store l) b"
  shows "\<not> block_exists (store l) (previous b)"
  using assms legacy_gap_previous [OF assms(3)] state_gap_previous [OF _ _ assms(3)]
  by (cases b) (auto simp: process_def Let_def)

lemma legacy_gap_source:
  "send_block_process env l r0 sb = Some (l', r) \<Longrightarrow> code r \<noteq> Gap_source"
  "change_block_process env l r0 cb = Some (l', r) \<Longrightarrow> code r \<noteq> Gap_source"
  "receive_block_process env l r0 rb = Some (l', r) \<Longrightarrow> code r = Gap_source \<Longrightarrow>
    \<not> source_exists (store l) (receive_source (hashables rb)) \<and> block_exists (store l) (receive_previous (hashables rb))"
  "open_block_process env l r0 ob = Some (l', r) \<Longrightarrow> code r = Gap_source \<Longrightarrow>
    \<not> source_exists (store l) (open_source (hashables ob))"
  by (auto simp: send_block_process_def change_block_process_def receive_block_process_def open_block_process_def
      Let_def bind_eq_Some_conv block_get_view block_exists_view split: if_splits option.splits)

lemma state_gap_source:
  assumes "state_block_process env l r0 b = Some (l', r)" "code r = Gap_source"
    and chain: "chain_inv H (view (store l))"
  shows "block_source (store l) (State_block b) = Some (state_link (hashables b)) \<and>
    \<not> source_exists (store l) (state_link (hashables b))"
  using assms(1)
proof (cases rule: state_process_code)
  case (checked r1 e)
  then show ?thesis using epoch_check_code(1) [OF checked(1)] assms(2) by auto
next
  case (epoch r1)
  then show ?thesis using epoch_impl_code assms(2) by fastforce
next
  case (state r1)
  let ?h = "hashables b"
  let ?o = "account_get (store l) (state_account ?h)"
  obtain r2 sends where c: "state_account_check (store l) ?o (r1\<lparr>verified := Sv_valid\<rparr>) ?h = (r2, sends)"
    and code: "code r2 = Gap_source \<or> code r2 = Progress \<and> \<not> sends \<and>
      \<not> source_exists (store l) (state_link ?h)"
    by (rule state_impl_code [OF state(3)]) (use assms(2) in auto)
  have "\<not> source_exists (store l) 0"
    using no_block_zero [OF chain] by (simp add: source_exists_def block_get_sideband_def block_raw_get_def split: option.splits)
  moreover have "state_balance ?h \<ge> info_balance i" "state_previous ?h = head i" if "?o = Some i" for i
    using c code that by (auto simp: state_account_check_def Let_def split: if_splits)
  moreover have "block_balance (store l) (head i) = Some (info_balance i)" if "?o = Some i" for i
    using chain_inv_account [OF chain] that by (fastforce simp: account_inv_def block_balance_def)
  ultimately show ?thesis
    using c code no_block_zero [OF chain]
    by (cases ?o) (auto simp: block_source_def is_send_def ledger_balance_def state_account_check_def block_exists_view
        block_balance_def Let_def not_less split: if_splits)
qed

lemma gap_source_missing:
  assumes "process env l b ver = Some (l', r)" "code r = Gap_source" "chain_inv (digest env) (view (store l))"
  shows "block_source (store l) b = Some (wanted_source b) \<and> \<not> source_exists (store l) (wanted_source b)"
  using assms(1,2) legacy_gap_source state_gap_source [OF _ _ assms(3)]
  by (cases b) (fastforce simp: process_def Let_def block_source_def)+

section \<open>Signatures\<close>

text \<open>
  A state or open block marked as verified has a good signature, of its account or of the epoch
  signer. The other blocks do not name their account; whether their mark is right depends on
  the ledger.
\<close>

definition flag_sound :: "env \<Rightarrow> uint256 \<Rightarrow> block \<Rightarrow> signature_verification \<Rightarrow> bool" where
  "flag_sound env es b v \<longleftrightarrow> type_of b \<in> {Bt_state, Bt_open} \<longrightarrow>
     (v = Sv_valid \<longrightarrow> \<not> validate_message env (account b) (block_hash (digest env) b) (block_signature b)) \<and>
     (v = Sv_valid_epoch \<longrightarrow> \<not> validate_message env es (block_hash (digest env) b) (block_signature b))"

lemma state_gap_flag:
  assumes "state_block_process env l r0 b = Some (l', r)" "code r \<in> {Gap_previous, Gap_source}"
    and "flag_sound env (epoch_signer l) (State_block b) (process_return.verified r0)"
  shows "flag_sound env (epoch_signer l) (State_block b) (process_return.verified r)"
  using assms(1)
proof (cases rule: state_process_code)
  case (checked r1 e)
  then show ?thesis
    using epoch_check_code(1,3) [OF checked(1)] assms(2,3) by (auto simp: flag_sound_def)
next
  case (epoch r1)
  then show ?thesis using epoch_impl_code assms(2) by fastforce
next
  case (state r1)
  show ?thesis
    by (rule state_impl_code [OF state(3)]) (use assms(2) in \<open>auto simp: flag_sound_def\<close>)
qed

lemma gap_flag:
  assumes "process env l b ver = Some (l', r)" "code r \<in> {Gap_previous, Gap_source}"
    and "flag_sound env (epoch_signer l) b ver"
  shows "flag_sound env (epoch_signer l) b (process_return.verified r)"
proof (cases b)
  case (Open_block ob)
  then show ?thesis using assms
    by (auto simp: process_def open_block_process_def flag_sound_def Let_def bind_eq_Some_conv assert_def
        split: if_splits option.splits)
next
  case (State_block sb)
  then show ?thesis using assms state_gap_flag [of env l "process_return_init ver" sb l' r]
    by (simp add: process_def process_return_init_def)
qed (simp_all add: flag_sound_def)

section \<open>Forks\<close>

lemma rooted_at_account:
  assumes "chain_inv H (view s)" "account_get s (root b) = Some i"
    "\<not> block_exists_type s (type_of b) (block_hash K b)" "root_exists s (root b)"
  shows "forked_block K s b \<noteq> None"
proof -
  have "block_get s (open_block i) \<noteq> None"
    using chain_inv_account [OF assms(1)] assms(2) by (fastforce simp: account_inv_def block_get_view)
  then show ?thesis
    using assms(2-4) by (auto simp: forked_block_def root_exists_def Let_def split: option.splits)
qed

lemma rooted_at_block:
  assumes chain: "chain_inv H (view s)" and b: "block_account s (root b) = Some a"
    and i: "account_get s a = Some i" "root b \<noteq> head i"
    and new: "\<not> block_exists_type s (type_of b) (block_hash K b)"
  shows "forked_block K s b \<noteq> None"
proof -
  obtain c sc where c: "block_get_sideband s (root b) = Some (c, sc)" and a: "entry_account (c, sc) = a"
    using b by (auto simp: block_account_def entry_account_def bind_eq_Some_conv Let_def assert_def split: if_splits)
  then have inv: "block_inv H (view s) (root b) c sc" using chain_inv_block [OF chain] by simp
  then have "successor sc \<noteq> 0" using i a by (auto simp: block_inv_def)
  then have "block_get s (successor sc) \<noteq> None" using inv by (auto simp: block_inv_def block_get_view)
  then show ?thesis
    using c new by (auto simp: forked_block_def block_successor_view block_exists_view Let_def split: option.splits)
qed

lemma state_fork:
  assumes "state_block_process env l r0 b = Some (l', r)" "code r = Fork"
  shows "\<exists>i. account_get (store l) (state_account (hashables b)) = Some i \<and>
    (state_previous (hashables b) = 0 \<or> state_previous (hashables b) \<noteq> head i \<and>
       block_exists (store l) (state_previous (hashables b)))"
  using assms(1)
proof (cases rule: state_process_code)
  case (checked r1 e)
  then show ?thesis using epoch_check_code(1) [OF checked(1)] assms(2) by auto
next
  case (epoch r1)
  then show ?thesis using epoch_impl_code [OF epoch(3)] epoch_check_code(2) [OF epoch(1,2)] assms(2) by auto
next
  case (state r1)
  obtain r2 sends where "state_account_check (store l) (account_get (store l) (state_account (hashables b)))
       (r1\<lparr>verified := Sv_valid\<rparr>) (hashables b) = (r2, sends)" "code r2 = Fork"
    by (rule state_impl_code [OF state(3)]) (use assms(2) in auto)
  then show ?thesis by (auto simp: state_account_check_def Let_def split: option.splits if_splits)
qed

lemma fork_resolved:
  assumes run: "process env l b ver = Some (l', r)" "code r = Fork"
    and chain: "chain_inv (digest env) (view (store l))" and own: "own_predecessor (store l) b"
    and new: "\<not> block_exists_type (store l) (type_of b) (block_hash (digest env) b)" "root_exists (store l) (root b)"
  shows "forked_block (digest env) (store l) b \<noteq> None"
proof (cases "type_of b \<in> {Bt_send, Bt_receive, Bt_change}")
  case True
  obtain c where "block_get (store l) (root b) = Some c" "legacy c" "frontier_get (store l) (root b) = 0"
    by (rule legacy_fork [OF run True])
  then show ?thesis using forked_successor [OF chain new(1)] by (metis option.distinct(1))
next
  case False
  then consider (open_block) ob where "b = Open_block ob" | (state_block) sb where "b = State_block sb"
    by (cases b) auto
  then show ?thesis
  proof cases
    case open_block
    then have "account_get (store l) (root b) \<noteq> None"
      using run by (auto simp: process_def open_block_process_def Let_def bind_eq_Some_conv split: if_splits option.splits)
    then show ?thesis using rooted_at_account [OF chain _ new] by blast
  next
    case state_block
    obtain i where i: "account_get (store l) (state_account (hashables sb)) = Some i"
      and prev: "state_previous (hashables sb) = 0 \<or> state_previous (hashables sb) \<noteq> head i \<and>
         block_exists (store l) (state_previous (hashables sb))"
      using run state_fork [of env l "process_return_init ver" sb l' r] by (auto simp: process_def state_block)
    show ?thesis
    proof (cases "state_previous (hashables sb) = 0")
      case True
      then show ?thesis using rooted_at_account [OF chain _ new] i by (simp add: state_block)
    next
      case False
      then have "block_account (store l) (root b) = Some (state_account (hashables sb))" "root b \<noteq> head i"
        using own prev by (auto simp: own_predecessor_def state_block)
      then show ?thesis using rooted_at_block [OF chain _ i _ new(1)] by blast
    qed
  qed
qed

end
