(* ===== verification/Processor_Safe.thy ===== *)
theory Processor_Safe
  imports Processor_Queue Ledger_Reports
begin

text \<open>
  The block processor and the ledger together: a pass of the worker does not abort and keeps the
  ledger reachable, no state or open block passes as verified without a good signature, and a
  block in the unchecked table waits for one the ledger does not have.
\<close>

section \<open>The invariant of the processor\<close>

definition items :: "block_processor \<Rightarrow> unchecked_info set" where
  "items st = set (blocks st) \<union> set (state_blocks st) \<union> ran (store_unchecked st)"

definition has_work :: "node_env \<Rightarrow> block \<Rightarrow> bool" where
  "has_work ne b \<longleftrightarrow> \<not> work_validate (node_work ne) (node_network ne) b"

text \<open>
  An item has a block with enough work, a mark that is right, and the account it was pulled for
  is that of the block, where the block names one.
\<close>

definition item_ok :: "node_env \<Rightarrow> ledger \<Rightarrow> unchecked_info \<Rightarrow> bool" where
  "item_ok ne l i \<longleftrightarrow> has_work ne (unchecked_block i) \<and>
     flag_sound (node_ledger_env ne) (epoch_signer l) (unchecked_block i) (unchecked_info.verified i) \<and>
     (type_of (unchecked_block i) \<in> {Bt_state, Bt_open} \<longrightarrow>
        unchecked_account i \<in> {0, account (unchecked_block i)})"

definition processor_inv :: "node_env \<Rightarrow> block_processor \<Rightarrow> bool" where
  "processor_inv ne st \<longleftrightarrow> unchecked_ok ne (store_unchecked st) \<and>
     (\<forall>i\<in>items st. item_ok ne (node_ledger st) i) \<and> (\<forall>b\<in>set (forced st). has_work ne b)"

text \<open>A block waits for a predecessor or a source that the store does not have.\<close>

definition waits_for :: "store \<Rightarrow> uint256 \<Rightarrow> block \<Rightarrow> bool" where
  "waits_for s d b \<longleftrightarrow> d = previous b \<and> \<not> block_exists s d \<or> d = wanted_source b \<and> \<not> source_exists s d"

definition all_wait :: "block_processor \<Rightarrow> bool" where
  "all_wait st \<longleftrightarrow> (\<forall>k i. store_unchecked st k = Some i \<longrightarrow>
     waits_for (store (node_ledger st)) (key_account k) (unchecked_block i))"

lemma items_event [simp]: "items (node_event st c) = items st"
  by (simp add: items_def)

lemma items_ledger [simp]: "items (st\<lparr>node_ledger := l\<rparr>) = items st"
  by (simp add: items_def)

lemma add_returns: "has_work ne (unchecked_block info) \<Longrightarrow> \<exists>st'. add ne st info = Some st'"
  by (simp add: add_def has_work_def Let_def)

lemma add_items: "add ne st info = Some st' \<Longrightarrow> items st' \<subseteq> insert info (items st)"
  by (erule add_cases) (auto simp: items_def)

lemma queue_infos_returns:
  assumes "\<forall>i\<in>set infos. has_work ne (unchecked_block i)"
  shows "\<exists>st'. queue_infos ne h infos st = Some st' \<and> items st' \<subseteq> items st \<union> set infos"
  using assms
proof (induction infos arbitrary: st)
  case (Cons info infos)
  let ?st = "if \<not> fast_bootstrap ne
    then st\<lparr>store_unchecked := unchecked_del (store_unchecked st) (Pending_key h (hash_in ne info))\<rparr> else st"
  obtain st1 where st1: "add ne ?st info = Some st1" using add_returns Cons.prems by fastforce
  obtain st' where st': "queue_infos ne h infos st1 = Some st'" "items st' \<subseteq> items st1 \<union> set infos"
    using Cons by fastforce
  have "items ?st \<subseteq> items st"
    using ran_delete [of "store_unchecked st"] by (auto simp: items_def unchecked_del_def)
  then have "items st' \<subseteq> items st \<union> set (info # infos)" using st'(2) add_items [OF st1] by auto
  then show ?case using st1 st'(1) by (auto simp: Let_def)
qed simp

lemma queue_infos_unchecked:
  assumes "queue_infos ne h infos st = Some st'" "\<not> fast_bootstrap ne"
  shows "store_unchecked st' k =
    (if \<exists>i\<in>set infos. k = Pending_key h (hash_in ne i) then None else store_unchecked st k)"
  using assms
proof (induction infos arbitrary: st)
  case (Cons info infos)
  let ?st = "st\<lparr>store_unchecked := unchecked_del (store_unchecked st) (Pending_key h (hash_in ne info))\<rparr>"
  obtain st1 where st1: "add ne ?st info = Some st1" and run: "queue_infos ne h infos st1 = Some st'"
    using Cons.prems by (auto simp: bind_eq_Some_conv)
  show ?case using Cons.IH [OF run Cons.prems(2)] add_same [OF st1] by (auto simp: unchecked_del_def)
qed simp

lemma queue_unchecked_returns:
  assumes ok: "unchecked_ok ne (store_unchecked st)" and work: "\<forall>i\<in>items st. has_work ne (unchecked_block i)"
  obtains st' where "queue_unchecked ne st h = Some st'" "items st' \<subseteq> items st"
    "\<not> fast_bootstrap ne \<Longrightarrow> store_unchecked st' = (\<lambda>k. if key_account k = h then None else store_unchecked st k)"
proof -
  let ?u = "store_unchecked st"
  let ?is = "unchecked_get ?u h"
  have sub: "set ?is \<subseteq> ran ?u" using unchecked_get_at [OF ok] by (auto simp: ran_def)
  then have "\<forall>i\<in>set ?is. has_work ne (unchecked_block i)" using work by (auto simp: items_def)
  then obtain st1 where st1: "queue_infos ne h ?is st = Some st1" "items st1 \<subseteq> items st \<union> set ?is"
    using queue_infos_returns by blast
  let ?st = "node_event st1 (Gap_cache_erase h)"
  have "store_unchecked ?st = (\<lambda>k. if key_account k = h then None else ?u k)" if "\<not> fast_bootstrap ne"
  proof
    fix k
    have "\<exists>i\<in>set ?is. k = Pending_key h (hash_in ne i)" if k: "key_account k = h" and u: "?u k = Some i" for i
    proof
      show "i \<in> set ?is" using ok k u by (auto simp: unchecked_get_set unchecked_ok_def)
      show "k = Pending_key h (hash_in ne i)"
        using ok k u by (metis pending_key.collapse unchecked_ok_def)
    qed
    then show "store_unchecked ?st k = (if key_account k = h then None else ?u k)"
      using queue_infos_unchecked [OF st1(1) that, of k] by (cases "?u k") auto
  qed
  moreover have "items ?st \<subseteq> items st" using st1(2) sub by (auto simp: items_def)
  moreover have "queue_unchecked ne st h = Some ?st" using st1(1) by (simp add: queue_unchecked_def)
  ultimately show thesis using that by blast
qed

section \<open>A pass of the worker\<close>

lemma verify_item_mark:
  assumes "verify_item ne l i = Some i'"
  obtains v where "i' = i\<lparr>unchecked_info.verified := v\<rparr>"
    "v = Sv_unknown \<or>
     v = Sv_valid_epoch \<and> \<not> validate_message (node_ledger_env ne) (epoch_signer l) (hash_in ne i) (block_signature (unchecked_block i)) \<or>
     v = Sv_valid \<and> \<not> validate_message (node_ledger_env ne)
       (if unchecked_account i \<noteq> 0 then unchecked_account i else account (unchecked_block i))
       (hash_in ne i) (block_signature (unchecked_block i))"
proof (cases "has_epoch_link l i")
  case True
  show ?thesis
    by (rule that [of "unchecked_info.verified i'"])
      (use assms True in \<open>auto simp: verify_item_def verify_account_def Let_def\<close>)
next
  case False
  show ?thesis
    by (rule that [of Sv_valid])
      (use assms False in \<open>auto simp: verify_item_def verify_account_def Let_def split: if_splits\<close>)
qed

lemma verify_item_ok:
  assumes "verify_item ne l i = Some i'" "item_ok ne l i"
  shows "item_ok ne l i'"
proof -
  obtain v where i': "i' = i\<lparr>unchecked_info.verified := v\<rparr>" and v: "v = Sv_unknown \<or>
     v = Sv_valid_epoch \<and> \<not> validate_message (node_ledger_env ne) (epoch_signer l) (hash_in ne i) (block_signature (unchecked_block i)) \<or>
     v = Sv_valid \<and> \<not> validate_message (node_ledger_env ne)
       (if unchecked_account i \<noteq> 0 then unchecked_account i else account (unchecked_block i))
       (hash_in ne i) (block_signature (unchecked_block i))"
    by (rule verify_item_mark [OF assms(1)])
  have "flag_sound (node_ledger_env ne) (epoch_signer l) (unchecked_block i) v"
    unfolding flag_sound_def
  proof (intro impI conjI)
    assume t: "type_of (unchecked_block i) \<in> {Bt_state, Bt_open}" and "v = Sv_valid"
    then have "(if unchecked_account i \<noteq> 0 then unchecked_account i else account (unchecked_block i)) =
        account (unchecked_block i)"
      using assms(2) by (auto simp: item_ok_def)
    with v \<open>v = Sv_valid\<close> show "\<not> validate_message (node_ledger_env ne) (account (unchecked_block i))
        (hash_in ne i) (block_signature (unchecked_block i))" by simp
  qed (use v in auto)
  then show ?thesis using assms(2) by (simp add: item_ok_def i')
qed

lemma map_filter_set: "y \<in> set (List.map_filter f xs) \<Longrightarrow> \<exists>x\<in>set xs. f x = Some y"
  by (force simp: List.map_filter_def)

lemma verify_items_ok:
  assumes ok: "\<forall>i\<in>items st. item_ok ne (node_ledger st) i" and i: "i \<in> items (verify_state_blocks ne st n)"
  shows "item_ok ne (node_ledger st) i"
proof -
  have "i \<in> items st \<or> (\<exists>j\<in>set (state_blocks st). verify_item ne (node_ledger st) j = Some i)"
    using i by (auto simp: items_def verify_state_blocks_def Let_def dest!: map_filter_set)
      (blast dest: in_set_takeD in_set_dropD)+
  then show ?thesis
  proof
    assume "\<exists>j\<in>set (state_blocks st). verify_item ne (node_ledger st) j = Some i"
    then obtain j where j: "j \<in> items st" "verify_item ne (node_ledger st) j = Some i"
      by (auto simp: items_def)
    show ?thesis by (rule verify_item_ok [OF j(2)]) (use ok j(1) in blast)
  qed (use ok in blast)
qed

lemma verify_inv:
  assumes "processor_inv ne st"
  shows "processor_inv ne (verify_state_blocks ne st n)"
proof -
  let ?st = "verify_state_blocks ne st n"
  have "node_ledger ?st = node_ledger st" "forced ?st = forced st" "store_unchecked ?st = store_unchecked st"
    using verify_same [of st ne n] by (simp_all add: same_outside_def)
  then show ?thesis using assms verify_items_ok unfolding processor_inv_def by metis
qed

text \<open>
  What is asked of the block that is processed: no collisions of its hash, an epoch block of
  an unopened account is its first, the predecessor of a state block is of the same account,
  and a send, receive or change block that is marked as verified or was pulled for an account
  is of that account.
\<close>

definition placeable :: "env \<Rightarrow> network \<Rightarrow> ledger \<Rightarrow> unchecked_info \<Rightarrow> bool" where
  "placeable env n l i \<longleftrightarrow>
     (let b = unchecked_block i in
      collision_free (digest env) (lview l) b \<and> hash_apart n (block_hash (digest env) b) \<and>
      epoch_placed l b \<and> own_predecessor (store l) b \<and>
      (type_of b \<in> {Bt_send, Bt_receive, Bt_change} \<longrightarrow>
         verification_sound env l b (unchecked_info.verified i) \<and>
         (frontier_get (store l) (previous b) \<noteq> 0 \<longrightarrow>
            unchecked_account i \<in> {0, frontier_get (store l) (previous b)})))"

lemma placeable_admissible:
  assumes "placeable (node_ledger_env ne) n l i" "item_ok ne l i"
  shows "admissible (node_ledger_env ne) n l (unchecked_block i) (unchecked_info.verified i)"
  using assms
  by (cases "unchecked_block i")
    (auto simp: placeable_def admissible_def item_ok_def flag_sound_def verification_sound_def Let_def)

lemma claim_right:
  assumes "process (node_ledger_env ne) l (unchecked_block i) ver = Some (l', r)" "code r = Progress"
    and "placeable (node_ledger_env ne) n l i" "item_ok ne l i"
  shows "unchecked_account i = 0 \<or> unchecked_account i = result_account r"
proof (cases "type_of (unchecked_block i) \<in> {Bt_state, Bt_open}")
  case True
  then have "result_account r = account (unchecked_block i)"
    using result_account_signer [OF assms(1,2)] by (cases "unchecked_block i") auto
  then show ?thesis using assms(4) True by (auto simp: item_ok_def)
next
  case False
  then have "result_account r = frontier_get (store l) (previous (unchecked_block i))"
    "type_of (unchecked_block i) \<in> {Bt_send, Bt_receive, Bt_change}"
    using result_account_signer [OF assms(1,2)] by (cases "unchecked_block i"; auto)+
  moreover have "frontier_get (store l) (previous (unchecked_block i)) \<noteq> 0"
    using assms(1,2) False result_account_legacy by (cases "unchecked_block i") (auto simp: process_def Let_def)
  ultimately show ?thesis using assms(3) by (auto simp: placeable_def Let_def)
qed

section \<open>What waits keeps waiting\<close>

lemma exists_core: "block_exists (store l) d \<longleftrightarrow> core (lview l) d \<noteq> None"
  by (simp add: block_exists_view core_def)

lemma source_exists_core:
  assumes "good env n l"
  shows "source_exists (store l) d \<longleftrightarrow>
    (\<exists>b a x. core (lview l) d = Some (b, a, x) \<and> type_of b \<in> {Bt_state, Bt_send})"
proof -
  have ok: "blocks_ok (store l)" using assms by (simp add: good_def ledger_ok_def store_ok_def)
  have "block_exists_type (store l) Bt_state d \<longleftrightarrow>
      (\<exists>b sb. block_get_sideband (store l) d = Some (b, sb) \<and> type_of b = Bt_state)"
    using block_exists_type_view [OF ok, of "State_block undefined" d] by simp
  moreover have "block_exists_type (store l) Bt_send d \<longleftrightarrow>
      (\<exists>b sb. block_get_sideband (store l) d = Some (b, sb) \<and> type_of b = Bt_send)"
    using block_exists_type_view [OF ok, of "Send_block undefined" d] by simp
  ultimately show ?thesis by (auto simp: source_exists_def core_def)
qed

lemma waits_stable:
  assumes "good env n l" "good env n l'" "core (lview l') d \<in> {None, core (lview l) d}" "waits_for (store l) d b"
  shows "waits_for (store l') d b"
proof -
  have "block_exists (store l') d \<Longrightarrow> block_exists (store l) d"
    using assms(3) by (auto simp only: exists_core)
  moreover have "source_exists (store l') d \<Longrightarrow> source_exists (store l) d"
    using assms(3) unfolding source_exists_core [OF assms(1)] source_exists_core [OF assms(2)]
    by (metis insertE option.distinct(1) singletonD)
  ultimately show ?thesis using assms(4) by (auto simp: waits_for_def)
qed

section \<open>The steps of a pass keep the invariant\<close>

lemma keeps_signer: "keeps l l' \<Longrightarrow> epoch_signer l' = epoch_signer l"
  unfolding keeps_def by (drule arg_cong [of _ _ epoch_signer]) simp

lemma item_ok_keeps: "keeps l l' \<Longrightarrow> item_ok ne l' i = item_ok ne l i"
  by (simp add: item_ok_def keeps_signer)

lemma inv_ledger:
  assumes "processor_inv ne st" "keeps (node_ledger st) l"
  shows "processor_inv ne (st\<lparr>node_ledger := l\<rparr>)"
  using assms by (simp add: processor_inv_def item_ok_keeps)

lemma inv_event [simp]: "processor_inv ne (node_event st c) = processor_inv ne st"
  by (simp add: processor_inv_def)

lemma queue_safe:
  assumes "processor_inv ne st"
  obtains st' where "queue_unchecked ne st h = Some st'" "processor_inv ne st'" "node_ledger st' = node_ledger st"
    "\<not> fast_bootstrap ne \<Longrightarrow> store_unchecked st' = (\<lambda>k. if key_account k = h then None else store_unchecked st k)"
proof -
  have ok: "unchecked_ok ne (store_unchecked st)" "\<forall>i\<in>items st. has_work ne (unchecked_block i)"
    using assms by (auto simp: processor_inv_def item_ok_def)
  obtain st' where st': "queue_unchecked ne st h = Some st'" "items st' \<subseteq> items st"
    "\<not> fast_bootstrap ne \<Longrightarrow> store_unchecked st' = (\<lambda>k. if key_account k = h then None else store_unchecked st k)"
    by (rule queue_unchecked_returns [OF ok, where h = h]) blast
  have "node_ledger st' = node_ledger st" "forced st' = forced st"
    using queue_unchecked_same [OF st'(1)] by (simp_all add: same_outside_def)
  moreover have "processor_inv ne st'"
    using assms st'(2) queue_unchecked_known(1) [OF st'(1) ok(1)] calculation by (auto simp: processor_inv_def)
  ultimately show thesis using that st'(1,3) by blast
qed

lemma gap_put_inv:
  assumes inv: "processor_inv ne st" and info: "item_ok ne (node_ledger st) info"
    and flag: "flag_sound (node_ledger_env ne) (epoch_signer (node_ledger st)) (unchecked_block info) (process_return.verified r)"
  shows "processor_inv ne (gap_put ne st info r d)"
proof -
  obtain i where u: "store_unchecked (gap_put ne st info r d) =
      (store_unchecked st)(Pending_key d (hash_in ne info) \<mapsto> i)"
    and i: "unchecked_block i = unchecked_block info" "unchecked_account i = unchecked_account info"
      "unchecked_info.verified i = process_return.verified r"
    by (rule gap_put_entry)
  have "item_ok ne (node_ledger st) i" using info flag by (simp add: item_ok_def i)
  moreover have "items (gap_put ne st info r d) \<subseteq> insert i (items st)"
    using ran_put [of "store_unchecked st"] by (auto simp: items_def gap_put_fields u)
  moreover have "unchecked_ok ne (store_unchecked (gap_put ne st info r d))"
    using gap_put_counts(1) inv by (simp add: processor_inv_def)
  ultimately show ?thesis using inv by (auto simp: processor_inv_def gap_put_fields)
qed

lemma gap_put_waits:
  assumes "all_wait st" "waits_for (store (node_ledger st)) d (unchecked_block info)"
  shows "all_wait (gap_put ne st info r d)"
proof -
  obtain i where u: "store_unchecked (gap_put ne st info r d) =
      (store_unchecked st)(Pending_key d (hash_in ne info) \<mapsto> i)" "unchecked_block i = unchecked_block info"
    by (rule gap_put_entry) blast
  then show ?thesis using assms by (auto simp: all_wait_def gap_put_fields u(1))
qed

text \<open>
  A call of \<open>process\<close> on a placeable item: it returns, the ledger stays reachable, and no block
  other than the processed one comes or goes.
\<close>

lemma process_item:
  assumes reach: "reachable (node_ledger_env ne) g el l" and net: "network_ok (node_ledger_env ne) g el"
    and place: "placeable (node_ledger_env ne) (network_of (node_ledger_env ne) g el) l info" and ok: "item_ok ne l info"
  obtains l' r where
    "process (node_ledger_env ne) l (unchecked_block info) (unchecked_info.verified info) = Some (l', r)"
    "reachable (node_ledger_env ne) g el l'" "keeps l l'" "code r \<noteq> Progress \<Longrightarrow> l' = l"
    "\<And>x. x \<noteq> hash_in ne info \<Longrightarrow> core (lview l') x = core (lview l) x"
proof -
  let ?env = "node_ledger_env ne"
  let ?n = "network_of ?env g el"
  have good: "good ?env ?n l" by (rule network_good [OF reach net])
  have adm: "admissible ?env ?n l (unchecked_block info) (unchecked_info.verified info)"
    by (rule placeable_admissible [OF place ok])
  obtain l' r where p: "process ?env l (unchecked_block info) (unchecked_info.verified info) = Some (l', r)"
    and acc: "code r = Progress \<Longrightarrow> accepts ?env l (lview l) (unchecked_block info) (lview l')"
    and same: "code r \<noteq> Progress \<Longrightarrow> l' = l" and keeps: "keeps l l'"
    by (rule process_good [OF good adm]) blast
  have "reachable ?env g el l'"
    by (rule reachable_op [OF reach op_process [OF adm, of "now ?env"]]) (simp add: p)
  moreover have "core (lview l') x = core (lview l) x" if "x \<noteq> hash_in ne info" for x
  proof (cases "code r = Progress")
    case True
    show ?thesis by (rule accepts_shape [OF acc [OF True]]) (simp add: vextend_core_old that)
  qed (simp add: same)
  ultimately show thesis using that p same keeps by blast
qed

lemma wait_after_queue:
  assumes "all_wait st" and l: "good env n (node_ledger st)" "good env n l"
    and core: "\<And>x. x \<noteq> h \<Longrightarrow> core (lview l) x = core (lview (node_ledger st)) x"
    and u: "store_unchecked st' = (\<lambda>k. if key_account k = h then None else store_unchecked st k)" "node_ledger st' = l"
  shows "all_wait st'"
proof -
  have "waits_for (store l) (key_account k) (unchecked_block i)"
    if "store_unchecked st k = Some i" "key_account k \<noteq> h" for k i
    by (rule waits_stable [OF l]) (use assms(1) that core in \<open>auto simp: all_wait_def\<close>)
  then show ?thesis unfolding all_wait_def u by auto
qed

text \<open>Processing one item, by the code that the ledger reports.\<close>

lemma safe_fork:
  assumes "process (node_ledger_env ne) (node_ledger st) b ver = Some (node_ledger st, r)" "code r = Fork"
    and "chain_inv (digest (node_ledger_env ne)) (view (store (node_ledger st)))"
    and "own_predecessor (store (node_ledger st)) b"
  shows "\<exists>x. process_fork ne st b = Some (st\<lparr>calls := x\<rparr>)"
proof -
  have "process_fork ne st b \<noteq> None"
    using fork_resolved [OF assms] by (auto simp: process_fork_def Let_def)
  then show ?thesis using process_fork_calls by (metis option.exhaust)
qed

lemma inv_calls [simp]: "processor_inv ne (st\<lparr>calls := x\<rparr>) = processor_inv ne st"
  by (simp add: processor_inv_def items_def)

lemma wait_calls [simp]: "all_wait (st\<lparr>calls := x\<rparr>) = all_wait st" "all_wait (node_event st c) = all_wait st"
  by (simp_all add: all_wait_def node_event_def)

text \<open>A new statistic changes nothing that matters here.\<close>

lemma fork_stat:
  assumes "processor_inv ne st" "reachable env g el (node_ledger st)" "node_ledger st = l"
  shows "processor_inv ne (st\<lparr>node_ledger := l\<lparr>stats := stat_inc (stats l) t d dir\<rparr>\<rparr>)"
    "reachable env g el (l\<lparr>stats := stat_inc (stats l) t d dir\<rparr>)"
    "all_wait st \<Longrightarrow> all_wait (st\<lparr>node_ledger := l\<lparr>stats := stat_inc (stats l) t d dir\<rparr>\<rparr>)"
proof -
  show "processor_inv ne (st\<lparr>node_ledger := l\<lparr>stats := stat_inc (stats l) t d dir\<rparr>\<rparr>)"
    by (rule inv_ledger [OF assms(1)]) (simp add: assms(3) keeps_def)
  show "reachable env g el (l\<lparr>stats := stat_inc (stats l) t d dir\<rparr>)"
    using reachable_op [OF assms(2) op_stat] by (simp add: assms(3))
qed (use assms(3) in \<open>auto simp: all_wait_def\<close>)

definition safe_result ::
  "node_env \<Rightarrow> open_hashables signed \<Rightarrow> uint256 \<Rightarrow> block_processor \<Rightarrow> (block_processor \<times> process_return) option \<Rightarrow> bool" where
  "safe_result ne g el st res \<longleftrightarrow> (\<exists>st' r. res = Some (st', r) \<and> processor_inv ne st' \<and>
     reachable (node_ledger_env ne) g el (node_ledger st') \<and>
     (\<not> fast_bootstrap ne \<longrightarrow> all_wait st \<longrightarrow> all_wait st'))"

lemma safe_progress_one:
  assumes inv: "processor_inv ne st"
    and p: "process (node_ledger_env ne) (node_ledger st) (unchecked_block info) (unchecked_info.verified info) = Some (l, r)"
      "code r = Progress" "unchecked_account info = 0 \<or> unchecked_account info = result_account r"
    and l: "reachable (node_ledger_env ne) g el l" "keeps (node_ledger st) l"
    and good: "good env n (node_ledger st)" "good env n l"
    and core: "\<And>x. x \<noteq> hash_in ne info \<Longrightarrow> core (lview l) x = core (lview (node_ledger st)) x"
  shows "safe_result ne g el st (process_one ne st info)"
proof -
  let ?h = "hash_in ne info"
  let ?st = "if now (node_ledger_env ne) - 300 < unchecked_modified info \<and> arrival_recent ne ?h
    then node_event (st\<lparr>node_ledger := l\<rparr>) (Process_live ?h (unchecked_block info)) else st\<lparr>node_ledger := l\<rparr>"
  have "processor_inv ne ?st" using inv_ledger [OF inv l(2)] by simp
  then obtain st' where st': "queue_unchecked ne ?st ?h = Some st'" "processor_inv ne st'" "node_ledger st' = node_ledger ?st"
    "\<not> fast_bootstrap ne \<Longrightarrow> store_unchecked st' = (\<lambda>k. if key_account k = ?h then None else store_unchecked ?st k)"
    by (rule queue_safe [where h = ?h]) blast
  have "process_one ne st info = Some (st', r)"
    using p st'(1) by (simp add: process_one_def Let_def assert_def)
  moreover have "all_wait st'" if "\<not> fast_bootstrap ne" "all_wait st"
    by (rule wait_after_queue [OF that(2) good core]) (use st'(3,4) that(1) in auto)
  moreover have "node_ledger st' = l" using st'(3) by (simp split: if_splits)
  ultimately show ?thesis using st'(2) l(1) by (simp add: safe_result_def)
qed

lemma safe_gap_one:
  assumes inv: "processor_inv ne st" and ok: "item_ok ne (node_ledger st) info"
    and reach: "reachable (node_ledger_env ne) g el (node_ledger st)"
    and p: "process (node_ledger_env ne) (node_ledger st) (unchecked_block info) (unchecked_info.verified info) = Some (node_ledger st, r)"
      "code r \<in> {Gap_previous, Gap_source}"
    and chain: "chain_inv (digest (node_ledger_env ne)) (view (store (node_ledger st)))"
    and own: "own_predecessor (store (node_ledger st)) (unchecked_block info)"
  shows "safe_result ne g el st (process_one ne st info)"
proof -
  have flag: "flag_sound (node_ledger_env ne) (epoch_signer (node_ledger st)) (unchecked_block info) (process_return.verified r)"
    using gap_flag [OF p] ok by (simp add: item_ok_def)
  obtain d where d: "process_one ne st info = Some (gap_put ne st info r d, r)"
    "waits_for (store (node_ledger st)) d (unchecked_block info)"
  proof (cases "code r = Gap_previous")
    case True
    then show ?thesis using that [of "previous (unchecked_block info)"] p(1) gap_previous_missing [OF p(1) True chain own]
      by (simp add: process_one_def Let_def waits_for_def)
  next
    case False
    then have "code r = Gap_source" using p(2) by simp
    then show ?thesis
      using that [of "wanted_source (unchecked_block info)"] p(1) gap_source_missing [OF p(1) _ chain]
      by (simp add: process_one_def Let_def waits_for_def)
  qed
  then show ?thesis
    using gap_put_inv [OF inv ok flag] gap_put_waits reach by (simp add: safe_result_def gap_put_fields)
qed

lemma safe_old_one:
  assumes inv: "processor_inv ne st" and reach: "reachable (node_ledger_env ne) g el (node_ledger st)"
    and good: "good env n (node_ledger st)"
    and p: "process (node_ledger_env ne) (node_ledger st) (unchecked_block info) (unchecked_info.verified info) = Some (node_ledger st, r)"
      "code r = Old"
  shows "safe_result ne g el st (process_one ne st info)"
proof (cases "fast_bootstrap ne")
  case True
  then show ?thesis using p inv reach by (simp add: process_one_def Let_def safe_result_def)
next
  case False
  obtain st' where st': "queue_unchecked ne st (hash_in ne info) = Some st'" "processor_inv ne st'" "node_ledger st' = node_ledger st"
    "\<not> fast_bootstrap ne \<Longrightarrow> store_unchecked st' = (\<lambda>k. if key_account k = hash_in ne info then None else store_unchecked st k)"
    by (rule queue_safe [OF inv, where h = "hash_in ne info"]) blast
  have "all_wait st'" if "all_wait st"
    by (rule wait_after_queue [OF that good good refl st'(4) [OF False] st'(3)])
  then show ?thesis using p False st'(1-3) reach by (simp add: process_one_def Let_def safe_result_def)
qed

lemma safe_fork_one:
  assumes inv: "processor_inv ne st" and reach: "reachable (node_ledger_env ne) g el (node_ledger st)"
    and p: "process (node_ledger_env ne) (node_ledger st) (unchecked_block info) (unchecked_info.verified info) = Some (node_ledger st, r)"
      "code r = Fork"
    and chain: "chain_inv (digest (node_ledger_env ne)) (view (store (node_ledger st)))"
    and own: "own_predecessor (store (node_ledger st)) (unchecked_block info)"
  shows "safe_result ne g el st (process_one ne st info)"
proof (cases "unchecked_modified info < now (node_ledger_env ne) - 15")
  case True
  obtain x where "process_fork ne st (unchecked_block info) = Some (st\<lparr>calls := x\<rparr>)"
    using safe_fork [OF p chain own] by blast
  then show ?thesis
    using p True fork_stat [of ne "st\<lparr>calls := x\<rparr>" "node_ledger_env ne" g el "node_ledger st"] inv reach
    by (simp add: process_one_def Let_def safe_result_def)
next
  case False
  then show ?thesis using p inv reach by (simp add: process_one_def Let_def safe_result_def)
qed

lemma process_one_safe:
  assumes inv: "processor_inv ne st" and ok: "item_ok ne (node_ledger st) info"
    and reach: "reachable (node_ledger_env ne) g el (node_ledger st)" and net: "network_ok (node_ledger_env ne) g el"
    and place: "placeable (node_ledger_env ne) (network_of (node_ledger_env ne) g el) (node_ledger st) info"
  shows "safe_result ne g el st (process_one ne st info)"
proof -
  let ?env = "node_ledger_env ne"
  let ?n = "network_of ?env g el"
  let ?b = "unchecked_block info"
  let ?l = "node_ledger st"
  obtain l r where p: "process ?env ?l ?b (unchecked_info.verified info) = Some (l, r)"
    and l: "reachable ?env g el l" "keeps ?l l" and same: "code r \<noteq> Progress \<Longrightarrow> l = ?l"
    and core: "\<And>x. x \<noteq> hash_in ne info \<Longrightarrow> core (lview l) x = core (lview ?l) x"
    by (rule process_item [OF reach net place ok]) blast
  have good: "good ?env ?n ?l" "good ?env ?n l"
    using network_good [OF reach net] network_good [OF l(1) net] .
  have chain: "chain_inv (digest ?env) (view (store ?l))"
    using good(1) by (simp add: good_def ledger_ok_def ledger_inv_def)
  have own: "own_predecessor (store ?l) ?b" using place by (simp add: placeable_def Let_def)
  consider (progress) "code r = Progress" | (gap) "code r \<in> {Gap_previous, Gap_source}" | (old) "code r = Old"
    | (fork) "code r = Fork" | (other) "code r \<notin> {Progress, Gap_previous, Gap_source, Old, Fork}" by blast
  then show ?thesis
  proof cases
    case progress
    show ?thesis by (rule safe_progress_one [OF inv p progress claim_right [OF p progress place ok] l good core])
  next
    case gap
    show ?thesis by (rule safe_gap_one [OF inv ok reach _ gap chain own]) (use p same gap in auto)
  next
    case old
    show ?thesis by (rule safe_old_one [OF inv reach good(1) _ old]) (use p same old in auto)
  next
    case fork
    show ?thesis by (rule safe_fork_one [OF inv reach _ fork chain own]) (use p same fork in auto)
  next
    case other
    then have "process_one ne st info = Some (st, r)"
      using p same by (cases "code r") (simp_all add: process_one_def Let_def)
    then show ?thesis using inv reach by (simp add: safe_result_def)
  qed
qed

section \<open>Winners of elections\<close>

lemma successor_returns:
  assumes good: "good env n l"
  obtains x where "ledger_successor (store l) p a = Some x"
    "\<And>c. x = Some c \<Longrightarrow> vblocks (lview l) (block_hash (digest env) c) \<noteq> None"
proof -
  let ?s = "store l"
  have chain: "chain_inv (digest env) (view ?s)" and fin: "finite (dom (account_get ?s))"
    using good by (simp_all add: good_def ledger_ok_def ledger_inv_def supply_inv_def)
  have stored: "vblocks (lview l) (block_hash (digest env) c) \<noteq> None" if "block_get ?s h = Some c" for h c
    using that chain_inv_block [OF chain, of h c] by (auto simp: block_get_view block_inv_def)
  obtain suc where suc: "(if p = 0 \<and> account_exists ?s a then map_option open_block (account_get ?s a)
      else Some (block_successor ?s p)) = Some suc" "suc = 0 \<or> block_get ?s suc \<noteq> None"
  proof (cases "p = 0 \<and> account_exists ?s a")
    case True
    then obtain i where i: "account_get ?s a = Some i" using account_exists_view [OF fin] by auto
    then have "block_get ?s (open_block i) \<noteq> None"
      using chain_inv_account [OF chain, of a i] by (auto simp: account_inv_def block_get_view)
    then show thesis using that [of "open_block i"] True i by simp
  next
    case False
    have "block_successor ?s p = 0 \<or> block_get ?s (block_successor ?s p) \<noteq> None"
      using chain_inv_block [OF chain, of p]
      by (auto simp: block_successor_view block_get_view block_inv_def split: option.splits)
    then show thesis using that [of "block_successor ?s p"] False by simp
  qed
  then have "ledger_successor ?s p a = Some (if suc \<noteq> 0 then block_get ?s suc else None)"
    unfolding ledger_successor_def by (auto simp: Let_def assert_def)
  then show thesis
  proof (rule that)
    fix c assume "(if suc \<noteq> 0 then block_get ?s suc else None) = Some c"
    then have "block_get ?s suc = Some c" by (simp split: if_splits)
    then show "vblocks (lview l) (block_hash (digest env) c) \<noteq> None" by (rule stored)
  qed
qed

lemma rival_safe:
  assumes inv: "processor_inv ne st" and reach: "reachable (node_ledger_env ne) g el (node_ledger st)"
    and net: "network_ok (node_ledger_env ne) g el"
    and rival: "\<And>c. ledger_successor (store (node_ledger st)) (previous b) (root b) = Some (Some c) \<Longrightarrow>
      hash_of ne c \<noteq> hash_of ne (Open_block g)"
  obtains st' where "roll_back_rival ne st b = Some st'" "processor_inv ne st'"
    "reachable (node_ledger_env ne) g el (node_ledger st')" "all_wait st \<Longrightarrow> all_wait st'"
    "epoch_signer (node_ledger st') = epoch_signer (node_ledger st)"
proof -
  let ?env = "node_ledger_env ne"
  let ?n = "network_of ?env g el"
  let ?l = "node_ledger st"
  have good: "good ?env ?n ?l" by (rule network_good [OF reach net])
  obtain x where x: "ledger_successor (store ?l) (previous b) (root b) = Some x"
    "\<And>c. x = Some c \<Longrightarrow> vblocks (lview ?l) (hash_of ne c) \<noteq> None"
    by (rule successor_returns [OF good]) blast
  show thesis
  proof (cases "\<exists>c. x = Some c \<and> hash_of ne c \<noteq> hash_of ne b")
    case False
    then show ?thesis using that [of st] x(1) inv reach by (auto simp: roll_back_rival_def Let_def split: option.splits)
  next
    case True
    then obtain c where c: "x = Some c" "hash_of ne c \<noteq> hash_of ne b" by blast
    have g: "hash_of ne c \<noteq> net_genesis ?n" using rival x(1) c(1) by (simp add: network_of_def)
    obtain l hs where l: "rollback_list ?env ?l (hash_of ne c) [] = Some (l, [] @ hs)" "good ?env ?n l" "keeps ?l l"
      "\<And>y. core (lview l) y = (if y \<in> set hs then None else core (lview ?l) y)"
      by (rule rollback_good [OF good x(2) [OF c(1)] g, of "[]"]) blast
    let ?st = "fold (\<lambda>h st. node_event st (Votes_cache_remove h)) hs (st\<lparr>node_ledger := l,
      rolled_back := rolled_insert (steady_clock ne) (hash_of ne c) (hash_of ne b) (rolled_back st)\<rparr>)"
    have "roll_back_rival ne st b = Some ?st" using x(1) c l(1) by (simp add: roll_back_rival_def Let_def)
    moreover have "processor_inv ne ?st"
      using inv item_ok_keeps [OF l(3)] by (simp add: processor_inv_def items_def fold_event_fields)
    moreover have "reachable ?env g el (node_ledger ?st)"
      using reachable_op [OF reach op_rollback [OF g, of "now ?env"]] l(1) by (simp add: fold_event_fields)
    moreover have "all_wait ?st" if "all_wait st"
      unfolding all_wait_def fold_event_fields
      by (auto simp: l(4) intro!: waits_stable [OF good l(2)] that [unfolded all_wait_def, rule_format] split: if_splits)
    moreover have "epoch_signer (node_ledger ?st) = epoch_signer ?l"
      by (simp add: fold_event_fields keeps_signer [OF l(3)])
    ultimately show ?thesis using that by blast
  qed
qed

definition next_placeable :: "node_env \<Rightarrow> open_hashables signed \<Rightarrow> uint256 \<Rightarrow> block_processor \<Rightarrow> bool" where
  "next_placeable ne g el st \<longleftrightarrow>
     (\<forall>b rest c. forced st = b # rest \<longrightarrow>
        ledger_successor (store (node_ledger st)) (previous b) (root b) = Some (Some c) \<longrightarrow>
        hash_of ne c \<noteq> hash_of ne (Open_block g)) \<and>
     (\<forall>st1 info. next_block ne st = Some (st1, info) \<longrightarrow>
        placeable (node_ledger_env ne) (network_of (node_ledger_env ne) g el) (node_ledger st1) info)"

lemma next_block_safe:
  assumes inv: "processor_inv ne st" and reach: "reachable (node_ledger_env ne) g el (node_ledger st)"
    and net: "network_ok (node_ledger_env ne) g el"
    and next_ok: "next_placeable ne g el st" "blocks st \<noteq> [] \<or> forced st \<noteq> []"
  obtains st1 info where "next_block ne st = Some (st1, info)" "processor_inv ne st1"
    "reachable (node_ledger_env ne) g el (node_ledger st1)" "item_ok ne (node_ledger st1) info"
    "all_wait st \<Longrightarrow> all_wait st1"
proof (cases "forced st")
  case Nil
  then obtain info rest where b: "blocks st = info # rest" using next_ok(2) by (cases "blocks st") auto
  let ?st = "st\<lparr>blocks := rest, blocks_hashes := blocks_hashes st - {hash_in ne info}\<rparr>"
  have "processor_inv ne ?st" using inv b by (simp add: processor_inv_def items_def)
  moreover have "item_ok ne (node_ledger ?st) info" using inv b by (simp add: processor_inv_def items_def)
  moreover have "next_block ne st = Some (?st, info)" using Nil b by (simp add: next_block_def)
  ultimately show ?thesis using that [of ?st info] reach by (simp add: all_wait_def)
next
  case (Cons b rest)
  let ?st = "st\<lparr>forced := rest\<rparr>"
  have inv': "processor_inv ne ?st" using inv Cons by (simp add: processor_inv_def items_def)
  have reach': "reachable (node_ledger_env ne) g el (node_ledger ?st)" using reach by simp
  obtain st1 where st1: "roll_back_rival ne ?st b = Some st1" "processor_inv ne st1"
    "reachable (node_ledger_env ne) g el (node_ledger st1)" "all_wait ?st \<Longrightarrow> all_wait st1"
    by (rule rival_safe [OF inv' reach' net]) (use next_ok(1) Cons in \<open>auto simp: next_placeable_def\<close>)
  let ?info = "\<lparr>unchecked_block = b, unchecked_account = 0, unchecked_modified = now (node_ledger_env ne),
    verified = Sv_unknown\<rparr>"
  have "item_ok ne (node_ledger st1) ?info"
    using inv Cons by (simp add: processor_inv_def item_ok_def flag_sound_def)
  moreover have "next_block ne st = Some (st1, ?info)" using Cons st1(1) by (simp add: next_block_def)
  ultimately show ?thesis using that [of st1 ?info] st1(2-4) by (simp add: all_wait_def)
qed

lemma process_next_safe:
  assumes inv: "processor_inv ne st" and reach: "reachable (node_ledger_env ne) g el (node_ledger st)"
    and net: "network_ok (node_ledger_env ne) g el"
    and next_ok: "next_placeable ne g el st" "blocks st \<noteq> [] \<or> forced st \<noteq> []"
  shows "\<exists>st'. process_next ne st = Some st' \<and> processor_inv ne st' \<and>
    reachable (node_ledger_env ne) g el (node_ledger st') \<and> (\<not> fast_bootstrap ne \<longrightarrow> all_wait st \<longrightarrow> all_wait st')"
proof -
  obtain st1 info where st1: "next_block ne st = Some (st1, info)" "processor_inv ne st1"
    "reachable (node_ledger_env ne) g el (node_ledger st1)" "item_ok ne (node_ledger st1) info"
    "all_wait st \<Longrightarrow> all_wait st1"
    by (rule next_block_safe [OF assms]) blast
  have "placeable (node_ledger_env ne) (network_of (node_ledger_env ne) g el) (node_ledger st1) info"
    using next_ok(1) st1(1) by (simp add: next_placeable_def)
  from process_one_safe [OF st1(2,4,3) net this]
  obtain st2 r where st2: "process_one ne st1 info = Some (st2, r)" "processor_inv ne st2"
    "reachable (node_ledger_env ne) g el (node_ledger st2)" "\<not> fast_bootstrap ne \<longrightarrow> all_wait st1 \<longrightarrow> all_wait st2"
    by (auto simp: safe_result_def)
  let ?st = "if blocks st2 = [] \<and> state_blocks st2 \<noteq> [] then verify_state_blocks ne st2 (batch_size ne 256) else st2"
  have "process_next ne st = Some ?st" using st1(1) st2(1) by (simp add: process_next_def)
  moreover have "processor_inv ne ?st" using st2(2) verify_inv by simp
  moreover have "node_ledger ?st = node_ledger st2" "store_unchecked ?st = store_unchecked st2"
    using verify_same [of st2 ne "batch_size ne 256"] by (simp_all add: same_outside_def)
  ultimately show ?thesis using st1(5) st2(3,4) by (simp add: all_wait_def)
qed

section \<open>Runs\<close>

text \<open>
  A run of the node: the worker verifies and processes, blocks arrive that have enough work and
  are not marked as verified, and elections name winners. The blocks processed are placeable.
\<close>

inductive node_step :: "node_env \<Rightarrow> open_hashables signed \<Rightarrow> uint256 \<Rightarrow> block_processor \<Rightarrow> block_processor \<Rightarrow> bool"
  for ne g el where
  node_verify: "node_step ne g el st (verify_state_blocks ne st n)"
| node_process:
    "blocks st \<noteq> [] \<or> forced st \<noteq> [] \<Longrightarrow> next_placeable (at_time ne t c recent) g el st \<Longrightarrow>
     process_next (at_time ne t c recent) st = Some st' \<Longrightarrow> node_step ne g el st st'"
| node_add:
    "has_work ne (unchecked_block info) \<Longrightarrow> unchecked_info.verified info = Sv_unknown \<Longrightarrow>
     type_of (unchecked_block info) \<in> {Bt_state, Bt_open} \<longrightarrow>
       unchecked_account info \<in> {0, account (unchecked_block info)} \<Longrightarrow>
     add ne st info = Some st' \<Longrightarrow> node_step ne g el st st'"
| node_force: "has_work ne b \<Longrightarrow> node_step ne g el st (force st b)"

lemma reachable_now_imp: "reachable env g el l \<Longrightarrow> reachable (env\<lparr>now := t\<rparr>) g el l"
proof (induction rule: reachable.induct)
  case (reachable_init t' s m bw sg)
  show ?case by (rule reachable.reachable_init [where t = t']) (use reachable_init in simp)
next
  case (reachable_op l l')
  have "ledger_op (env\<lparr>now := t\<rparr>) (network_of (env\<lparr>now := t\<rparr>) g el) l l'"
    using reachable_op(2)
  proof cases
    case (op_process b ver t' r)
    show ?thesis by (rule ledger_op.op_process [where t = t']) (use op_process in simp_all)
  next
    case (op_rollback h t' list list')
    show ?thesis by (rule ledger_op.op_rollback [where t = t']) (use op_rollback in simp_all)
  qed (auto intro: ledger_op.op_weight ledger_op.op_stat)
  then show ?case by (rule reachable.reachable_op [OF reachable_op(3)])
qed

lemma reachable_now [simp]: "reachable (env\<lparr>now := t\<rparr>) g el l = reachable env g el l"
  using reachable_now_imp [of env g el l t] reachable_now_imp [of "env\<lparr>now := t\<rparr>" g el l "now env"] by auto

lemma env_at_time: "node_ledger_env (at_time ne t c recent) = (node_ledger_env ne)\<lparr>now := t\<rparr>"
  by (simp add: at_time_def)

lemma fast_at_time [simp]: "fast_bootstrap (at_time ne t c recent) = fast_bootstrap ne"
  by (simp add: at_time_def)

lemma flag_sound_now [simp]: "flag_sound (env\<lparr>now := t\<rparr>) = flag_sound env"
  by (intro ext) (simp add: flag_sound_def validate_message_def)

lemma network_ok_now [simp]: "network_ok (env\<lparr>now := t\<rparr>) g el = network_ok env g el"
  by (simp add: network_ok_def)

lemma inv_at_time [simp]: "processor_inv (at_time ne t c recent) st = processor_inv ne st"
  by (simp add: processor_inv_def item_ok_def has_work_def env_at_time) (simp add: at_time_def)

definition run_inv :: "node_env \<Rightarrow> open_hashables signed \<Rightarrow> uint256 \<Rightarrow> block_processor \<Rightarrow> bool" where
  "run_inv ne g el st \<longleftrightarrow> processor_inv ne st \<and> reachable (node_ledger_env ne) g el (node_ledger st) \<and>
     (\<not> fast_bootstrap ne \<longrightarrow> all_wait st)"

lemma add_inv:
  assumes inv: "processor_inv ne st" and add: "add ne st info = Some st'"
    and ok: "item_ok ne (node_ledger st) info"
  shows "processor_inv ne st'"
  using inv add_items [OF add] add_same [OF add] ok by (auto simp: processor_inv_def same_outside_def)

lemma node_step_inv:
  assumes step: "node_step ne g el st st'" and inv: "run_inv ne g el st" and net: "network_ok (node_ledger_env ne) g el"
  shows "run_inv ne g el st'"
  using step
proof cases
  case (node_verify n)
  have "node_ledger st' = node_ledger st" "store_unchecked st' = store_unchecked st"
    using verify_same [of st ne n] by (simp_all add: same_outside_def node_verify)
  then show ?thesis using inv verify_inv node_verify by (simp add: run_inv_def all_wait_def)
next
  case (node_process t c recent)
  let ?ne = "at_time ne t c recent"
  have "processor_inv ?ne st" "reachable (node_ledger_env ?ne) g el (node_ledger st)" "network_ok (node_ledger_env ?ne) g el"
    using inv net by (simp_all add: run_inv_def env_at_time)
  from process_next_safe [OF this node_process(2,1)] show ?thesis
    using node_process(3) inv by (auto simp: run_inv_def env_at_time)
next
  case (node_add info)
  have ok: "item_ok ne (node_ledger st) info"
    using node_add(1-3) by (simp add: item_ok_def flag_sound_def)
  show ?thesis
    using add_inv [OF _ node_add(4) ok] add_same [OF node_add(4)] inv
    by (simp add: run_inv_def all_wait_def same_outside_def)
next
  case (node_force b)
  then show ?thesis using inv by (simp add: run_inv_def processor_inv_def all_wait_def force_def items_def)
qed

lemma init_inv:
  assumes "reachable (node_ledger_env ne) g el l"
  shows "run_inv ne g el (processor_init l Map.empty)"
  using assms
  by (simp add: run_inv_def processor_inv_def all_wait_def processor_init_def items_def unchecked_ok_def)

lemma node_run_inv:
  assumes "(node_step ne g el)\<^sup>*\<^sup>* (processor_init l Map.empty) st"
    and "reachable (node_ledger_env ne) g el l" "network_ok (node_ledger_env ne) g el"
  shows "run_inv ne g el st"
  using assms(1)
proof (induction rule: rtranclp_induct)
  case base
  show ?case by (rule init_inv [OF assms(2)])
next
  case (step st st')
  then show ?case using node_step_inv assms(3) by blast
qed

end
