(* ===== verification/Processor_Faults.thy ===== *)
theory Processor_Faults
  imports Processor_Queue
begin

text \<open>
  Two ways in which the block processor fails. A hash stays in \<open>blocks_hashes\<close> when its block is
  dropped for its signature, and then no block with that hash is ever queued again; and an
  item pulled for one account can carry a state block of another, whose signature is then
  checked against the wrong key.
\<close>

section \<open>Hashes that are never released\<close>

text \<open>The queues are accounted for: the hash of every queued block is in \<open>blocks_hashes\<close>.\<close>

definition queued :: "block_processor \<Rightarrow> unchecked_info set" where
  "queued st = set (blocks st) \<union> set (state_blocks st)"

definition hashes_ok :: "node_env \<Rightarrow> block_processor \<Rightarrow> bool" where
  "hashes_ok ne st \<longleftrightarrow> hash_in ne ` queued st \<subseteq> blocks_hashes st"

text \<open>A hash that is taken although no queued block has it.\<close>

definition stranded :: "node_env \<Rightarrow> uint256 \<Rightarrow> block_processor \<Rightarrow> bool" where
  "stranded ne h st \<longleftrightarrow> h \<in> blocks_hashes st \<and> h \<notin> hash_in ne ` queued st"

lemma stranded_ignored:
  assumes "stranded ne h st" "hash_in ne info = h" "\<not> work_validate (node_work ne) (node_network ne) (unchecked_block info)"
  shows "add ne st info = Some st"
  using assms by (simp add: stranded_def add_def Let_def)

lemma stranded_add:
  assumes "add ne st info = Some st'" "stranded ne h st"
  shows "stranded ne h st'"
  using assms(1)
  by (cases rule: add_cases) (use assms(2) in \<open>auto simp: stranded_def queued_def\<close>)

lemma stranded_same:
  assumes "blocks st' = blocks st" "state_blocks st' = state_blocks st" "blocks_hashes st' = blocks_hashes st"
  shows "stranded ne h st' = stranded ne h st"
  using assms by (simp add: stranded_def queued_def)

lemma stranded_queue_infos:
  "queue_infos ne d infos st = Some st' \<Longrightarrow> stranded ne h st \<Longrightarrow> stranded ne h st'"
proof (induction infos arbitrary: st)
  case (Cons info infos)
  let ?st = "if \<not> fast_bootstrap ne
    then st\<lparr>store_unchecked := unchecked_del (store_unchecked st) (Pending_key d (hash_in ne info))\<rparr> else st"
  obtain st1 where st1: "add ne ?st info = Some st1" and run: "queue_infos ne d infos st1 = Some st'"
    using Cons.prems by (auto simp: Let_def bind_eq_Some_conv)
  have "stranded ne h ?st" using Cons.prems(2) by (simp add: stranded_def queued_def)
  then show ?case using Cons.IH [OF run] stranded_add [OF st1] by blast
qed simp

lemma stranded_event [simp]: "stranded ne h (node_event st c) = stranded ne h st"
  by (simp add: stranded_def queued_def)

lemma stranded_queue_unchecked:
  "queue_unchecked ne st d = Some st' \<Longrightarrow> stranded ne h st \<Longrightarrow> stranded ne h st'"
  by (auto simp: queue_unchecked_def bind_eq_Some_conv dest: stranded_queue_infos)

lemma stranded_ledger [simp]: "stranded ne h (st\<lparr>node_ledger := l\<rparr>) = stranded ne h st"
  by (simp add: stranded_def queued_def)

lemma stranded_process_one:
  assumes "process_one ne st info = Some (st', r)" "stranded ne h st"
  shows "stranded ne h st'"
  using assms(1)
proof (cases rule: process_one_cases)
  case (progress l st1)
  then have "stranded ne h st1" using assms(2) by auto
  then show ?thesis using stranded_queue_unchecked [OF progress(5)] by blast
next
  case (old l st1)
  then show ?thesis using assms(2) stranded_queue_unchecked [of ne "st\<lparr>node_ledger := l\<rparr>"]
    by (cases "fast_bootstrap ne") auto
qed (use assms(2) in \<open>auto simp: stranded_def queued_def gap_put_fields\<close>)

lemma stranded_verify:
  assumes "stranded ne h st"
  shows "stranded ne h (verify_state_blocks ne1 st n)"
proof -
  let ?l = "node_ledger st"
  let ?items = "filter (\<lambda>i. \<not> block_exists_type (store ?l) (type_of (unchecked_block i)) (hash_in ne1 i))
    (take n (state_blocks st))"
  have "unchecked_block ` queued (verify_state_blocks ne1 st n) \<subseteq> unchecked_block ` queued st"
    using map_filter_blocks [of ne1 ?l ?items]
    by (auto simp: queued_def verify_state_blocks_def Let_def dest: in_set_takeD in_set_dropD)
  then have "hash_of ne ` unchecked_block ` queued (verify_state_blocks ne1 st n) \<subseteq>
      hash_of ne ` unchecked_block ` queued st" by (rule image_mono)
  then have "hash_in ne ` queued (verify_state_blocks ne1 st n) \<subseteq> hash_in ne ` queued st"
    by (simp add: image_image)
  then show ?thesis using assms verify_same [of st ne1 n] by (auto simp: stranded_def)
qed

lemma stranded_at_time [simp]: "stranded (at_time ne t c recent) h st = stranded ne h st"
  by (simp add: stranded_def)

lemma stranded_process_next:
  assumes run: "process_next ne st = Some st'" and "stranded ne h st"
  shows "stranded ne h st'"
proof (cases "forced st = []")
  case True
  obtain info rest st0 st1 r where b: "blocks st = info # rest"
    and st0: "st0 = st\<lparr>blocks := rest, blocks_hashes := blocks_hashes st - {hash_in ne info}\<rparr>"
    and one: "process_one ne st0 info = Some (st1, r)"
    and st': "st' = (if blocks st1 = [] \<and> state_blocks st1 \<noteq> [] then verify_state_blocks ne st1 (batch_size ne 256) else st1)"
    by (rule process_next_queue [OF run True])
  have "stranded ne h st0" using assms(2) by (auto simp: stranded_def queued_def st0 b)
  then show ?thesis using stranded_process_one [OF one] stranded_verify by (simp add: st')
next
  case False
  obtain b rest st0 st1 r where rival: "roll_back_rival ne (st\<lparr>forced := rest\<rparr>) b = Some st0"
    and one: "process_one ne st0 \<lparr>unchecked_block = b, unchecked_account = 0,
       unchecked_modified = now (node_ledger_env ne), verified = Sv_unknown\<rparr> = Some (st1, r)"
    and st': "st' = (if blocks st1 = [] \<and> state_blocks st1 \<noteq> [] then verify_state_blocks ne st1 (batch_size ne 256) else st1)"
    by (rule process_next_forced [OF run False]) blast
  have "stranded ne h st0" using assms(2) rival_fields [OF rival] by (simp add: stranded_def queued_def)
  then show ?thesis using stranded_process_one [OF one] stranded_verify by (simp add: st')
qed

text \<open>Nothing the node does gives the hash back.\<close>

lemma stranded_step:
  assumes "processor_step ne st st'" "stranded ne h st"
  shows "stranded ne h st'"
  using assms(1)
proof (cases rule: processor_step.cases)
  case step_worker
  then show ?thesis
  proof (cases rule: worker_step.cases)
    case worker_verify
    then show ?thesis using stranded_verify assms(2) by simp
  next
    case (worker_process t c recent)
    then show ?thesis using stranded_process_next [of "at_time ne t c recent"] assms(2) by simp
  qed
next
  case (step_add info)
  then show ?thesis using stranded_add assms(2) by blast
next
  case (step_force b)
  then show ?thesis using assms(2) by (simp add: stranded_def queued_def force_def)
qed

lemma stranded_run: "(processor_step ne)\<^sup>*\<^sup>* st st' \<Longrightarrow> stranded ne h st \<Longrightarrow> stranded ne h st'"
  by (induction rule: rtranclp_induct) (auto intro: stranded_step)

text \<open>A state block with a bad signature strands its hash.\<close>

lemma forged_stranded:
  assumes ok: "hashes_ok ne st" and new: "hash_in ne forged \<notin> blocks_hashes st"
    and forged: "type_of (unchecked_block forged) = Bt_state" "unchecked_info.verified forged = Sv_unknown"
      "\<not> has_epoch_link (node_ledger st) forged"
      "validate_message (node_ledger_env ne) (verify_account (node_ledger st) forged) (hash_in ne forged)
         (block_signature (unchecked_block forged))"
    and add: "add ne st forged = Some st1" "st1 \<noteq> st" and n: "length (state_blocks st) < n"
  shows "stranded ne (hash_in ne forged) (verify_state_blocks ne st1 n)"
proof -
  let ?h = "hash_in ne forged"
  let ?l = "node_ledger st"
  have st1: "st1 = st\<lparr>state_blocks := state_blocks st @ [forged], blocks_hashes := insert ?h (blocks_hashes st)\<rparr>"
    using add(1) by (rule add_cases) (use add(2) forged in auto)
  let ?items = "filter (\<lambda>i. \<not> block_exists_type (store ?l) (type_of (unchecked_block i)) (hash_in ne i))
    (state_blocks st @ [forged])"
  have take: "take n (state_blocks st @ [forged]) = state_blocks st @ [forged]"
    "drop n (state_blocks st @ [forged]) = []" using n by simp_all
  have "verify_item ne ?l forged = None" using forged by (simp add: verify_item_def Let_def)
  then have "unchecked_block ` set (List.map_filter (verify_item ne ?l) ?items) \<subseteq> unchecked_block ` set (state_blocks st)"
    using verify_item_block [of ne ?l] by (force simp: List.map_filter_def)
  moreover have "queued (verify_state_blocks ne st1 n) =
      set (blocks st) \<union> set (List.map_filter (verify_item ne ?l) ?items)"
    by (simp add: queued_def verify_state_blocks_def st1 take Let_def del: take_append drop_append filter_append)
  ultimately have "unchecked_block ` queued (verify_state_blocks ne st1 n) \<subseteq> unchecked_block ` queued st"
    unfolding queued_def [of st] by (simp only: image_Un) blast
  then have "hash_of ne ` unchecked_block ` queued (verify_state_blocks ne st1 n) \<subseteq>
      hash_of ne ` unchecked_block ` queued st" by (rule image_mono)
  then have "hash_in ne ` queued (verify_state_blocks ne st1 n) \<subseteq> blocks_hashes st"
    using ok by (simp add: image_image hashes_ok_def)
  then show ?thesis using new by (auto simp: stranded_def verify_state_blocks_def st1 Let_def)
qed

section \<open>Blocks pulled for another account\<close>

text \<open>
  The signature of a state block pulled for account \<open>a\<close> is checked against \<open>a\<close>, whatever account
  the block names; a block of another account signed with the key of \<open>a\<close> is marked valid, and
  the ledger's own assertion on the signature fails.
\<close>

lemma claimed_block_aborts:
  assumes b: "unchecked_block i = State_block b" "unchecked_info.verified i = Sv_valid"
    and link: "\<not> has_epoch_link l i"
    and new: "\<not> block_exists_type (store l) Bt_state (hash_in ne i)"
    and bad: "validate_message (node_ledger_env ne) (state_account (hashables b)) (hash_in ne i) (signature b)"
    and st: "node_ledger st = l"
  shows "process_one ne st i = None"
proof -
  let ?env = "node_ledger_env ne"
  have "epoch_block_check ?env l (process_return_init Sv_valid) b = Some ((process_return_init Sv_valid)\<lparr>code := Progress\<rparr>, False)"
    using link by (auto simp: epoch_block_check_def has_epoch_link_def is_epoch_link_def b Let_def)
  then have "process ?env l (State_block b) Sv_valid = None"
    using new bad
    by (simp add: process_def state_block_process_def state_block_impl_def process_return_init_def b Let_def)
  then show ?thesis by (simp add: process_one_def b st)
qed

lemma claimed_block_marked:
  assumes "unchecked_account i \<noteq> 0" "\<not> has_epoch_link l i"
    and "\<not> validate_message (node_ledger_env ne) (unchecked_account i) (hash_in ne i) (block_signature (unchecked_block i))"
  shows "verify_item ne l i = Some (i\<lparr>unchecked_info.verified := Sv_valid\<rparr>)"
  using assms by (simp add: verify_item_def verify_account_def)

end
