(* ===== verification/Examples.thy ===== *)
theory Examples
  imports Queries Epoch_Abort Message_Delivery Processor_Safe Processor_Faults
begin

text \<open>
  A small network on which the hypotheses of the properties hold: its hash is the length of
  the hashed bytes, which tells the blocks below apart (of the state blocks, one whose link
  ends in 7 has a hash of its own), and every signature is good.
\<close>

definition ex_env :: env where
  "ex_env = \<lparr>digest = (\<lambda>bs. if length bs = 176 \<and> last bs = 7 then 177 else word_of_nat (length bs)),
      ed25519_sign_open = (\<lambda>_ _ _. True),
     genesis_account = 1, now = 7\<rparr>"

definition ex_genesis :: "open_hashables signed" where
  "ex_genesis = \<lparr>hashables = \<lparr>open_source = 1, open_representative = 1, open_account = 1\<rparr>,
     signature = 0, work = 0\<rparr>"

definition ex_store :: store where
  "ex_store = the (initialize ex_env store_init (Open_block ex_genesis))"

definition ex_ledger :: ledger where
  "ex_ledger = ledger_init ex_store stat_init 0 5 6"

text \<open>The genesis account sends 100 to account 2.\<close>

definition ex_send :: block where
  "ex_send = Send_block \<lparr>hashables = \<lparr>send_previous = 96, send_destination = 2,
     send_balance = genesis_amount - 100\<rparr>, signature = 0, work = 0\<rparr>"

lemma last_be_bytes: "last (be_bytes (w :: uint256)) = ucast w"
proof -
  have "hd (le_digits (Suc k) (unat w)) = ucast w" for k by (simp add: of_nat_unat)
  from this [of 31] have "hd (le_digits 32 (unat w)) = ucast w" by simp
  then show ?thesis by (simp add: be_bytes_def le_bytes_def last_rev)
qed

lemma ex_hash:
  "block_hash (digest ex_env) b =
     (case b of Send_block _ \<Rightarrow> 80 | Receive_block _ \<Rightarrow> 64 | Open_block _ \<Rightarrow> 96 | Change_block _ \<Rightarrow> 64
      | State_block b \<Rightarrow> if ucast (state_link (hashables b)) = (7 :: byte) then 177 else 176)"
proof -
  have "last (hash_input (State_block sb)) = ucast (state_link (hashables sb))" for sb
    using length_be_bytes [of "state_link (hashables sb)"]
    by (simp add: state_hashables_hash_def last_be_bytes last_append del: length_be_bytes) fastforce
  then show ?thesis
    unfolding block_hash_def using hash_input_length [of b] by (cases b) (simp_all add: ex_env_def)
qed

lemma ex_genesis_hash: "block_hash (digest ex_env) (Open_block ex_genesis) = 96"
  by (simp add: ex_hash)

lemma ex_genesis_ok: "genesis_ok ex_env ex_genesis"
  by (simp add: genesis_ok_def ex_genesis_hash) (simp add: ex_genesis_def ex_env_def)

lemma ex_store_ok: "store_ok ex_store" "view ex_store = genesis_view ex_env ex_genesis"
  using initialize_view [OF ex_genesis_ok] by (metis ex_store_def option.sel)+

lemma ex_store_get:
  "block_get_sideband ex_store =
     [96 \<mapsto> (Open_block ex_genesis, sideband_stored (genesis_sideband ex_env))]"
  "account_get ex_store = [1 \<mapsto> \<lparr>head = 96, rep_block = 96, open_block = 96,
     info_balance = genesis_amount, modified = 7, block_count = 1, info_epoch = Epoch_0\<rparr>]"
  "pending_get ex_store = Map.empty" "frontiers ex_store = [96 \<mapsto> 1]"
  using ex_store_ok(2) [THEN arg_cong, of vblocks] ex_store_ok(2) [THEN arg_cong, of vaccounts]
    ex_store_ok(2) [THEN arg_cong, of vpending] ex_store_ok(2) [THEN arg_cong, of vfrontiers]
  by (simp_all add: genesis_view_def Let_def ex_genesis_hash) (simp_all add: ex_env_def)

lemma store_ex_ledger [simp]: "store ex_ledger = ex_store"
  by (simp add: ex_ledger_def ledger_init_def)

lemma ex_collision_free:
  "\<forall>g. b \<noteq> Open_block g \<Longrightarrow> collision_free (digest ex_env) (view ex_store) b"
  by (cases b) (auto simp: collision_free_def ex_hash ex_store_get split: if_splits)

lemma ex_ledger_ok: "ledger_ok ex_env ex_ledger"
  using ex_store_ok genesis_view_inv [OF ex_genesis_ok]
  by (simp add: ledger_ok_def)

lemma ex_send_hash: "block_hash (digest ex_env) ex_send = 80"
  by (simp add: ex_hash ex_send_def)

section \<open>Reachable ledgers\<close>

abbreviation ex_network :: network where
  "ex_network \<equiv> network_of ex_env ex_genesis 5"

lemma ex_now: "ex_env\<lparr>now := 7\<rparr> = ex_env"
  by (simp add: ex_env_def)

lemma ex_network_ok: "network_ok ex_env ex_genesis 5"
  by (simp add: network_ok_def ex_genesis_ok hash_apart_def ex_genesis_hash)
    (simp add: network_of_def ex_env_def)

lemma ex_reachable: "reachable ex_env ex_genesis 5 ex_ledger"
proof -
  have "initialize (ex_env\<lparr>now := 7\<rparr>) store_init (Open_block ex_genesis) = Some ex_store"
    using initialize_view [OF ex_genesis_ok] by (metis ex_now ex_store_def option.sel)
  from reachable_init [OF this, of 5 0 Map.empty 6] show ?thesis
    by (simp add: ex_ledger_def ledger_init_def)
qed

lemma ex_good: "good ex_env ex_network ex_ledger"
  by (rule network_good [OF ex_reachable ex_network_ok])

text \<open>A send of the genesis account that leaves it the balance \<open>x\<close>.\<close>

definition ex_send_to :: "uint128 \<Rightarrow> block" where
  "ex_send_to x = Send_block \<lparr>hashables = \<lparr>send_previous = 96, send_destination = 2,
     send_balance = x\<rparr>, signature = 0, work = 0\<rparr>"

lemma ex_send_to_hash: "block_hash (digest ex_env) (ex_send_to x) = 80"
  by (simp add: ex_hash ex_send_to_def)

lemma ex_send_to_admissible: "admissible ex_env ex_network ex_ledger (ex_send_to x) Sv_unknown"
proof -
  have "hash_apart ex_network 80" by (simp add: hash_apart_def network_of_def ex_env_def)
  moreover have "collision_free (digest ex_env) (lview ex_ledger) (ex_send_to x)"
    using ex_collision_free [of "ex_send_to x"] by (simp add: ex_send_to_def)
  moreover have "verification_sound ex_env ex_ledger (ex_send_to x) Sv_unknown" "epoch_placed ex_ledger (ex_send_to x)"
    by (simp_all add: verification_sound_def epoch_placed_def ex_send_to_def)
  ultimately show ?thesis by (simp add: admissible_def ex_send_to_hash)
qed

lemma ex_send_to_accepted:
  "accepts ex_env ex_ledger (lview ex_ledger) (ex_send_to x) (send_view ex_env (lview ex_ledger) 1
     \<lparr>head = 96, rep_block = 96, open_block = 96, info_balance = genesis_amount, modified = 7, block_count = 1,
       info_epoch = Epoch_0\<rparr>
     \<lparr>hashables = \<lparr>send_previous = 96, send_destination = 2, send_balance = x\<rparr>, signature = 0, work = 0\<rparr>)"
  unfolding ex_send_to_def
  by (rule accept_send) (simp_all add: ex_store_get signed_by_def validate_message_def ex_env_def genesis_amount_def)

text \<open>The ledger after that send.\<close>

definition ex_after :: "uint128 \<Rightarrow> ledger \<Rightarrow> bool" where
  "ex_after x l \<longleftrightarrow>
     block_get_sideband (store l) = [
       96 \<mapsto> (Open_block ex_genesis, (sideband_stored (genesis_sideband ex_env))\<lparr>successor := 80\<rparr>),
       80 \<mapsto> (ex_send_to x, sideband_stored (sideband_for ex_env Bt_send 1 x 2))] \<and>
     account_get (store l) = [1 \<mapsto> \<lparr>head = 80, rep_block = 96, open_block = 96, info_balance = x, modified = 7,
       block_count = 2, info_epoch = Epoch_0\<rparr>] \<and>
     pending_get (store l) = [Pending_key 2 80 \<mapsto>
       \<lparr>pending_source = 1, pending_amount = genesis_amount - x, pending_epoch = Epoch_0\<rparr>] \<and>
     frontiers (store l) = [80 \<mapsto> 1] \<and> epoch_link l = 5"

lemma ex_sent:
  obtains l r where "process ex_env ex_ledger (ex_send_to x) Sv_unknown = Some (l, r)" "code r = Progress"
    "good ex_env ex_network l" "reachable ex_env ex_genesis 5 l" "ex_after x l"
proof -
  obtain l r where run: "process ex_env ex_ledger (ex_send_to x) Sv_unknown = Some (l, r)" "good ex_env ex_network l"
    "code r = Progress \<Longrightarrow> accepts ex_env ex_ledger (lview ex_ledger) (ex_send_to x) (lview l)"
    by (rule process_good [OF ex_good ex_send_to_admissible]) blast
  have fresh: "vblocks (lview ex_ledger) (block_hash (digest ex_env) (ex_send_to x)) = None"
    by (simp add: ex_send_to_hash ex_store_get)
  have code: "code r = Progress"
    by (rule process_progress [OF ex_good ex_send_to_accepted fresh run(1)])
  from run(3) [OF code] obtain a i where v: "lview l = send_view ex_env (lview ex_ledger) a i
      \<lparr>hashables = \<lparr>send_previous = 96, send_destination = 2, send_balance = x\<rparr>, signature = 0, work = 0\<rparr>"
    "frontiers ex_store 96 = Some a" "account_get ex_store a = Some i" unfolding ex_send_to_def by cases auto
  have a: "a = 1" "i = \<lparr>head = 96, rep_block = 96, open_block = 96, info_balance = genesis_amount, modified = 7,
      block_count = 1, info_epoch = Epoch_0\<rparr>" using v(2,3) by (auto simp: ex_store_get)
  have tables: "block_get_sideband (store l) = vblocks (lview l)" "account_get (store l) = vaccounts (lview l)"
    "pending_get (store l) = vpending (lview l)" "frontiers (store l) = vfrontiers (lview l)" by simp_all
  have h: "block_hash (digest ex_env) (Send_block \<lparr>hashables = \<lparr>send_previous = 96, send_destination = 2,
      send_balance = x\<rparr>, signature = 0, work = 0\<rparr>) = 80" by (simp add: ex_hash)
  have link: "epoch_link l = 5" using run(2) by (simp add: good_def network_of_def)
  have "ex_after x l"
    unfolding ex_after_def tables v(1) send_view_def Let_def h
    by (simp add: vextend_def vblock_put_def entry_link_def ex_store_get a info_next_def link legacy_def)
      (auto simp: ex_send_to_def ex_env_def fun_eq_iff sideband_for_def)
  moreover have "reachable ex_env ex_genesis 5 l"
    by (rule reachable_op [OF ex_reachable op_process [OF ex_send_to_admissible [of x], of 7]]) (simp add: ex_now run(1))
  ultimately show ?thesis using that run code by blast
qed

text \<open>Account 2 opens with a state block that receives the send.\<close>

definition ex_receive :: "uint128 \<Rightarrow> state_hashables signed" where
  "ex_receive x = \<lparr>hashables = \<lparr>state_account = 2, state_previous = 0, state_representative = 2,
     state_balance = genesis_amount - x, state_link = 80\<rparr>, signature = 0, work = 0\<rparr>"

lemma ex_receive_hash: "block_hash (digest ex_env) (State_block (ex_receive x)) = 176"
  by (simp add: ex_hash ex_receive_def)

lemma ex_signed: "signed_by ex_env a b"
  by (simp add: signed_by_def validate_message_def ex_env_def)

lemma ex_receive_admissible:
  assumes "ex_after x l"
  shows "admissible ex_env ex_network l (State_block (ex_receive x)) Sv_unknown"
proof -
  have "hash_apart ex_network 176" by (simp add: hash_apart_def network_of_def ex_env_def)
  moreover have "collision_free (digest ex_env) (lview l) (State_block (ex_receive x))"
    using assms by (auto simp: collision_free_def ex_receive_hash ex_genesis_hash ex_send_to_hash ex_after_def split: if_splits)
  moreover have "verification_sound ex_env l (State_block (ex_receive x)) Sv_unknown" "epoch_placed l (State_block (ex_receive x))"
    by (simp_all add: verification_sound_def epoch_placed_def ex_receive_def)
  ultimately show ?thesis by (simp add: admissible_def ex_receive_hash)
qed

lemma ex_receiving:
  assumes "ex_after x l"
  shows "hashables (ex_receive x) = receiving (store l) 2 80 (genesis_amount - x) 2"
  using assms by (simp add: ex_receive_def receiving_def ex_after_def latest_def account_balance_def)

lemma state_accepts_shape:
  assumes "accepts env l v (State_block b) v'"
  shows "\<exists>sb e i pend wt. v' = vextend v (state_account (hashables b)) (block_hash (digest env) (State_block b))
    (State_block b) sb e i pend wt \<and> head i = block_hash (digest env) (State_block b)"
  using assms by cases (simp_all add: state_view_def epoch_view_def Let_def info_next_def, (rule exI conjI refl | simp)+)

lemma ex_received:
  obtains l l' r where "reachable ex_env ex_genesis 5 l" "ex_after x l"
    "process ex_env l (State_block (ex_receive x)) Sv_unknown = Some (l', r)" "code r = Progress"
    "good ex_env ex_network l'" "reachable ex_env ex_genesis 5 l'" "epoch_link l' = 5"
    "\<exists>i. account_get (store l') 2 = Some i \<and> head i = 176"
    "\<exists>sb. block_get_sideband (store l') 80 = Some (ex_send_to x, sb) \<and> successor sb = 0"
    "account_get (store l') 80 = None" "block_get_sideband (store l') 177 = None"
proof -
  obtain l r where l: "good ex_env ex_network l" "reachable ex_env ex_genesis 5 l" "ex_after x l"
    by (rule ex_sent)
  note adm = ex_receive_admissible [OF l(3)] and ex = l(3) [unfolded ex_after_def]
  let ?p = "\<lparr>pending_source = 1, pending_amount = genesis_amount - x, pending_epoch = Epoch_0\<rparr>"
  have p: "pending_get (store l) (Pending_key 2 80) = Some ?p" using ex by simp
  have b: "hashables (ex_receive x) = receiving (store l) 2 80 (pending_amount ?p) 2" using ex_receiving [OF l(3)] by simp
  have fresh: "vblocks (lview l) (block_hash (digest ex_env) (State_block (ex_receive x))) = None"
    using ex by (simp add: ex_receive_hash)
  obtain l' r where run: "process ex_env l (State_block (ex_receive x)) Sv_unknown = Some (l', r)" "good ex_env ex_network l'"
    "code r = Progress \<Longrightarrow> accepts ex_env l (lview l) (State_block (ex_receive x)) (lview l')"
    by (rule process_good [OF l(1) adm]) blast
  obtain v where "accepts ex_env l (lview l) (State_block (ex_receive x)) v"
    using receive_accepted [OF l(1) p _ b ex_signed] by auto
  then have code: "code r = Progress" by (rule process_progress [OF l(1) _ fresh run(1)])
  have "state_account (hashables (ex_receive x)) = 2" by (simp add: ex_receive_def)
  with state_accepts_shape [OF run(3) [OF code]] obtain sb e i pend wt where
    v: "lview l' = vextend (lview l) 2 176 (State_block (ex_receive x)) sb e i pend wt" "head i = 176"
    unfolding ex_receive_hash by metis
  have tables: "block_get_sideband (store l') = vblocks (lview l')" "account_get (store l') = vaccounts (lview l')" by simp_all
  have "\<exists>i. account_get (store l') 2 = Some i \<and> head i = 176" "account_get (store l') 80 = None"
    "\<exists>sb. block_get_sideband (store l') 80 = Some (ex_send_to x, sb) \<and> successor sb = 0" "block_get_sideband (store l') 177 = None"
    unfolding tables v(1)
    using ex v by (simp_all add: vextend_def vblock_put_def entry_link_def ex_receive_def sideband_for_def sideband_stored_def
        sideband_read_back_def)
  moreover have "reachable ex_env ex_genesis 5 l'"
    by (rule reachable_op [OF l(2) op_process [OF adm, of 7]]) (simp add: ex_now run(1))
  moreover have "epoch_link l' = 5" using run(2) by (simp add: good_def network_of_def)
  ultimately show ?thesis using that l(2,3) run(1,2) code by blast
qed

section \<open>Messages\<close>

text \<open>A parser with nothing alive, for which every block has enough work.\<close>

definition ex_parser :: parser where
  "ex_parser = \<lparr>parser_network = Nano_live_network, parser_digest = digest ex_env, parser_work = (\<lambda>_. - 1),
     parser_uniquers = \<lparr>live_blocks = Map.empty, live_votes = Map.empty\<rparr>\<rparr>"

lemma ex_uniquers: "uniquers_sound (parser_digest ex_parser) (parser_uniquers ex_parser)"
  by (simp add: uniquers_sound_def ex_parser_def)

lemma ex_work: "\<not> lacks_work ex_parser b"
  by (simp add: work_validate_def work_value_def ex_parser_def not_less)

definition ex_datagram :: stream where
  "ex_datagram = publish_serialize Nano_live_network (publish_make ex_send)"

lemma ex_datagram_length: "length ex_datagram = 160"
  using length_serialize [of ex_send] by (simp add: ex_datagram_def publish_serialize_def publish_make_def ex_send_def)

lemma ex_datagram_image:
  "message_serialize H (parser_network ex_parser) (Publish_msg (publish_make ex_send)) = Some ex_datagram"
  by (simp add: message_serialize_def ex_datagram_def ex_parser_def)

section \<open>The block processor\<close>

text \<open>
  A node on the network above, for which every block has enough work, and one where a signature
  is good when it is the number of the account.
\<close>

definition ex_node :: node_env where
  "ex_node = \<lparr>node_ledger_env = ex_env, node_work = (\<lambda>_. - 1), node_network = Nano_live_network,
     fast_bootstrap = False, signature_checker_threads = 3, arrival_recent = (\<lambda>_. False), steady_clock = 0\<rparr>"

definition ex_keyed_node :: node_env where
  "ex_keyed_node = ex_node\<lparr>node_ledger_env := ex_env\<lparr>ed25519_sign_open := (\<lambda>_ a sig. ucast sig = a)\<rparr>\<rparr>"

definition ex_item :: "block \<Rightarrow> uint256 \<Rightarrow> unchecked_info" where
  "ex_item b a = \<lparr>unchecked_block = b, unchecked_account = a, unchecked_modified = 7, verified = Sv_unknown\<rparr>"

text \<open>A send on a block 9 that is not stored.\<close>

definition ex_gap :: block where
  "ex_gap = Send_block \<lparr>hashables = \<lparr>send_previous = 9, send_destination = 2, send_balance = 0\<rparr>,
     signature = 0, work = 0\<rparr>"

definition ex_start :: block_processor where
  "ex_start = processor_init ex_ledger Map.empty"

definition ex_queued :: block_processor where
  "ex_queued = ex_start\<lparr>blocks := [ex_item ex_gap 0], blocks_hashes := {80}\<rparr>"

lemma ex_node_simps [simp]:
  "node_ledger_env ex_node = ex_env" "fast_bootstrap ex_node = False"
  "arrival_recent ex_node = (\<lambda>_. False)"
  by (simp_all add: ex_node_def)

lemma ex_has_work: "has_work ex_node b" "\<not> work_validate (node_work ex_keyed_node) (node_network ex_keyed_node) b"
  by (simp_all add: has_work_def work_validate_def work_value_def ex_node_def ex_keyed_node_def not_less)

lemma ex_gap_hash: "block_hash (digest ex_env) ex_gap = 80"
  by (simp add: ex_hash ex_gap_def)

lemma ex_start_fields [simp]:
  "node_ledger ex_start = ex_ledger" "store_unchecked ex_start = Map.empty" "state_blocks ex_start = []"
  "blocks ex_start = []" "blocks_hashes ex_start = {}" "forced ex_start = []" "rolled_back ex_start = []"
  by (simp_all add: ex_start_def processor_init_def)

lemma ex_add: "add ex_node ex_start (ex_item ex_gap 0) = Some ex_queued"
  using ex_has_work(1) [of ex_gap]
  by (simp add: add_def ex_item_def has_work_def ex_gap_hash ex_queued_def) (simp add: ex_gap_def)

lemma ex_queued_run: "(node_step ex_node ex_genesis 5)\<^sup>*\<^sup>* (processor_init ex_ledger Map.empty) ex_queued"
proof -
  have "node_step ex_node ex_genesis 5 ex_start ex_queued"
    by (rule node_add [OF _ _ _ ex_add]) (simp_all add: ex_has_work ex_item_def ex_gap_def)
  then show ?thesis unfolding ex_start_def by blast
qed

lemma ex_gap_placeable: "placeable ex_env ex_network ex_ledger (ex_item ex_gap 0)"
proof -
  have "hash_apart ex_network 80" by (simp add: hash_apart_def network_of_def ex_env_def)
  moreover have "collision_free (digest ex_env) (lview ex_ledger) ex_gap"
    using ex_collision_free [of ex_gap] by (simp add: ex_gap_def)
  ultimately show ?thesis
    by (simp add: placeable_def ex_item_def ex_gap_hash Let_def epoch_placed_def own_predecessor_def
        verification_sound_def) (simp add: ex_gap_def)
qed

lemma ex_at_time: "at_time ex_node 7 0 (\<lambda>_. False) = ex_node"
  by (simp add: at_time_def ex_now) (simp add: ex_node_def)

lemma ex_next_placeable: "next_placeable ex_node ex_genesis 5 ex_queued"
  using ex_gap_placeable by (simp add: next_placeable_def next_block_def ex_queued_def)

lemma ex_gap_process:
  "process ex_env ex_ledger ex_gap Sv_unknown = Some (ex_ledger, (process_return_init Sv_unknown)\<lparr>code := Gap_previous\<rparr>)"
proof -
  have "blocks_ok (store ex_ledger)" using ex_ledger_ok by (simp add: ledger_ok_def store_ok_def)
  then have "\<not> block_exists_type (store ex_ledger) Bt_send 80"
    using block_exists_type_view [of "store ex_ledger" ex_gap 80] by (simp add: ex_gap_def ex_store_get)
  then show ?thesis
    using ex_gap_hash
    by (simp add: process_def ex_gap_def send_block_process_def Let_def block_get_view ex_store_get)
qed

definition ex_waiting :: block_processor where
  "ex_waiting = ex_start\<lparr>store_unchecked := [Pending_key 9 80 \<mapsto> ex_item ex_gap 0], calls := [Gap_cache_add 80]\<rparr>"

lemma ex_gap_step: "process_next ex_node ex_queued = Some ex_waiting"
proof -
  have "process_one ex_node (ex_start\<lparr>blocks := [], blocks_hashes := {}\<rparr>) (ex_item ex_gap 0) =
      Some (ex_waiting, (process_return_init Sv_unknown)\<lparr>code := Gap_previous\<rparr>)"
    using ex_gap_process ex_gap_hash
    by (simp add: process_one_def gap_put_def node_event_def unchecked_put_def ex_waiting_def ex_item_def
        process_return_init_def Let_def) (simp add: ex_start_def processor_init_def ex_gap_def)
  moreover have "next_block ex_node ex_queued = Some (ex_start\<lparr>blocks := [], blocks_hashes := {}\<rparr>, ex_item ex_gap 0)"
    using ex_gap_hash by (simp add: next_block_def ex_queued_def ex_item_def)
  ultimately show ?thesis by (simp add: process_next_def ex_waiting_def)
qed

lemma ex_waiting_run: "(node_step ex_node ex_genesis 5)\<^sup>*\<^sup>* (processor_init ex_ledger Map.empty) ex_waiting"
proof -
  have "node_step ex_node ex_genesis 5 ex_queued ex_waiting"
    by (rule node_process [where t = 7 and c = 0 and recent = "\<lambda>_. False"])
      (simp_all add: ex_at_time ex_next_placeable ex_gap_step, simp add: ex_queued_def)
  then show ?thesis using ex_queued_run by (rule rtranclp.rtrancl_into_rtrancl [rotated])
qed

text \<open>The first block of account 2, with a signature.\<close>

definition ex_signed_state :: "uint512 \<Rightarrow> state_hashables signed" where
  "ex_signed_state sig = \<lparr>hashables = \<lparr>state_account = 2, state_previous = 0, state_representative = 2,
     state_balance = 0, state_link = 0\<rparr>, signature = sig, work = 0\<rparr>"

lemma ex_keyed_hash: "block_hash (digest (node_ledger_env ex_keyed_node)) (State_block (ex_signed_state sig)) = 176"
  by (simp add: ex_keyed_node_def ex_hash ex_signed_state_def)

lemma ex_keyed_valid: "validate_message (node_ledger_env ex_keyed_node) a h sig = (ucast sig \<noteq> a)"
  by (simp add: validate_message_def ex_keyed_node_def)

lemma ex_keyed_batch: "max_verification_batch ex_keyed_node = 8192"
  by (simp add: max_verification_batch_def batch_size_def ex_keyed_node_def ex_node_def)

lemma ex_keyed_add:
  "add ex_keyed_node ex_start (ex_item (State_block (ex_signed_state sig)) a) =
     Some (ex_start\<lparr>state_blocks := [ex_item (State_block (ex_signed_state sig)) a], blocks_hashes := {176}\<rparr>)"
  using ex_has_work(2) ex_keyed_hash [of sig] by (simp add: add_def ex_item_def)

lemma ex_fresh_state: "\<not> block_exists_type (store ex_ledger) Bt_state 176"
proof -
  have "blocks_ok (store ex_ledger)" using ex_ledger_ok by (simp add: ledger_ok_def store_ok_def)
  then show ?thesis
    using block_exists_type_view [of "store ex_ledger" "State_block (ex_signed_state 0)" 176] by (simp add: ex_store_get)
qed

end
