(* ===== verification/Numbers.thy ===== *)
theory Numbers
  imports Prelude
begin

text \<open>
  The text forms of \<open>nano/lib/numbers.cpp\<close>: the account text, which has 52 characters of five
  bits for the number and 8 for a checksum, and the formatting of balances. A text is a list
  of characters. The hexadecimal and decimal readers, which are Boost's stream operators, are
  not modelled.
\<close>

section \<open>Digits\<close>

fun digits :: "nat \<Rightarrow> nat \<Rightarrow> nat \<Rightarrow> nat list" where
  "digits b 0 n = []"
| "digits b (Suc k) n = n mod b # digits b k (n div b)"

fun digits_value :: "nat \<Rightarrow> nat list \<Rightarrow> nat" where
  "digits_value b [] = 0"
| "digits_value b (d # ds) = d + b * digits_value b ds"

lemma length_digits [simp]: "length (digits b k n) = k"
  by (induction k arbitrary: n) simp_all

lemma digits_less: "0 < b \<Longrightarrow> d \<in> set (digits b k n) \<Longrightarrow> d < b"
  by (induction k arbitrary: n) auto

lemma digits_value_digits: "digits_value b (digits b k n) = n mod b ^ k"
proof (induction k arbitrary: n)
  case (Suc k)
  have "n mod b + b * (n div b mod b ^ k) = n mod (b * b ^ k)" by (simp add: mod_mult2_eq)
  with Suc show ?case by simp
qed simp

lemma digits_digits_value:
  assumes "\<forall>d\<in>set ds. d < b"
  shows "digits b (length ds) (digits_value b ds) = ds"
  using assms by (induction ds) auto

lemma digits_value_append: "digits_value b (xs @ ys) = digits_value b xs + b ^ length xs * digits_value b ys"
  by (induction xs) (simp_all add: algebra_simps)

lemma digits_value_less:
  assumes "\<forall>d\<in>set ds. d < b"
  shows "digits_value b ds < b ^ length ds"
  using assms
proof (induction ds)
  case (Cons d ds)
  then have d: "d < b" and "Suc (digits_value b ds) \<le> b ^ length ds" by (simp_all add: Suc_leI)
  then have "b * Suc (digits_value b ds) \<le> b * b ^ length ds" by (intro mult_le_mono2)
  with d show ?case by simp
qed simp

section \<open>Accounts\<close>

definition account_lookup :: string where
  "account_lookup = ''13456789abcdefghijkmnopqrstuwxyz''"

definition account_reverse :: string where
  "account_reverse = ''~0~1234567~~~~~~~~~~~~~~~~~~~~~~~~~~~~~~~~~~~~~~~89:;<=>?@AB~CDEFGHIJK~LMNO~~~~~''"

definition account_encode :: "byte \<Rightarrow> char option" where
  "account_encode value = do {
     assert (value < 32);
     Some (account_lookup ! unat value) }"

definition account_decode :: "char \<Rightarrow> byte option" where
  "account_decode value = do {
     assert (0x30 \<le> (of_char value :: nat));
     assert (of_char value \<le> (0x7e :: nat));
     let result = account_reverse ! (of_char value - 0x30);
     Some (if result \<noteq> CHR ''~'' then of_char result - 0x30 else of_char result) }"

text \<open>
  \<open>blake5\<close> is BLAKE2b with an output of five bytes, which the program reads as a little-endian
  number.
\<close>

fun encode_digits :: "nat \<Rightarrow> uint512 \<Rightarrow> string option" where
  "encode_digits 0 number = Some []"
| "encode_digits (Suc k) number = do {
     let r = (ucast (number AND 0x1f) :: byte);
     c \<leftarrow> account_encode r;
     cs \<leftarrow> encode_digits k (drop_bit 5 number);
     Some (c # cs) }"

definition encode_account :: "(byte list \<Rightarrow> 40 word) \<Rightarrow> uint256 \<Rightarrow> string option" where
  "encode_account blake5 a = do {
     let check = (ucast (blake5 (be_bytes a)) :: uint64);
     let number = push_bit 40 (ucast a :: uint512) OR ucast check;
     destination \<leftarrow> encode_digits 60 number;
     Some (rev (destination @ ''_rlf'')) }"

text \<open>The loop of \<open>decode_account\<close>: whether it met an error, and the number so far.\<close>

fun decode_digits :: "string \<Rightarrow> uint512 \<Rightarrow> (bool \<times> uint512) option" where
  "decode_digits [] number = Some (False, number)"
| "decode_digits (c # cs) number =
     (if (of_char c :: nat) < 0x30 \<or> 0x80 \<le> (of_char c :: nat) then Some (True, number)
      else do {
        byte \<leftarrow> account_decode c;
        (if byte = of_char (CHR ''~'') then Some (True, number)
         else decode_digits cs (push_bit 5 number + ucast byte)) })"

text \<open>The result is the error flag and the new value of the union, whose old value is \<open>old\<close>.\<close>

definition decode_account :: "(byte list \<Rightarrow> 40 word) \<Rightarrow> uint256 \<Rightarrow> string \<Rightarrow> (bool \<times> uint256) option" where
  "decode_account blake5 old source =
     (if length source < 5 then Some (True, old)
      else let flr_prefix = (take 3 source = ''flr'' \<and> (source ! 3 = CHR ''_'' \<or> source ! 3 = CHR ''-'')) in
        if flr_prefix \<and> length source \<noteq> 64 then Some (True, old)
        else if \<not> flr_prefix then Some (True, old)
        else if source ! 4 = CHR ''1'' \<or> source ! 4 = CHR ''3''
        then do {
          (error, number) \<leftarrow> decode_digits (drop 4 source) 0;
          Some (if error then (True, old)
                else let a = (ucast (drop_bit 40 number) :: uint256);
                         check = (ucast (number AND 0xffffffffff) :: uint64);
                         validation = (ucast (blake5 (be_bytes a)) :: uint64)
                     in (check \<noteq> validation, a)) }
        else Some (True, old))"

subsection \<open>The alphabet\<close>

lemma lookup_table:
  assumes "d < 32"
  defines "c \<equiv> of_char (account_lookup ! d) :: nat"
  shows "0x30 \<le> c \<and> c \<le> 0x7e \<and> account_reverse ! (c - 0x30) = char_of (d + 0x30)"
proof -
  have "\<forall>d\<in>set [0..<32]. 0x30 \<le> (of_char (account_lookup ! d) :: nat) \<and> of_char (account_lookup ! d) \<le> (0x7e :: nat) \<and>
      account_reverse ! (of_char (account_lookup ! d) - 0x30) = char_of (d + 0x30)"
    by (simp add: upt_rec account_lookup_def account_reverse_def char_of_def bit_0)
  then show ?thesis using assms by simp
qed

lemma reverse_table:
  assumes "k < 79"
  defines "c \<equiv> of_char (account_reverse ! k) :: nat"
  shows "account_reverse ! k = CHR ''~'' \<or> 0x30 \<le> c \<and> c < 0x50 \<and> account_lookup ! (c - 0x30) = char_of (k + 0x30)"
proof -
  have "\<forall>k\<in>set [0..<79]. account_reverse ! k = CHR ''~'' \<or> 0x30 \<le> (of_char (account_reverse ! k) :: nat) \<and>
      of_char (account_reverse ! k) < (0x50 :: nat) \<and> account_lookup ! (of_char (account_reverse ! k) - 0x30) = char_of (k + 0x30)"
    by (simp add: upt_rec account_lookup_def account_reverse_def char_of_def bit_0)
  then show ?thesis using assms by simp
qed

lemma of_char_byte: "(of_char c :: byte) = word_of_nat (of_char c)"
  by (simp only: of_nat_of_char)

lemma of_char_byte_inject: "(of_char c :: byte) = word_of_nat n \<longleftrightarrow> of_char c = n mod 256"
  by (simp add: of_char_byte word_unat_eq_iff [where 'a = 8])

lemma lookup_decode:
  assumes "d < 32"
  shows "account_decode (account_lookup ! d) = Some (word_of_nat d)"
proof -
  let ?r = "char_of (d + 0x30) :: char"
  have r: "of_char ?r = d + 0x30" using assms by simp
  have "(of_char (CHR ''~'') :: nat) = 126" by simp
  with r assms have "?r \<noteq> CHR ''~''" by fastforce
  moreover have "(of_char ?r :: byte) - 0x30 = word_of_nat d" unfolding of_char_byte r by simp
  ultimately show ?thesis
    unfolding account_decode_def Let_def using lookup_table [OF assms] by (simp only: assert_True bind.bind_lunit if_True simp_thms)
qed

lemma decode_lookup:
  assumes "account_decode c = Some b" "b \<noteq> of_char (CHR ''~'')"
  shows "unat b < 32 \<and> c = account_lookup ! unat b"
proof -
  let ?k = "of_char c - 0x30 :: nat" let ?r = "account_reverse ! ?k"
  have c: "0x30 \<le> (of_char c :: nat)" "of_char c \<le> (0x7e :: nat)"
    and b: "b = (if ?r \<noteq> CHR ''~'' then of_char ?r - 0x30 else of_char ?r)"
    using assms(1) by (simp_all add: account_decode_def Let_def split: if_splits)
  have "?r \<noteq> CHR ''~''" using b assms(2) by (metis (full_types))
  then have r: "0x30 \<le> (of_char ?r :: nat)" "of_char ?r < (0x50 :: nat)" "account_lookup ! (of_char ?r - 0x30) = char_of (?k + 0x30)"
    using reverse_table [of ?k] c by auto
  have "b = word_of_nat (of_char ?r - 0x30)"
    using b \<open>?r \<noteq> CHR ''~''\<close> r(1) unfolding of_char_byte by (simp add: of_nat_diff)
  then have "unat b = of_char ?r - 0x30" using r(2) by simp
  with r(2,3) c show ?thesis by simp
qed

subsection \<open>Loops as digits\<close>

abbreviation account_chars :: "nat list \<Rightarrow> string" where
  "account_chars \<equiv> map ((!) account_lookup)"

lemma encode_digits_eq: "encode_digits k w = Some (account_chars (digits 32 k (unat w)))"
proof (induction k arbitrary: w)
  case (Suc k)
  have "w AND 0x1f = take_bit 5 w" by (simp add: take_bit_eq_mask mask_eq_exp_minus_1)
  then have "unat (w AND 0x1f) = unat w mod 32" by (simp add: take_bit_eq_mod unat_mod)
  then have r: "unat (ucast (w AND 0x1f) :: byte) = unat w mod 32"
    by (simp add: unsigned_ucast_eq take_bit_eq_mod)
  then have "account_encode (ucast (w AND 0x1f)) = Some (account_lookup ! (unat w mod 32))"
    by (simp add: account_encode_def word_less_nat_alt)
  moreover have "unat (drop_bit 5 w) = unat w div 32" by (simp add: drop_bit_eq_div unat_div)
  ultimately show ?case using Suc by (simp add: Let_def)
qed simp

lemma decode_digits_append:
  assumes "\<forall>d\<in>set ds. d < 32"
  shows "decode_digits (account_chars ds @ t) w = decode_digits t (w * 32 ^ length ds + word_of_nat (digits_value 32 (rev ds)))"
  using assms
proof (induction ds arbitrary: w)
  case (Cons d ds)
  let ?c = "account_lookup ! d"
  have d: "d < 32" using Cons.prems by simp
  have range: "\<not> ((of_char ?c :: nat) < 0x30 \<or> 0x80 \<le> (of_char ?c :: nat))" using lookup_table [OF d] by auto
  have "(word_of_nat d :: byte) \<noteq> of_char (CHR ''~'')" using d by (auto simp: of_char_byte word_unat_eq_iff)
  moreover have "(ucast (word_of_nat d :: byte) :: uint512) = word_of_nat d"
    using d by (simp add: word_unat_eq_iff unsigned_ucast_eq take_bit_nat_eq_self unat_of_nat)
  ultimately have "decode_digits (account_chars (d # ds) @ t) w = decode_digits (account_chars ds @ t) (w * 32 + word_of_nat d)"
    using range lookup_decode [OF d] by (simp add: push_bit_eq_mult)
  with Cons show ?case by (simp add: digits_value_append algebra_simps)
qed simp

lemma decode_digits_eq:
  assumes "\<forall>d\<in>set ds. d < 32"
  shows "decode_digits (account_chars ds) w = Some (False, w * 32 ^ length ds + word_of_nat (digits_value 32 (rev ds)))"
  using decode_digits_append [OF assms, of "[]" w] by simp

lemma decode_digits_chars:
  assumes "decode_digits cs w = Some (False, r)"
  obtains ds where "\<forall>d\<in>set ds. d < 32" "cs = account_chars ds"
  using assms
proof (induction cs arbitrary: w thesis)
  case (Cons c cs)
  obtain b where b: "account_decode c = Some b" "b \<noteq> of_char (CHR ''~'')" "decode_digits cs (push_bit 5 w + ucast b) = Some (False, r)"
    using Cons.prems(2) by (auto simp: bind_eq_Some_conv split: if_splits)
  obtain ds where "\<forall>d\<in>set ds. d < 32" "cs = account_chars ds" using Cons.IH b(3) by blast
  with decode_lookup [OF b(1,2)] show ?case by (intro Cons.prems(1) [of "unat b # ds"]) simp_all
qed simp

subsection \<open>Account texts\<close>

definition account_number :: "(byte list \<Rightarrow> 40 word) \<Rightarrow> uint256 \<Rightarrow> nat" where
  "account_number blake5 a = unat a * 2 ^ 40 + unat (blake5 (be_bytes a))"

lemma account_number_less: "account_number blake5 a < 2 ^ 296"
proof -
  have "unat a < 2 ^ 256" "unat (blake5 (be_bytes a)) < 2 ^ 40"
    using unat_bound [of a] unat_bound [of "blake5 (be_bytes a)"] by simp_all
  then show ?thesis unfolding account_number_def by simp
qed

lemma account_number_word:
  "push_bit 40 (ucast a :: uint512) OR ucast (ucast (blake5 (be_bytes a)) :: uint64) = word_of_nat (account_number blake5 a)"
proof -
  let ?c = "ucast (ucast (blake5 (be_bytes a)) :: uint64) :: uint512"
  have c: "?c = word_of_nat (unat (blake5 (be_bytes a)))" 
    unfolding of_nat_unat by (rule bit_word_eqI) (auto simp: bit_simps dest: bit_imp_le_length)
  have "push_bit 40 (ucast a :: uint512) OR ?c = push_bit 40 (ucast a) + ?c"
    by (rule disjunctive_add [symmetric]) (auto simp: bit_simps dest: bit_imp_le_length)
  also have "\<dots> = word_of_nat (account_number blake5 a)"
    unfolding c by (simp add: account_number_def push_bit_eq_mult)
  finally show ?thesis .
qed

lemma encode_account_eq:
  "encode_account blake5 a = Some (''flr_'' @ account_chars (rev (digits 32 60 (account_number blake5 a))))"
proof -
  have "unat (word_of_nat (account_number blake5 a) :: uint512) = account_number blake5 a"
    using account_number_less [of blake5 a] by (simp add: unat_of_nat)
  then show ?thesis
    unfolding encode_account_def Let_def account_number_word encode_digits_eq by (simp add: rev_map)
qed

text \<open>Of sixty digits the first is 0 or 1 exactly if the number has 296 bits.\<close>

lemma first_digit:
  assumes ds: "\<forall>d\<in>set ds. d < 32" "length ds = 60"
  shows "hd ds < 2 \<longleftrightarrow> digits_value 32 (rev ds) < 2 ^ 296"
proof -
  obtain d es where e: "ds = d # es" "length es = 59" using ds(2) by (cases ds) auto
  have es: "digits_value 32 (rev es) < 32 ^ 59" using digits_value_less [of "rev es" 32] ds(1) e by simp
  have "(2 :: nat) ^ 296 = 2 * 32 ^ 59" by simp
  then have "digits_value 32 (rev ds) < 2 ^ 296 \<longleftrightarrow> digits_value 32 (rev es) + 32 ^ 59 * d < 32 ^ 59 * 2"
    using e by (simp add: digits_value_append)
  also have "\<dots> \<longleftrightarrow> d < 2"
  proof
    assume "digits_value 32 (rev es) + 32 ^ 59 * d < 32 ^ 59 * 2"
    then have "(32 :: nat) ^ 59 * d < 32 ^ 59 * 2" by linarith
    then show "d < 2" by simp
  next
    assume "d < 2"
    then have "d \<le> 1" by simp
    then have "(32 :: nat) ^ 59 * d \<le> 32 ^ 59 * 1" by (rule mult_le_mono2)
    with es show "digits_value 32 (rev es) + 32 ^ 59 * d < 32 ^ 59 * 2" by linarith
  qed
  finally show ?thesis using e by simp
qed

lemma account_char_first: "d < 32 \<Longrightarrow> account_lookup ! d = CHR ''1'' \<or> account_lookup ! d = CHR ''3'' \<longleftrightarrow> d < 2"
proof -
  have "\<forall>d\<in>set [0..<32]. account_lookup ! d = CHR ''1'' \<or> account_lookup ! d = CHR ''3'' \<longleftrightarrow> d < 2"
    by (simp add: upt_rec account_lookup_def)
  then show "d < 32 \<Longrightarrow> account_lookup ! d = CHR ''1'' \<or> account_lookup ! d = CHR ''3'' \<longleftrightarrow> d < 2" by simp
qed

lemma number_parts:
  fixes n :: nat and blake5 :: "byte list \<Rightarrow> 40 word"
  assumes "n < 2 ^ 296"
  defines "a \<equiv> word_of_nat (n div 2 ^ 40) :: uint256"
  shows "(ucast (drop_bit 40 (word_of_nat n :: uint512)) :: uint256) = a"
    "(ucast ((word_of_nat n :: uint512) AND 0xffffffffff) :: uint64) \<noteq> ucast (blake5 (be_bytes a)) \<longleftrightarrow> n \<noteq> account_number blake5 a"
proof -
  have u: "unat (word_of_nat n :: uint512) = n" and t: "take_bit 512 n = n" using assms(1) by (simp_all add: unat_of_nat take_bit_nat_eq_self)
  show "(ucast (drop_bit 40 (word_of_nat n :: uint512)) :: uint256) = a"
    by (simp add: a_def drop_bit_eq_div word_unat_eq_iff unsigned_ucast_eq unat_div unsigned_of_nat t)
  have "(word_of_nat n :: uint512) AND 0xffffffffff = take_bit 40 (word_of_nat n)"
    by (simp add: take_bit_eq_mask mask_eq_exp_minus_1)
  then have "unat ((word_of_nat n :: uint512) AND 0xffffffffff) = n mod 2 ^ 40"
    using u by (simp add: take_bit_eq_mod unat_mod)
  then have check: "unat (ucast ((word_of_nat n :: uint512) AND 0xffffffffff) :: uint64) = n mod 2 ^ 40"
    by (simp add: unsigned_ucast_eq take_bit_eq_mod)
  have "unat (blake5 (be_bytes a)) < 2 ^ 40" using unat_bound [of "blake5 (be_bytes a)"] by simp
  then have val: "unat (ucast (blake5 (be_bytes a)) :: uint64) = unat (blake5 (be_bytes a))"
    by (simp add: unsigned_ucast_eq take_bit_nat_eq_self)
  have "n div 2 ^ 40 < 2 ^ 256" using assms(1) by (simp add: less_mult_imp_div_less)
  then have "unat a = n div 2 ^ 40" by (simp add: a_def unat_of_nat)
  then have "n = account_number blake5 a \<longleftrightarrow> n mod 2 ^ 40 = unat (blake5 (be_bytes a))"
    unfolding account_number_def by (metis add_left_cancel div_mult_mod_eq)
  then show "(ucast ((word_of_nat n :: uint512) AND 0xffffffffff) :: uint64) \<noteq> ucast (blake5 (be_bytes a)) \<longleftrightarrow> n \<noteq> account_number blake5 a"
    unfolding word_unat_eq_iff [where 'a = 64] check val by simp
qed

lemma decode_account_digits:
  assumes ds: "\<forall>d\<in>set ds. d < 32" "length ds = 60" and pre: "pre = ''flr_'' \<or> pre = ''flr-''"
    and n: "n = digits_value 32 (rev ds)"
  shows "decode_account blake5 old (pre @ account_chars ds) = Some
    (if n < 2 ^ 296 then (n \<noteq> account_number blake5 (word_of_nat (n div 2 ^ 40)), word_of_nat (n div 2 ^ 40)) else (True, old))"
proof -
  obtain d es where e: "ds = d # es" "d < 32" using ds by (cases ds) auto
  have first: "(pre @ account_chars ds) ! 4 = account_lookup ! d" using pre e by auto
  have dec: "decode_digits (account_chars ds) 0 = Some (False, word_of_nat n)"
    using decode_digits_eq [OF ds(1), of 0] n by simp
  have d: "account_lookup ! d = CHR ''1'' \<or> account_lookup ! d = CHR ''3'' \<longleftrightarrow> n < 2 ^ 296"
    using account_char_first [OF e(2)] first_digit [OF ds] n e by simp
  have eq: "decode_account blake5 old (pre @ account_chars ds) =
     (if account_lookup ! d = CHR ''1'' \<or> account_lookup ! d = CHR ''3''
        then do {
          (error, number) \<leftarrow> decode_digits (account_chars ds) 0;
          Some (if error then (True, old)
                else let a = (ucast (drop_bit 40 number) :: uint256);
                         check = (ucast (number AND 0xffffffffff) :: uint64);
                         validation = (ucast (blake5 (be_bytes a)) :: uint64)
                     in (check \<noteq> validation, a)) }
        else Some (True, old))"
    unfolding decode_account_def first using pre ds(2) by (auto simp: Let_def)
  show ?thesis
  proof (cases "n < 2 ^ 296")
    case True
    show ?thesis unfolding eq d dec using True number_parts [OF True] by (simp add: Let_def)
  qed (simp add: eq d)
qed

lemma decode_encode_account:
  assumes "encode_account blake5 a = Some t"
  shows "decode_account blake5 old t = Some (False, a)"
proof -
  let ?n = "account_number blake5 a"
  let ?ds = "rev (digits 32 60 ?n)"
  have t: "t = ''flr_'' @ account_chars ?ds" using assms by (simp add: encode_account_eq)
  have ds: "\<forall>d\<in>set ?ds. d < 32" "length ?ds = 60" using digits_less [of 32] by auto
  have n: "?n < 2 ^ 296" by (rule account_number_less)
  have "(32 :: nat) ^ 60 = 2 ^ 300" by simp
  then have v: "digits_value 32 (rev ?ds) = ?n" using n by (simp add: digits_value_digits)
  have "unat (blake5 (be_bytes a)) < 2 ^ 40" using unat_bound [of "blake5 (be_bytes a)"] by simp
  then have "?n div 2 ^ 40 = unat a" by (simp add: account_number_def)
  then show ?thesis
    unfolding t decode_account_digits [OF ds disjI1 [OF refl] v [symmetric]] using n by simp
qed

lemma decode_account_only:
  assumes "decode_account blake5 old t = Some (False, a)"
  shows "\<exists>c. c \<in> {CHR ''_'', CHR ''-''} \<and> encode_account blake5 a = Some (t[3 := CHR ''_'']) \<and> t ! 3 = c"
proof -
  have p: "take 3 t = ''flr''" "t ! 3 = CHR ''_'' \<or> t ! 3 = CHR ''-''" "length t = 64"
    and dec: "\<exists>number. decode_digits (drop 4 t) 0 = Some (False, number)"
    using assms by (auto simp: decode_account_def Let_def bind_eq_Some_conv split: if_splits)
  obtain ds where ds: "\<forall>d\<in>set ds. d < 32" "drop 4 t = account_chars ds" using dec decode_digits_chars by metis
  have len: "length ds = 60" using arg_cong [OF ds(2), of length] p(3) by simp
  let ?n = "digits_value 32 (rev ds)"
  have t: "t = (''flr'' @ [t ! 3]) @ account_chars ds"
    using id_take_nth_drop [of 3 t] p ds(2) by (simp add: numeral_eq_Suc)
  have "decode_account blake5 old t = Some (if ?n < 2 ^ 296 then (?n \<noteq> account_number blake5 (word_of_nat (?n div 2 ^ 40)),
      word_of_nat (?n div 2 ^ 40)) else (True, old))"
    by (subst t, rule decode_account_digits [OF ds(1) len _ refl]) (use p(2) in auto)
  then have n: "?n = account_number blake5 a" using assms by (simp split: if_splits)
  have "digits 32 60 ?n = rev ds" using digits_digits_value [of "rev ds" 32] ds(1) len by simp
  then have "encode_account blake5 a = Some (''flr_'' @ account_chars ds)"
    unfolding encode_account_eq n [symmetric] by simp
  moreover have "t[3 := CHR ''_''] = ''flr_'' @ account_chars ds"
    by (subst t) (simp add: numeral_3_eq_3)
  ultimately show ?thesis using p(2) by auto
qed

text \<open>The assertion of \<open>account_decode\<close> excludes the character 127, which the test before it lets pass.\<close>

definition delete_char :: char where
  "delete_char = char_of (0x7f :: nat)"

lemma delete_char_iff: "c = delete_char \<longleftrightarrow> of_char c = (0x7f :: nat)"
proof -
  have "take_bit 8 (0x7f :: nat) = 0x7f" by (simp add: take_bit_eq_mod)
  then show ?thesis using char_of_eq_iff [of "0x7f :: nat" c] unfolding delete_char_def by metis
qed

lemma decode_abort: "account_decode c = None \<longleftrightarrow> (of_char c :: nat) < 0x30 \<or> (0x7e :: nat) < of_char c"
  by (auto simp: account_decode_def Let_def assert_def)

lemma decode_digits_abort:
  "decode_digits cs w = None \<longleftrightarrow> (\<exists>ds rest. (\<forall>d\<in>set ds. d < 32) \<and> cs = account_chars ds @ delete_char # rest)"
proof
  assume "decode_digits cs w = None"
  then show "\<exists>ds rest. (\<forall>d\<in>set ds. d < 32) \<and> cs = account_chars ds @ delete_char # rest"
  proof (induction cs arbitrary: w)
    case (Cons c cs)
    show ?case
    proof (cases "account_decode c")
      case None
      with Cons.prems have "c = delete_char" by (auto simp: decode_abort delete_char_iff split: if_splits)
      then show ?thesis by (intro exI [of _ "[]"] exI [of _ cs]) simp
    next
      case (Some b)
      with Cons.prems have b: "b \<noteq> of_char (CHR ''~'')" "decode_digits cs (push_bit 5 w + ucast b) = None"
        by (auto split: if_splits)
      obtain ds rest where "\<forall>d\<in>set ds. d < 32" "cs = account_chars ds @ delete_char # rest" using Cons.IH [OF b(2)] by blast
      with decode_lookup [OF Some b(1)] show ?thesis by (intro exI [of _ "unat b # ds"] exI [of _ rest]) simp
    qed
  qed simp
next
  have del: "decode_digits (delete_char # rest) v = None" for rest v
  proof -
    have d: "(of_char delete_char :: nat) = 0x7f" using delete_char_iff by blast
    then have "account_decode delete_char = None" by (simp add: decode_abort)
    then show ?thesis using d by simp
  qed
  assume "\<exists>ds rest. (\<forall>d\<in>set ds. d < 32) \<and> cs = account_chars ds @ delete_char # rest"
  then obtain ds rest where ds: "\<forall>d\<in>set ds. d < 32" "cs = account_chars ds @ delete_char # rest" by blast
  then show "decode_digits cs w = None" using del decode_digits_append [OF ds(1)] by simp
qed

end
