(* ===== verification/Balance_Format.thy ===== *)
theory Balance_Format
  imports Numbers
begin

text \<open>
  \<open>format_balance\<close> of \<open>nano/lib/numbers.cpp\<close> with its two helpers: the digits of the whole
  part, in groups, and the digits of the fraction up to a precision. A text that is streamed
  out is returned; \<open>None\<close> is a division by zero, which throws, or a loop that does not end.
\<close>

section \<open>The code\<close>

text \<open>What \<open>operator<<\<close> prints for an unsigned number.\<close>

definition digit_char :: "nat \<Rightarrow> char" where
  "digit_char d = char_of (d + 0x30)"

fun decimal :: "nat \<Rightarrow> string" where
  "decimal n = (if n < 10 then [digit_char n] else decimal (n div 10) @ [digit_char (n mod 10)])"

declare decimal.simps [simp del]

definition word_div :: "'a::len word \<Rightarrow> 'a word \<Rightarrow> 'a word option" where
  "word_div a b = (if b = 0 then None else Some (a div b))"

text \<open>The loop of \<open>format_frac\<close>; \<open>precision\<close> counts down.\<close>

function format_frac :: "uint128 \<Rightarrow> uint128 \<Rightarrow> int \<Rightarrow> string option" where
  "format_frac rem reduce precision =
     (if 1 < reduce \<and> 0 < rem \<and> 0 < precision
      then do {
        let reduce = reduce div 10;
        val \<leftarrow> word_div rem reduce;
        rest \<leftarrow> format_frac (rem - val * reduce) reduce (precision - 1);
        Some (decimal (unat val) @ rest) }
      else Some [])"
  by pat_completeness auto
termination by (relation "measure (\<lambda>(rem, reduce, precision). nat precision)") auto

declare format_frac.simps [simp del]

text \<open>The largest power of ten that is not above the value, and how many digits the value has.\<close>

partial_function (option) largest_pow10 :: "uint128 \<Rightarrow> uint256 \<Rightarrow> int \<Rightarrow> (uint256 \<times> int) option" where
  "largest_pow10 v p dec_count =
     (let next = p * 10 in
      if ucast v < next then Some (p, dec_count) else largest_pow10 v next (dec_count + 1))"

text \<open>The array \<open>emit_group\<close>, from position \<open>i\<close> on; \<open>groupings\<close> are the sizes of the groups.\<close>

function emit_groups :: "int list \<Rightarrow> nat \<Rightarrow> int \<Rightarrow> int \<Rightarrow> int \<Rightarrow> bool list" where
  "emit_groups groupings group_index group_count i dec_count =
     (if i < dec_count
      then let group_count = group_count + 1 in
        if groupings ! group_index < group_count
        then True # emit_groups groupings (min (group_index + 1) (length groupings - 1)) 1 (i + 1) dec_count
        else False # emit_groups groupings group_index group_count (i + 1) dec_count
      else [])"
  by pat_completeness auto
termination by (relation "measure (\<lambda>(groupings, group_index, group_count, i, dec_count). nat (dec_count - i))") auto

declare emit_groups.simps [simp del]

text \<open>The printing loop of \<open>format_dec\<close>; the group separator is \<open>None\<close> for the character 0.\<close>

function print_digits :: "char option \<Rightarrow> bool list \<Rightarrow> uint128 \<Rightarrow> uint128 \<Rightarrow> int \<Rightarrow> string" where
  "print_digits group_sep emit_group rem reduce dec_count =
     (if 0 < reduce
      then let val = rem div reduce;
               rem = rem - val * reduce;
               dec_count = dec_count - 1
        in decimal (unat val) @
          (case group_sep of
             Some c \<Rightarrow> if emit_group ! nat dec_count \<and> 1 < reduce then [c] else []
           | None \<Rightarrow> []) @
          print_digits group_sep emit_group rem (reduce div 10) dec_count
      else [])"
  by pat_completeness auto
termination
  by (relation "measure (\<lambda>(group_sep, emit_group, rem, reduce, dec_count). unat reduce)") (auto simp: unat_div word_less_nat_alt)

declare print_digits.simps [simp del]

definition format_dec :: "uint128 \<Rightarrow> char option \<Rightarrow> int list \<Rightarrow> string option" where
  "format_dec v group_sep groupings = do {
     (largest, dec_count) \<leftarrow> largest_pow10 v 1 1;
     (if 39 < dec_count then Some []
      else let emit_group = (if group_sep \<noteq> None then emit_groups groupings 0 0 0 dec_count else [])
        in Some (print_digits group_sep emit_group v (ucast largest) dec_count)) }"

fun divide_times :: "nat \<Rightarrow> uint128 \<Rightarrow> uint128" where
  "divide_times 0 scale = scale"
| "divide_times (Suc k) scale = divide_times k (scale div 10)"

definition format_balance ::
  "uint128 \<Rightarrow> uint128 \<Rightarrow> int \<Rightarrow> bool \<Rightarrow> char option \<Rightarrow> char \<Rightarrow> int list \<Rightarrow> string option" where
  "format_balance balance scale precision group_digits thousands_sep decimal_point grouping = do {
     int_part \<leftarrow> word_div balance scale;
     let frac_part = balance mod scale;
     let prec_scale = divide_times (nat precision) scale;
     small \<leftarrow> (if int_part = 0 \<and> 0 < frac_part
       then map_option (\<lambda>q. q = 0) (word_div frac_part prec_scale) else Some False);
     (if small
      then Some (''< '' @
        (if 0 < precision then ''0'' @ [decimal_point] @ replicate (nat (precision - 1)) (CHR ''0'') else []) @ ''1'')
      else do {
        whole \<leftarrow> format_dec int_part (if group_digits \<and> grouping \<noteq> [] then thousands_sep else None) grouping;
        (if 0 < precision \<and> 0 < frac_part
         then do {
           frac \<leftarrow> format_frac frac_part scale precision;
           Some (whole @ [decimal_point] @ frac) }
         else Some whole) }) }"

section \<open>Powers of ten\<close>

lemma pow10_word:
  assumes "k \<le> 38"
  shows "unat (word_of_nat (10 ^ k) :: uint128) = 10 ^ k"
proof -
  have "(10 :: nat) ^ k \<le> 10 ^ 38" using assms by (intro power_increasing) simp_all
  then have "(10 :: nat) ^ k < 2 ^ LENGTH(128)" by simp
  then show ?thesis unfolding unat_of_nat by (rule mod_less)
qed

lemma uint128_less: "unat (v :: uint128) < 10 ^ 39"
  using unat_bound [of v] by simp

lemma largest_pow10_from:
  assumes "j \<le> 38" "j = 0 \<or> 10 ^ j \<le> unat v"
  shows "\<exists>k\<le>38. (k = 0 \<or> 10 ^ k \<le> unat v) \<and> unat v < 10 ^ (k + 1) \<and>
    largest_pow10 v (word_of_nat (10 ^ j)) (int j + 1) = Some (word_of_nat (10 ^ k), int k + 1)"
  using assms
proof (induction "38 - j" arbitrary: j)
  case (0 j)
  then have j: "j = 38" by simp
  have "unat v < 10 ^ (j + 1)" using uint128_less [of v] j by simp
  moreover from this have "ucast v < (word_of_nat (10 ^ j) * 10 :: uint256)" using j by (simp add: word_less_nat_alt unsigned_ucast_eq take_bit_nat_eq_self)
  ultimately show ?case using 0 by (intro exI [of _ j]) (subst largest_pow10.simps, simp add: Let_def)
next
  case (Suc m j)
  have "(10 :: nat) ^ (j + 1) \<le> 10 ^ 39" using Suc.prems(1) by (intro power_increasing) simp_all
  then have "(10 :: nat) ^ (j + 1) < 2 ^ LENGTH(256)" by simp
  then have u: "unat (word_of_nat (10 ^ (j + 1)) :: uint256) = 10 ^ (j + 1)" unfolding unat_of_nat by (rule mod_less)
  have v: "unat (ucast v :: uint256) = unat v" using uint128_less [of v] by (simp add: unsigned_ucast_eq take_bit_nat_eq_self)
  have ten: "(word_of_nat (10 ^ j) * 10 :: uint256) = word_of_nat (10 ^ (j + 1))" by (simp add: mult.commute)
  show ?case
  proof (cases "unat v < 10 ^ (j + 1)")
    case True
    then have "ucast v < (word_of_nat (10 ^ j) * 10 :: uint256)" unfolding ten word_less_nat_alt u v .
    then show ?thesis using Suc.prems True by (intro exI [of _ j]) (subst largest_pow10.simps, simp add: Let_def)
  next
    case False
    then have "\<not> ucast v < (word_of_nat (10 ^ j) * 10 :: uint256)" unfolding ten word_less_nat_alt u v .
    then have step: "largest_pow10 v (word_of_nat (10 ^ j)) (int j + 1) = largest_pow10 v (word_of_nat (10 ^ (j + 1))) (int (j + 1) + 1)"
      by (subst largest_pow10.simps) (simp add: Let_def ten add.commute del: of_nat_power)
    have "m = 38 - (j + 1)" "j + 1 \<le> 38" using Suc.hyps(2) by simp_all
    from Suc.hyps(1) [OF this] False show ?thesis unfolding step by simp
  qed
qed

lemma pow10_div:
  assumes "k \<le> 38"
  shows "(word_of_nat (10 ^ k) :: uint128) div 10 = (if k = 0 then 0 else word_of_nat (10 ^ (k - 1)))"
proof (cases k)
  case (Suc j)
  then have "unat (word_of_nat (10 ^ k) div 10 :: uint128) = 10 ^ j" using pow10_word [OF assms] by (simp add: unat_div del: of_nat_power)
  moreover have "unat (word_of_nat (10 ^ j) :: uint128) = 10 ^ j" using assms Suc by (intro pow10_word) simp
  ultimately show ?thesis using Suc by (simp add: word_unat_eq_iff del: of_nat_power)
qed (simp add: word_unat_eq_iff unat_div)

lemma pow10_step:
  assumes "k \<le> 38"
  defines "p \<equiv> word_of_nat (10 ^ k) :: uint128"
  shows "unat (rem div p) = unat rem div 10 ^ k" "unat (rem - (rem div p) * p) = unat rem mod 10 ^ k" "0 < p" "1 < p \<longleftrightarrow> 0 < k"
proof -
  have u: "unat p = 10 ^ k" unfolding p_def by (rule pow10_word [OF assms(1)])
  show "unat (rem div p) = unat rem div 10 ^ k" by (simp add: unat_div u)
  show "unat (rem - (rem div p) * p) = unat rem mod 10 ^ k" by (simp add: minus_div_mult_eq_mod unat_mod u)
  show "0 < p" unfolding word_less_nat_alt u by simp
  have "1 < (10 :: nat) ^ k \<longleftrightarrow> 0 < k" using one_less_power [of "10 :: nat" k] by (cases "k = 0") simp_all
  then show "1 < p \<longleftrightarrow> 0 < k" unfolding word_less_nat_alt u by simp
qed

section \<open>Whole parts\<close>

lemma decimal_digit: "n < 10 \<Longrightarrow> decimal n = [digit_char n]"
  by (subst decimal.simps) simp

text \<open>The digits from the most significant one on.\<close>

lemma digits_top: "n < b ^ Suc k \<Longrightarrow> 0 < b \<Longrightarrow> rev (digits b (Suc k) n) = n div b ^ k # rev (digits b k (n mod b ^ k))"
proof (induction k arbitrary: n)
  case (Suc k)
  have "n div b < b ^ Suc k" using Suc.prems by (simp add: less_mult_imp_div_less mult.commute)
  from Suc.IH [OF this Suc.prems(2)] show ?case
    using Suc.prems(2) by (simp add: div_mult2_eq [symmetric] mod_mult2_eq)
qed simp

lemma decimal_digits:
  assumes "k = 0 \<or> 10 ^ k \<le> n" "n < 10 ^ (k + 1)"
  shows "decimal n = map digit_char (rev (digits 10 (k + 1) n))"
  using assms
proof (induction k arbitrary: n)
  case 0
  then show ?case by (simp add: decimal_digit)
next
  case (Suc k)
  have d: "10 ^ k \<le> n div 10" "n div 10 < 10 ^ (k + 1)" using Suc.prems by auto
  have "\<not> n < 10"
  proof
    assume n: "n < 10"
    have "(10 :: nat) \<le> 10 ^ Suc k" by simp
    then show False using Suc.prems(1) n by linarith
  qed
  with Suc.IH [of "n div 10"] d show ?case by (subst decimal.simps) simp
qed

lemma print_digits_zero: "print_digits sep emit rem 0 n = []"
  by (subst print_digits.simps) simp

definition separator :: "char option \<Rightarrow> bool list \<Rightarrow> uint128 \<Rightarrow> int \<Rightarrow> string" where
  "separator sep emit p n = (case sep of Some c \<Rightarrow> if emit ! nat n \<and> 1 < p then [c] else [] | None \<Rightarrow> [])"

lemma print_digits_step:
  "0 < p \<Longrightarrow> print_digits sep emit rem p n = decimal (unat (rem div p)) @ separator sep emit p (n - 1) @
     print_digits sep emit (rem - (rem div p) * p) (p div 10) (n - 1)"
  by (subst print_digits.simps) (simp add: Let_def separator_def)

lemma separator_filter: "filter (\<lambda>c. sep \<noteq> Some c) (separator sep emit p n) = []"
  by (cases sep) (simp_all add: separator_def)

lemma print_digits_filter:
  assumes "k \<le> 38" "unat rem < 10 ^ (k + 1)" and sep: "\<And>d. d < 10 \<Longrightarrow> sep \<noteq> Some (digit_char d)"
  shows "filter (\<lambda>c. sep \<noteq> Some c) (print_digits sep emit rem (word_of_nat (10 ^ k)) n) =
    map digit_char (rev (digits 10 (k + 1) (unat rem)))"
  using assms(1,2)
proof (induction k arbitrary: rem n)
  case 0
  have "(word_of_nat (10 ^ 0) :: uint128) = 1" "(1 :: uint128) div 10 = 0" by simp_all
  then show ?case using 0 sep by (simp add: print_digits_step print_digits_zero decimal_digit separator_filter)
next
  case (Suc k)
  let ?p = "word_of_nat (10 ^ Suc k) :: uint128"
  let ?rem = "rem - (rem div ?p) * ?p" and ?d = "unat rem div 10 ^ Suc k"
  note step = pow10_step(1,2) [OF Suc.prems(1), of rem] pow10_step(3,4) [OF Suc.prems(1)]
  have d: "?d < 10" using Suc.prems(2) by (simp add: less_mult_imp_div_less)
  have p: "?p div 10 = word_of_nat (10 ^ k)" using pow10_div [OF Suc.prems(1)] by simp
  have "unat ?rem < 10 ^ (k + 1)" using step(2) by simp
  then have "filter (\<lambda>c. sep \<noteq> Some c) (print_digits sep emit ?rem (word_of_nat (10 ^ k)) (n - 1)) =
      map digit_char (rev (digits 10 (k + 1) (unat rem mod 10 ^ Suc k)))"
    using Suc.IH [of ?rem "n - 1"] Suc.prems(1) unfolding step(2) by simp
  then have "filter (\<lambda>c. sep \<noteq> Some c) (print_digits sep emit rem ?p n) =
      map digit_char (?d # rev (digits 10 (k + 1) (unat rem mod 10 ^ Suc k)))"
    unfolding print_digits_step [OF step(3)] p step(1) decimal_digit [OF d] filter_append separator_filter using sep [OF d] by simp
  also have "?d # rev (digits 10 (k + 1) (unat rem mod 10 ^ Suc k)) = rev (digits 10 (Suc k + 1) (unat rem))"
    using digits_top [of "unat rem" 10 "Suc k"] Suc.prems(2) by (simp del: digits.simps)
  finally show ?case .
qed

text \<open>Every value is printed in full: the case that the source calls impossible is.\<close>

lemma format_dec_digits:
  assumes "\<And>d. d < 10 \<Longrightarrow> sep \<noteq> Some (digit_char d)"
  shows "\<exists>t. format_dec v sep groupings = Some t \<and> filter (\<lambda>c. sep \<noteq> Some c) t = decimal (unat v)"
proof -
  have "word_of_nat (10 ^ 0) = (1 :: uint256)" by simp
  then obtain k where k: "k \<le> 38" "k = 0 \<or> 10 ^ k \<le> unat v" "unat v < 10 ^ (k + 1)"
    "largest_pow10 v 1 1 = Some (word_of_nat (10 ^ k), int k + 1)"
    using largest_pow10_from [of 0 v] by auto
  have "(ucast (word_of_nat (10 ^ k) :: uint256) :: uint128) = word_of_nat (10 ^ k)"
    by (rule bit_word_eqI) (auto simp: bit_simps simp del: of_nat_power)
  then have "format_dec v sep groupings = Some (print_digits sep
      (if sep \<noteq> None then emit_groups groupings 0 0 0 (int k + 1) else []) v (word_of_nat (10 ^ k)) (int k + 1))"
    using k(1,4) by (simp add: format_dec_def Let_def del: of_nat_power)
  then show ?thesis using print_digits_filter [OF k(1,3) assms] decimal_digits [OF k(2,3)] by (simp del: of_nat_power)
qed

section \<open>Fractions\<close>

text \<open>
  For a scale that is a power of ten the fraction is printed digit by digit until nothing is
  left or the precision is reached.
\<close>

lemma format_frac_step:
  assumes "1 < p" "0 < v" "0 < n" "p div 10 = q" "q \<noteq> 0" "format_frac (v - (v div q) * q) q (n - 1) = Some t"
  shows "format_frac v p n = Some (decimal (unat (v div q)) @ t)"
  using assms by (subst format_frac.simps) (simp add: word_div_def)

lemma format_frac_end: "v = 0 \<or> n \<le> 0 \<Longrightarrow> format_frac v p n = Some []"
  by (subst format_frac.simps) auto

text \<open>\<open>ds\<close> are the first digits of a fraction \<open>v / 10 ^ k\<close>.\<close>

definition fraction_digits :: "nat \<Rightarrow> nat \<Rightarrow> nat list \<Rightarrow> bool" where
  "fraction_digits v k ds \<longleftrightarrow> (\<forall>d\<in>set ds. d < 10) \<and> length ds \<le> k \<and> v div 10 ^ (k - length ds) = digits_value 10 (rev ds)"

lemma fraction_digits_Cons:
  assumes "fraction_digits (v mod 10 ^ k) k ds" "v < 10 ^ Suc k"
  shows "fraction_digits v (Suc k) (v div 10 ^ k # ds)" "v mod 10 ^ (Suc k - length (v div 10 ^ k # ds)) = v mod 10 ^ k mod 10 ^ (k - length ds)"
proof -
  let ?d = "v div 10 ^ k" and ?r = "v mod 10 ^ k" and ?j = "k - length ds"
  have len: "length ds \<le> k" and ds: "\<forall>d\<in>set ds. d < 10" "?r div 10 ^ ?j = digits_value 10 (rev ds)"
    using assms(1) by (simp_all add: fraction_digits_def)
  have pow: "(10 :: nat) ^ k = 10 ^ ?j * 10 ^ length ds" using len by (simp add: power_add [symmetric])
  have "10 ^ ?j * (10 ^ length ds * x) = x * 10 ^ k" for x :: nat by (simp add: pow)
  then have v: "v = 10 ^ ?j * (10 ^ length ds * ?d) + ?r" by (metis div_mult_mod_eq)
  have "v div 10 ^ ?j = 10 ^ length ds * ?d + ?r div 10 ^ ?j" by (subst v) simp
  moreover have "?d < 10" using assms(2) by (simp add: less_mult_imp_div_less)
  ultimately show "fraction_digits v (Suc k) (?d # ds)"
    using ds len by (simp add: fraction_digits_def digits_value_append)
  show "v mod 10 ^ (Suc k - length (?d # ds)) = ?r mod 10 ^ ?j" by (subst v) simp
qed

lemma format_frac_digits:
  assumes "k \<le> 38" "unat v < 10 ^ k"
  shows "\<exists>ds. format_frac v (word_of_nat (10 ^ k)) n = Some (map digit_char ds) \<and> fraction_digits (unat v) k ds \<and>
    length ds \<le> nat n \<and> (length ds = nat n \<or> unat v mod 10 ^ (k - length ds) = 0)"
  using assms
proof (induction k arbitrary: v n)
  case 0
  then have "v = 0" by (simp add: unat_eq_zero)
  then show ?case by (intro exI [of _ "[]"]) (simp add: format_frac_end fraction_digits_def)
next
  case (Suc k)
  let ?p = "word_of_nat (10 ^ Suc k) :: uint128" and ?q = "word_of_nat (10 ^ k) :: uint128"
  show ?case
  proof (cases "v = 0 \<or> n \<le> 0")
    case True
    then show ?thesis using Suc.prems(2) by (intro exI [of _ "[]"]) (auto simp: format_frac_end fraction_digits_def)
  next
    case False
    have k: "k \<le> 38" using Suc.prems(1) by simp
    note step = pow10_step(1,2) [OF k, of v] pow10_step(3) [OF k]
    let ?v = "v - (v div ?q) * ?q" and ?d = "unat v div 10 ^ k"
    have d: "?d < 10" using Suc.prems(2) by (simp add: less_mult_imp_div_less)
    have "unat ?v < 10 ^ k" using step(2) by simp
    from Suc.IH [OF k this, of "n - 1"] obtain ds where r: "format_frac ?v ?q (n - 1) = Some (map digit_char ds) \<and>
        fraction_digits (unat v mod 10 ^ k) k ds \<and> length ds \<le> nat (n - 1) \<and>
        (length ds = nat (n - 1) \<or> unat v mod 10 ^ k mod 10 ^ (k - length ds) = 0)" unfolding step(2) ..
    note ds = conjunct1 [OF r] conjunct1 [OF conjunct2 [OF r]] conjunct2 [OF conjunct2 [OF r]]
    have q: "?p div 10 = ?q" "1 < ?p" "?q \<noteq> 0"
      using pow10_div [OF Suc.prems(1)] pow10_step(4) [OF Suc.prems(1)] step(3) by (simp_all del: of_nat_power power_Suc)
    have "0 < v" "0 < n" using False by (simp_all add: word_neq_0_conv)
    from format_frac_step [OF q(2) this q(1,3) ds(1)] have "format_frac v ?p n = Some (map digit_char (?d # ds))"
      unfolding step(1) decimal_digit [OF d] by simp
    moreover have "nat n = Suc (nat (n - 1))" using \<open>0 < n\<close> by simp
    ultimately show ?thesis
      using fraction_digits_Cons [OF ds(2) Suc.prems(2)] ds(3) by (intro exI [of _ "?d # ds"]) auto
  qed
qed

end
