(* ===== verification/Spec2Isabelle.thy ===== *)
theory Spec2Isabelle
  imports Examples Balance_Format
begin

text \<open>
  Verification of the ledger, the block store, the block processor and the wire protocol of the node.

  The program is a node of a block-lattice currency. Every account has a chain of blocks of
  its own (\<open>nano/lib/blocks.cpp\<close>); a send leaves a pending entry that a block of the
  destination receives later. The ledger (\<open>nano/secure/ledger.cpp\<close>) checks a block against
  the stored ones and adds it (\<open>ledger::process\<close>), or takes a block off again with
  everything that depends on it (\<open>ledger::rollback\<close>). It keeps its state in the tables of
  the block store (\<open>nano/node/lmdb.cpp\<close>, \<open>nano/secure/blockstore.cpp\<close>). Nodes exchange
  blocks and votes in datagrams (\<open>nano/node/common.cpp\<close>); the parser checks them and hands
  them to a visitor, from which blocks reach the block processor
  (\<open>nano/node/blockprocessor.cpp\<close>). It verifies signatures in batches, hands the blocks to the
  ledger one by one, and keeps those whose predecessor or source is missing in the table of
  unchecked blocks until it arrives.

  \<^bold>\<open>Conventions.\<close> Integers keep their width (\<open>uint64\<close>, \<open>uint128\<close>, \<open>uint256\<close>, \<open>uint512\<close> are
  words, so sums wrap around as in the program). An operation that may fail an assertion
  or follow a null pointer returns an option, and \<open>None\<close> is the abort. Readers return two
  nested options: the outer \<open>None\<close> is an abort, the inner one a reported error. State is
  passed along: a table is a map, a store a record of tables, a ledger a record with the
  store, the statistics and the bootstrap weights. BLAKE2b, Ed25519, the clock and the
  genesis constants are the fields of the record \<open>env\<close> (\<open>digest\<close>, \<open>ed25519_sign_open\<close>,
  \<open>now\<close>, \<open>genesis_account\<close>): the theorems hold for all of them.

  \<^bold>\<open>The model.\<close>
  \<^item> \<open>Prelude\<close>, \<open>Streams\<close>: words as bytes, sums over tables, and the reading and writing of
    values (\<open>try_read\<close>, \<open>read\<close>, \<open>write\<close> of \<open>nano/lib/blocks.hpp\<close>). The locales \<open>codec\<close> and
    \<open>fixed_codec\<close> are the contract of a serialiser: reading succeeds exactly on what is
    written; they are interpreted for the integers, blocks, keys, records and endpoints.
  \<^item> \<open>Blocks\<close>: the five block classes, accessors, equality, hash input, binary format.
  \<^item> \<open>Common\<close>: the records of \<open>nano/secure/common.cpp\<close> with their database formats, and the
    sideband of \<open>nano/secure/blockstore.cpp\<close>.
  \<^item> \<open>Stats\<close>: the counters of \<open>nano/node/stats.cpp\<close>.
  \<^item> \<open>Block_Store\<close>: the tables of \<open>mdb_store\<close> and every operation the ledger uses.
  \<^item> \<open>Ledger\<close>, \<open>Processor\<close>, \<open>Rollback\<close>: \<open>nano::ledger\<close>, \<open>ledger_processor\<close> with one function
    per handler, and \<open>rollback_visitor\<close>, whose two loops call each other.
    \<open>partial_function\<close> makes a loop that does not end the value \<open>None\<close>.
  \<^item> \<open>Block_Processor\<close>: the unchecked table of \<open>mdb_store\<close> and \<open>nano::block_processor\<close>: the queues,
    \<open>verify_state_blocks\<close>, \<open>process_one\<close> with every code of the ledger, \<open>queue_unchecked\<close>, the
    replacement of a block by the winner of an election, and one pass of the loop of
    \<open>process_batch\<close> as \<open>process_next\<close>. \<open>worker_step\<close> are the steps of its thread; \<open>processor_step\<close>
    adds those of the threads that bring blocks and winners. The deadlines of a batch are left
    open, and calls to parts that are not modelled are recorded in \<open>calls\<close>.
  \<^item> \<open>Votes\<close>: \<open>nano::vote\<close> with its hashes and both binary formats.
  \<^item> \<open>Messages\<close>, \<open>Message_Parser\<close>: the header and the nine messages, the work test of
    \<open>nano/lib/work.cpp\<close>, the uniquers, and \<open>message_parser\<close>.
  \<^item> \<open>Numbers\<close>, \<open>Balance_Format\<close>: the text of an account with its checksum and the decimal text
    of an amount (\<open>nano/lib/numbers.cpp\<close>), and that they are read back and printed right.

  \<^bold>\<open>The lemmas.\<close>
  \<^item> \<open>Store_View\<close> abstracts a store to a \<open>view\<close>: one map of blocks with sidebands and epochs,
    one of accounts, one of pending entries, frontiers and weights. The two tables per
    epoch of accounts and pending entries are two interpretations of one locale; each
    store operation refines a map update.
  \<^item> \<open>Ledger_Inv\<close> is the invariant of the ledger on views (chains, account records,
    frontiers, pending entries, supply, weights) and its preservation by the abstract step
    that adds a block; \<open>Provenance\<close> the invariant on who sent and received what.
  \<^item> \<open>Processor_Inv\<close> has the rules of the block lattice as the relation \<open>accepts\<close>;
    \<open>Processor_Steps\<close> shows that the handlers refine it, \<open>Complete\<close> the converse;
    \<open>Processor_Prov\<close> and \<open>Genesis\<close> that the invariants hold from the genesis block on.
  \<^item> \<open>Retract\<close>, \<open>Rollback_Steps\<close>, \<open>Rollback_Run\<close>, \<open>Rollback_Exact\<close>: taking a block off is the
    inverse of adding it; the rollback ends, by a rank that grows along predecessors and
    received sends, and takes off exactly what depends on the block. While a rollback runs
    the weights are off by a known amount.
  \<^item> \<open>Reachable\<close>, \<open>Determined\<close>, \<open>Ledger_Facts\<close>, \<open>Queries\<close>, \<open>Epoch_Abort\<close>: the ledgers that a
    node can have, what their tables are determined by, and what the queries return.
  \<^item> \<open>Stored_Blocks\<close>, \<open>Ledger_Reports\<close>: which blocks the store holds after \<open>process\<close> and \<open>rollback\<close>
    on any store, and what the codes of \<open>process\<close> say of gaps, forks and signatures.
  \<^item> \<open>Processor_Queue\<close>, \<open>Processor_Safe\<close>, \<open>Processor_Faults\<close>: the worker of the block processor
    comes to an end, by a lexicographic measure; its invariant with that of the ledger, along
    the runs \<open>node_step\<close>; and two ways in which it fails.
  \<^item> \<open>Message_Codec\<close>, \<open>Message_Delivery\<close>: readers against writers, when the parser delivers and
    when it aborts.
  \<^item> \<open>Examples\<close>: a small network on which the hypotheses of the properties hold.

  \<^bold>\<open>Assumptions.\<close> \<open>reachable env g el l\<close> are the ledgers that arise from the genesis block by
  \<open>process\<close>, \<open>rollback\<close> and \<open>weight\<close>. A block is \<open>admissible\<close> if its hash is not zero, not the
  epoch link or the genesis account and not the hash of a stored block with other hashed
  bytes (what the program expects of BLAKE2b), a signature marked as verified is good, and
  an epoch block for an account without a chain has no predecessor; the last condition is
  needed, as \<open>epoch_unopened_abort\<close> shows. \<open>network_ok\<close> says that the genesis block opens the
  genesis account and names it as its representative. A block in the queues is \<open>placeable\<close> if it
  is admissible where its mark does not already follow from the invariant, its predecessor is of
  its own account, and the account it was pulled for is right; \<open>misplaced_state_block_abort\<close> and
  \<open>claimed_account_abort\<close> show that both conditions are needed.

  \<^bold>\<open>Not modelled.\<close> LMDB transactions, cursors and the upgrades of old databases (a store has
  the newest version); the JSON forms of blocks; the wallet, RPC, IPC, command line, user
  interface and configuration, which are input and output; the asynchronous parts of the
  node: sockets, peers, bootstrap, elections and the caches around them, which the block
  processor only calls; the readers of hexadecimal and decimal numbers, which are the stream
  operators of Boost; generation of work. BLAKE2b, Ed25519, LMDB, Boost and OpenCL are third-party code.
\<close>

section \<open>The ledger\<close>

text \<open>
  C1. On a ledger that a running node can have, \<open>ledger::process\<close> returns for every admissible
  block: no assertion fails and no pointer is null. The ledger it leaves is again reachable,
  and it is the old one unless the result is \<open>progress\<close>.
\<close>

theorem process_safe:
  assumes "reachable env g el l" "network_ok env g el" "admissible env (network_of env g el) l b ver"
  shows "\<exists>l' r. process (env\<lparr>now := t\<rparr>) l b ver = Some (l', r) \<and> reachable env g el l' \<and>
    (code r \<noteq> Progress \<longrightarrow> l' = l)"
proof -
  have good: "good (env\<lparr>now := t\<rparr>) (network_of env g el) l" "admissible (env\<lparr>now := t\<rparr>) (network_of env g el) l b ver"
    using network_good [OF assms(1,2)] assms(3) by simp_all
  obtain l' r where "process (env\<lparr>now := t\<rparr>) l b ver = Some (l', r)" "code r \<noteq> Progress \<Longrightarrow> l' = l"
    by (rule process_good [OF good]) blast
  then show ?thesis using reachable_op [OF assms(1) op_process [OF assms(3)]] by blast
qed

theorem process_safe_witness:
  "\<exists>l' r. process (ex_env\<lparr>now := 9\<rparr>) ex_ledger (ex_send_to 5) Sv_unknown = Some (l', r) \<and>
    reachable ex_env ex_genesis 5 l' \<and> (code r \<noteq> Progress \<longrightarrow> l' = ex_ledger)"
  by (rule process_safe [OF ex_reachable ex_network_ok ex_send_to_admissible])

text \<open>
  C2. \<open>ledger::process\<close> implements the rules of the block lattice, in both directions: on a
  reachable ledger it reports progress for exactly the blocks that are not stored yet and
  that the relation \<open>accepts\<close> allows, and the tables then are those of an accepting step.
\<close>

theorem process_refines:
  assumes "reachable env g el l" "network_ok env g el" "admissible env (network_of env g el) l b ver"
    and run: "process env l b ver = Some (l', r)"
  shows "(code r = Progress \<longleftrightarrow> block_get (store l) (block_hash (digest env) b) = None \<and>
      (\<exists>v. accepts env l (view (store l)) b v)) \<and>
    (code r = Progress \<longrightarrow> accepts env l (view (store l)) b (view (store l')))"
proof -
  have good: "good env (network_of env g el) l"
    using network_good [OF assms(1,2)] by simp
  obtain l1 r1 where p: "process env l b ver = Some (l1, r1)"
    "code r1 = Progress \<Longrightarrow> accepts env l (lview l) b (lview l1)"
    "code r1 = Progress \<Longrightarrow> vblocks (lview l) (block_hash (digest env) b) = None"
    by (rule process_good [OF good assms(3)]) blast
  have "l1 = l'" "r1 = r" using p(1) run by simp_all
  with p show ?thesis using process_progress [OF good _ _ run] by (auto simp: block_get_view)
qed

theorem process_refines_witness:
  "\<exists>l' r. process ex_env ex_ledger (ex_send_to 5) Sv_unknown = Some (l', r) \<and> code r = Progress \<and>
    accepts ex_env ex_ledger (view (store ex_ledger)) (ex_send_to 5) (view (store l'))"
proof -
  obtain l r where "process ex_env ex_ledger (ex_send_to 5) Sv_unknown = Some (l, r)" "code r = Progress"
    by (rule ex_sent)
  with process_refines [OF ex_reachable ex_network_ok ex_send_to_admissible this(1)] show ?thesis by blast
qed

text \<open>
  C3. No step creates or destroys money: in every reachable ledger the balances of the
  accounts and the amounts of the pending entries add up, as numbers, to \<open>genesis_amount\<close>,
  which is the largest value of 128 bits.
\<close>

theorem supply_conserved:
  assumes "reachable env g el l" "network_ok env g el"
  shows "(\<Sum>a\<in>dom (account_get (store l)). unat (info_balance (the (account_get (store l) a)))) +
    (\<Sum>k\<in>dom (pending_get (store l)). unat (pending_amount (the (pending_get (store l) k)))) = 2 ^ 128 - 1"
proof -
  have "good env (network_of env g el) l"
    using network_good [OF assms(1,2)] by simp
  then have "total_supply (lview l) = unat genesis_amount"
    by (simp add: good_def ledger_ok_def ledger_inv_def supply_inv_def)
  moreover have "unat genesis_amount = 2 ^ 128 - 1"
    by (simp add: genesis_amount_def unsigned_minus_1_eq_mask mask_eq_exp_minus_1)
  ultimately show ?thesis by (simp add: total_supply_def table_sum_def)
qed

theorem supply_conserved_witness:
  "(\<Sum>a\<in>dom (account_get (store ex_ledger)). unat (info_balance (the (account_get (store ex_ledger) a)))) +
    (\<Sum>k\<in>dom (pending_get (store ex_ledger)). unat (pending_amount (the (pending_get (store ex_ledger) k)))) = 2 ^ 128 - 1"
  by (rule supply_conserved [OF ex_reachable ex_network_ok])

text \<open>
  C4. Voting weights are right: in every reachable ledger the weight stored for a
  representative is the sum, as numbers, of the balances of the accounts whose
  representative block names it.
\<close>

theorem weights_delegated:
  assumes "reachable env g el l" "network_ok env g el"
  shows "unat (representation_get (store l) r) =
    (\<Sum>a\<in>{a \<in> dom (account_get (store l)). \<exists>b. block_get (store l) (rep_block (the (account_get (store l) a))) = Some b \<and>
        representative b = r}. unat (info_balance (the (account_get (store l) a))))"
proof -
  have "good env (network_of env g el) l"
    using network_good [OF assms(1,2)] by simp
  then have inv: "ledger_inv (digest env) (lview l)" by (simp add: good_def ledger_ok_def)
  have reps: "rep_of (block_get_sideband (store l)) (the (account_get (store l) a)) = r \<longleftrightarrow>
      (\<exists>b. block_get (store l) (rep_block (the (account_get (store l) a))) = Some b \<and> representative b = r)"
    if a: "a \<in> dom (account_get (store l))" for a
  proof -
    obtain i where i: "account_get (store l) a = Some i" using a by auto
    then have "rep_at (vblocks (lview l)) (head i) (rep_block i)"
      using chain_inv_account [OF ledger_invD(1) [OF inv], of a i] by (simp add: account_inv_def)
    from rep_at_stored [OF this] i show ?thesis by (auto simp: rep_of_def block_get_view)
  qed
  have "unat (representation_get (store l) r) = unat (delegated (lview l) r)"
    using inv fun_cong [of "vweight (lview l)" "delegated (lview l)" r] by (simp add: ledger_inv_def)
  also have "\<dots> = (\<Sum>a\<in>{a \<in> dom (account_get (store l)). rep_of (block_get_sideband (store l)) (the (account_get (store l) a)) = r}.
      unat (info_balance (the (account_get (store l) a))))"
    using delegated_unat [of "lview l" r] inv by (simp add: ledger_inv_def)
  also have "{a \<in> dom (account_get (store l)). rep_of (block_get_sideband (store l)) (the (account_get (store l) a)) = r} =
      {a \<in> dom (account_get (store l)). \<exists>b. block_get (store l) (rep_block (the (account_get (store l) a))) = Some b \<and>
        representative b = r}"
    using reps by blast
  finally show ?thesis .
qed

theorem weights_delegated_witness:
  "unat (representation_get (store ex_ledger) 1) =
    (\<Sum>a\<in>{a \<in> dom (account_get (store ex_ledger)). \<exists>b. block_get (store ex_ledger) (rep_block (the (account_get (store ex_ledger) a))) = Some b \<and>
        representative b = 1}. unat (info_balance (the (account_get (store ex_ledger) a))))"
  by (rule weights_delegated [OF ex_reachable ex_network_ok])

text \<open>
  C5. \<open>ledger::rollback\<close> of a stored block other than the genesis block ends without an abort.
  It takes off exactly the blocks that depend on that block, along predecessors and
  received sends, reports each of them once, leaves every other block, and leaves a
  reachable ledger.
\<close>

theorem rollback_correct:
  assumes "reachable env g el l" "network_ok env g el"
    and h: "block_get (store l) h \<noteq> None" "h \<noteq> block_hash (digest env) (Open_block g)"
  shows "\<exists>l' hs. rollback_list (env\<lparr>now := t\<rparr>) l h list = Some (l', list @ hs) \<and> reachable env g el l' \<and>
    distinct hs \<and> set hs = {x. depends (network_of env g el) (core (view (store l))) h x} \<and>
    (\<forall>x. block_get (store l') x = (if x \<in> set hs then None else block_get (store l) x))"
proof -
  let ?n = "network_of env g el"
  have good: "good (env\<lparr>now := t\<rparr>) ?n l"
    using network_good [OF assms(1,2)] by simp
  have h': "vblocks (lview l) h \<noteq> None" "h \<noteq> net_genesis ?n"
    using h by (simp_all add: block_get_view network_of_def)
  obtain l' hs where r: "rollback_list (env\<lparr>now := t\<rparr>) l h list = Some (l', list @ hs)" "good (env\<lparr>now := t\<rparr>) ?n l'"
    "keeps l l'" "distinct hs" "set hs = {x. depends ?n (core (lview l)) h x}"
    "\<And>x. core (lview l') x = (if x \<in> set hs then None else core (lview l) x)"
    by (rule rollback_good [OF good h']) (rule that)
  have get: "block_get (store k) x = map_option fst (core (lview k) x)" for k x
    by (simp add: core_def block_get_view option.map_comp comp_def)
  have "block_get (store l') x = (if x \<in> set hs then None else block_get (store l) x)" for x
    unfolding get r(6) by simp
  moreover have "reachable env g el l'"
    by (rule reachable_op [OF assms(1) op_rollback [OF h'(2) r(1)]])
  ultimately show ?thesis using r(1,4,5) by blast
qed

theorem rollback_correct_witness:
  "\<exists>l r. process ex_env ex_ledger (ex_send_to 5) Sv_unknown = Some (l, r) \<and>
    (\<exists>l' hs. rollback_list (ex_env\<lparr>now := 9\<rparr>) l 80 [] = Some (l', [] @ hs) \<and> reachable ex_env ex_genesis 5 l' \<and>
      distinct hs \<and> set hs = {x. depends ex_network (core (view (store l))) 80 x} \<and>
      (\<forall>x. block_get (store l') x = (if x \<in> set hs then None else block_get (store l) x)))"
proof -
  obtain l r where l: "process ex_env ex_ledger (ex_send_to 5) Sv_unknown = Some (l, r)" "reachable ex_env ex_genesis 5 l"
    "ex_after 5 l"
    by (rule ex_sent)
  have "block_get (store l) 80 \<noteq> None" "80 \<noteq> block_hash (digest ex_env) (Open_block ex_genesis)"
    using l(3) by (auto simp: ex_after_def block_get_view ex_genesis_hash)
  from rollback_correct [OF l(2) ex_network_ok this] l(1) show ?thesis by blast
qed

text \<open>
  C6. Rolling back undoes processing: after a block has been taken in, rolling it back at any
  later time takes off that block alone and restores the stored blocks, the heads,
  representatives, first blocks and balances of all accounts, the pending entries, the
  frontiers and the voting weights.
\<close>

theorem rollback_undoes_process:
  assumes "reachable env g el l" "network_ok env g el" "admissible env (network_of env g el) l b ver"
    and "process env l b ver = Some (l1, r)" "code r = Progress"
  shows "\<exists>l2. rollback_list (env\<lparr>now := t\<rparr>) l1 (block_hash (digest env) b) [] = Some (l2, [block_hash (digest env) b]) \<and>
    core (view (store l2)) = core (view (store l)) \<and> account_facts (view (store l2)) = account_facts (view (store l)) \<and>
    pending_facts (view (store l2)) = pending_facts (view (store l)) \<and> frontiers (store l2) = frontiers (store l) \<and>
    representation_get (store l2) = representation_get (store l)"
proof -
  let ?n = "network_of env g el"
  have good: "good env ?n l"
    using network_good [OF assms(1,2)] by simp
  obtain l2 where l2: "rollback_list (env\<lparr>now := t\<rparr>) l1 (block_hash (digest env) b) [] = Some (l2, [] @ [block_hash (digest env) b])"
    "good env ?n l2" "core (lview l2) = core (lview l)"
    by (rule rollback_after_process [OF good assms(3-5) refl])
  from good_determined [OF l2(2) good l2(3)] l2(1,3) show ?thesis by simp
qed

theorem rollback_undoes_process_witness:
  "\<exists>l1 r l2. process ex_env ex_ledger (ex_send_to 5) Sv_unknown = Some (l1, r) \<and>
    rollback_list (ex_env\<lparr>now := 9\<rparr>) l1 (block_hash (digest ex_env) (ex_send_to 5)) [] =
      Some (l2, [block_hash (digest ex_env) (ex_send_to 5)]) \<and>
    account_facts (view (store l2)) = account_facts (view (store ex_ledger))"
proof -
  obtain l r where "process ex_env ex_ledger (ex_send_to 5) Sv_unknown = Some (l, r)" "code r = Progress"
    by (rule ex_sent)
  from rollback_undoes_process [OF ex_reachable ex_network_ok ex_send_to_admissible this, of 9] this(1) show ?thesis
    by blast
qed

text \<open>
  C7. The tables other than the blocks carry no information of their own: two reachable
  ledgers of a network with the same blocks have the same account heads, representatives
  and balances, the same pending entries, frontiers and voting weights.
\<close>

theorem tables_determined:
  assumes "reachable env g el l" "reachable env g el l'" "network_ok env g el"
    and "core (view (store l)) = core (view (store l'))"
  shows "account_facts (view (store l)) = account_facts (view (store l')) \<and>
    pending_facts (view (store l)) = pending_facts (view (store l')) \<and> frontiers (store l) = frontiers (store l') \<and>
    representation_get (store l) = representation_get (store l')"
  using good_determined [OF network_good [OF assms(1,3)] network_good [OF assms(2,3)] assms(4)] by simp

theorem tables_determined_witness:
  "\<exists>l1 r l2. process ex_env ex_ledger (ex_send_to 5) Sv_unknown = Some (l1, r) \<and>
    rollback_list (ex_env\<lparr>now := 9\<rparr>) l1 80 [] = Some (l2, [80]) \<and>
    representation_get (store l2) = representation_get (store ex_ledger)"
proof -
  obtain l r where l: "process ex_env ex_ledger (ex_send_to 5) Sv_unknown = Some (l, r)" "code r = Progress"
    "reachable ex_env ex_genesis 5 l"
    by (rule ex_sent)
  obtain l2 where l2: "rollback_list (ex_env\<lparr>now := 9\<rparr>) l (block_hash (digest ex_env) (ex_send_to 5)) [] =
      Some (l2, [] @ [block_hash (digest ex_env) (ex_send_to 5)])" "core (lview l2) = core (lview ex_ledger)"
    using rollback_after_process [OF ex_good ex_send_to_admissible l(1,2) refl, of 9 "[]"] by metis
  have "80 \<noteq> net_genesis ex_network" by (simp add: network_of_def ex_genesis_hash)
  then have "reachable ex_env ex_genesis 5 l2"
    using reachable_op [OF l(3) op_rollback, of 80 9 "[]" l2] l2(1) by (simp add: ex_send_to_hash)
  from tables_determined [OF this ex_reachable ex_network_ok l2(2)] l(1) l2(1) show ?thesis
    by (auto simp: ex_send_to_hash)
qed

text \<open>
  C8. What is pending can be received: if an entry for account \<open>a\<close> is pending, the signed
  state block on the head of \<open>a\<close> that names the send and adds its amount is accepted
  (provided its hash is new). The entry is then gone and the balance has grown by the
  amount, as a number: it cannot overflow.
\<close>

theorem pending_receivable:
  assumes "reachable env g el l" "network_ok env g el" "pending_get (store l) (Pending_key a h) = Some p" "a \<noteq> 0"
    and "hashables b = receiving (store l) a h (pending_amount p) rep" "signed_by env a (State_block b)"
    and "block_get (store l) (block_hash (digest env) (State_block b)) = None"
    and "admissible env (network_of env g el) l (State_block b) ver"
  shows "\<exists>l' r. process env l (State_block b) ver = Some (l', r) \<and> code r = Progress \<and>
    pending_get (store l') (Pending_key a h) = None \<and>
    unat (account_balance (store l') a) = unat (account_balance (store l) a) + unat (pending_amount p)"
  by (rule receive_possible [OF network_good [OF assms(1,2)] assms(3-8)]) blast

theorem pending_receivable_witness:
  "\<exists>l l' r. reachable ex_env ex_genesis 5 l \<and> process ex_env l (State_block (ex_receive 5)) Sv_unknown = Some (l', r) \<and>
    code r = Progress \<and> pending_get (store l') (Pending_key 2 80) = None \<and>
    unat (account_balance (store l') 2) = unat (account_balance (store l) 2) + unat (genesis_amount - 5)"
proof -
  obtain l r where l: "reachable ex_env ex_genesis 5 l" "ex_after 5 l" by (rule ex_sent)
  then have p: "pending_get (store l) (Pending_key 2 80) = Some \<lparr>pending_source = 1, pending_amount = genesis_amount - 5,
      pending_epoch = Epoch_0\<rparr>" by (simp add: ex_after_def)
  have "block_get (store l) (block_hash (digest ex_env) (State_block (ex_receive 5))) = None"
    using l(2) by (simp add: ex_receive_hash ex_after_def block_get_view)
  from pending_receivable [OF l(1) ex_network_ok p _ _ ex_signed this ex_receive_admissible [OF l(2)]] l(1) ex_receiving [OF l(2)]
  show ?thesis by fastforce
qed

text \<open>
  C9. Every send is received at most once and in full: in every reachable ledger a stored send
  is pending for its destination unless exactly one stored block receives it; that block is
  in the chain of the destination and its balance is higher than its predecessor's by
  exactly what the send took off.
\<close>

theorem received_once:
  assumes "reachable env g el l" "network_ok env g el" "sent (core (view (store l))) s = Some d"
  defines "n \<equiv> network_of env g el" and "c \<equiv> core (view (store l))"
  shows "(pending_get (store l) (Pending_key d s) = None \<longleftrightarrow> (\<exists>!h. received_in n c h = Some s)) \<and>
    (\<forall>h. received_in n c h = Some s \<longrightarrow> account_at c h = d \<and>
      unat (bal_at c h) + unat (bal_at c s) = unat (bal_at c (prev_at c h)) + unat (bal_at c (prev_at c s)))"
proof -
  obtain rank where "prov_inv n c (vversion (view (store l))) (pending_get (store l)) rank"
    using network_good [OF assms(1,2)] by (auto simp: good_def view_prov_def n_def c_def)
  note D = prov_invD [OF this]
  have s: "sent c s = Some d" using assms(3) by (simp add: c_def)
  have "pending_get (store l) (Pending_key d s) = None \<longleftrightarrow> (\<exists>!h. received_in n c h = Some s)"
    using D(11) [OF s] D(10) by metis
  moreover have "account_at c h = d \<and>
      unat (bal_at c h) + unat (bal_at c s) = unat (bal_at c (prev_at c h)) + unat (bal_at c (prev_at c s))"
    if h: "received_in n c h = Some s" for h
  proof -
    have r: "account_at c h = d" "bal_at c (prev_at c h) \<le> bal_at c h"
      "bal_at c h - bal_at c (prev_at c h) = bal_at c (prev_at c s) - bal_at c s"
      using D(9) [OF h] s by (simp_all add: receipt_def)
    have le: "bal_at c s \<le> bal_at c (prev_at c s)" using D(8) s by (simp add: sends_down_def)
    have "unat (bal_at c h) - unat (bal_at c (prev_at c h)) = unat (bal_at c (prev_at c s)) - unat (bal_at c s)"
      using arg_cong [OF r(3), of unat] r(2) le by (simp add: unat_sub)
    then show ?thesis using r(1,2) le by (simp add: word_le_nat_alt)
  qed
  ultimately show ?thesis by blast
qed

theorem received_once_witness:
  "\<exists>l. reachable ex_env ex_genesis 5 l \<and> pending_get (store l) (Pending_key 2 80) \<noteq> None \<and>
    \<not> (\<exists>!h. received_in ex_network (core (view (store l))) h = Some 80)"
proof -
  obtain l r where l: "reachable ex_env ex_genesis 5 l" "ex_after 5 l" by (rule ex_sent)
  have "sent (core (view (store l))) 80 = Some 2"
    using l(2) by (simp add: sent_def core_def ex_after_def ex_send_to_def)
  from received_once [OF l(1) ex_network_ok this] l show ?thesis
    by (intro exI [of _ l]) (simp add: ex_after_def)
qed

text \<open>
  C13. \<open>ledger::dump_account_chain\<close> ends for every account of a reachable ledger, without a null
  block, and prints each block of that account once, from the head on.
\<close>

theorem account_chain_dumped:
  assumes "reachable env g el l" "network_ok env g el" "account_get (store l) a = Some i"
  shows "\<exists>hs. dump_account_chain (store l) a = Some (head i # hs) \<and> distinct (head i # hs) \<and>
    set (head i # hs) = {h. block_account (store l) h = Some a}"
  by (rule dump_account_chain_good [OF network_good [OF assms(1,2)] assms(3)]) blast

theorem account_chain_dumped_witness:
  "\<exists>hs. dump_account_chain ex_store 1 = Some (96 # hs) \<and> distinct (96 # hs) \<and>
    set (96 # hs) = {h. block_account ex_store h = Some 1}"
  using account_chain_dumped [OF ex_reachable ex_network_ok, of 1] by (simp add: ex_store_get)

text \<open>
  C14. \<open>ledger::could_fit\<close>, by which the node decides whether a block is worth trying, is true of
  every block that \<open>ledger::process\<close> takes in.
\<close>

theorem processed_could_fit:
  assumes "reachable env g el l" "network_ok env g el" "admissible env (network_of env g el) l b ver"
    and run: "process env l b ver = Some (l', r)" "code r = Progress"
  shows "could_fit l b = Some True"
proof -
  have good: "good env (network_of env g el) l" by (rule network_good [OF assms(1,2)])
  obtain l1 r1 where p: "process env l b ver = Some (l1, r1)" "code r1 = Progress \<Longrightarrow> accepts env l (lview l) b (lview l1)"
    by (rule process_good [OF good assms(3)]) blast
  have "accepts env l (lview l) b (lview l1)" using p run by simp
  then show ?thesis by (rule could_fit_accepted [OF good])
qed

theorem processed_could_fit_witness: "could_fit ex_ledger (ex_send_to 5) = Some True"
proof -
  obtain l r where "process ex_env ex_ledger (ex_send_to 5) Sv_unknown = Some (l, r)" "code r = Progress"
    by (rule ex_sent)
  from processed_could_fit [OF ex_reachable ex_network_ok ex_send_to_admissible this] show ?thesis .
qed

text \<open>
  C15. When \<open>ledger::process\<close> reports a send, receive or change block as a fork,
  \<open>ledger::forked_block\<close> returns the block it competes with: a stored block with the same
  predecessor.
\<close>

theorem fork_has_rival:
  assumes "reachable env g el l" "network_ok env g el" "process env l b ver = Some (l', r)" "code r = Fork"
    and "type_of b \<in> {Bt_send, Bt_receive, Bt_change}"
  shows "\<exists>f. forked_block (digest env) (store l) b = Some f \<and> previous f = previous b"
proof -
  have chain: "chain_inv (digest env) (view (store l))"
    using network_good [OF assms(1,2)] by (simp add: good_def ledger_ok_def ledger_inv_def)
  obtain c where c: "\<not> block_exists_type (store l) (type_of b) (block_hash (digest env) b)"
    "block_get (store l) (root b) = Some c" "legacy c" "frontier_get (store l) (root b) = 0"
    by (rule legacy_fork [OF assms(3-5)])
  obtain f where "forked_block (digest env) (store l) b = Some f" "previous f = root b"
    by (rule forked_successor [OF chain c])
  then show ?thesis using legacy_root [OF assms(5)] by auto
qed

definition ex_change :: block where
  "ex_change = Change_block \<lparr>hashables = \<lparr>change_previous = 96, change_representative = 3\<rparr>, signature = 0, work = 0\<rparr>"

theorem fork_has_rival_witness:
  "\<exists>l l' r. reachable ex_env ex_genesis 5 l \<and> process ex_env l ex_change Sv_unknown = Some (l', r) \<and> code r = Fork \<and>
    (\<exists>f. forked_block (digest ex_env) (store l) ex_change = Some f \<and> previous f = 96)"
proof -
  obtain l r where l: "reachable ex_env ex_genesis 5 l" "ex_after 5 l" "good ex_env ex_network l" by (rule ex_sent)
  have ok: "blocks_ok (store l)" using l(3) by (simp add: good_def ledger_ok_def store_ok_def)
  have "block_get_sideband (store l) (block_hash (digest ex_env) ex_change) = None"
    using l(2) by (simp add: ex_after_def ex_hash ex_change_def)
  from fresh_type [OF ok this] have new: "\<not> block_exists_type (store l) Bt_change 64"
    by (simp add: ex_change_def ex_hash)
  have p: "block_get (store l) 96 = Some (Open_block ex_genesis)" "frontier_get (store l) 96 = 0"
    using l(2) by (simp_all add: ex_after_def block_get_view frontier_get_def)
  have "\<exists>r. process ex_env l ex_change Sv_unknown = Some (l, r) \<and> code r = Fork"
    using new p by (simp add: process_def change_block_process_def ex_change_def ex_hash Let_def)
  then obtain r where r: "process ex_env l ex_change Sv_unknown = Some (l, r)" "code r = Fork" by blast
  from fork_has_rival [OF l(1) ex_network_ok r] r l(1) show ?thesis by (auto simp: ex_change_def)
qed

text \<open>
  C16. \<open>ledger::account_pending\<close> returns the sum of the amounts pending for the account, as a
  number, for every account but the largest one (whose successor, the end of the range it
  scans, is 0).
\<close>

theorem account_pending_total:
  assumes "reachable env g el l" "network_ok env g el" "a \<noteq> - 1"
  shows "\<exists>x. account_pending (store l) a = Some x \<and>
    unat x = (\<Sum>k\<in>{k \<in> dom (pending_get (store l)). key_account k = a}. unat (pending_amount (the (pending_get (store l) k))))"
  by (rule account_pending_good [OF network_good [OF assms(1,2)] assms(3)]) blast

theorem account_pending_total_witness:
  "\<exists>l x. reachable ex_env ex_genesis 5 l \<and> account_pending (store l) 2 = Some x \<and> unat x = unat (genesis_amount - 5)"
proof -
  obtain l r where l: "reachable ex_env ex_genesis 5 l" "ex_after 5 l" by (rule ex_sent)
  have "{k \<in> dom (pending_get (store l)). key_account k = 2} = {Pending_key 2 80}"
    using l(2) by (auto simp: ex_after_def split: if_splits)
  with account_pending_total [OF l(1) ex_network_ok, of 2] l show ?thesis by (auto simp: ex_after_def)
qed

text \<open>
  C17. \<open>ledger::process\<close> aborts on some epoch blocks: one for an account that has no chain, with
  representative and balance 0, whose predecessor is any stored block of balance 0. It
  passes every test, is stored, and then \<open>change_latest\<close> fails its assertion that the first
  block of an account has no predecessor.
\<close>

theorem epoch_unopened_abort:
  assumes "reachable env g el l" "network_ok env g el" "epoch_link l \<noteq> 0"
    and "block_get (store l) (block_hash (digest env) (State_block b)) = None"
    and "signed_by env (epoch_signer l) (State_block b)"
    and "hashables b = \<lparr>state_account = a, state_previous = p, state_representative = 0, state_balance = 0,
      state_link = epoch_link l\<rparr>"
    and "a \<noteq> 0" "account_get (store l) a = None" "p \<noteq> 0" "block_balance (store l) p = Some 0"
  shows "process env l (State_block b) ver = None"
proof -
  have "store_ok (store l)" using network_good [OF assms(1,2)] by (simp add: good_def ledger_ok_def)
  from process_epoch_abort [OF this refl, of env b ver] assms(3-) show ?thesis
    by (simp add: block_get_view signed_by_def)
qed

definition ex_epoch :: "state_hashables signed" where
  "ex_epoch = \<lparr>hashables = \<lparr>state_account = 3, state_previous = 80, state_representative = 0, state_balance = 0,
     state_link = 5\<rparr>, signature = 0, work = 0\<rparr>"

theorem epoch_unopened_abort_witness:
  "\<exists>l. reachable ex_env ex_genesis 5 l \<and> process ex_env l (State_block ex_epoch) Sv_unknown = None"
proof -
  obtain l r where l: "reachable ex_env ex_genesis 5 l" "ex_after 0 l" by (rule ex_sent)
  have "block_get (store l) (block_hash (digest ex_env) (State_block ex_epoch)) = None" "block_balance (store l) 80 = Some 0"
    using l(2) by (simp_all add: ex_hash ex_epoch_def ex_after_def block_get_view block_balance_def ex_send_to_def
        entry_balance_def)
  with epoch_unopened_abort [OF l(1) ex_network_ok _ _ ex_signed, of ex_epoch 3 80] l show ?thesis
    by (auto simp: ex_epoch_def ex_after_def)
qed

text \<open>
  C18. The node aborts on some signed state blocks: one of an open account whose predecessor is
  the newest block of another account is reported as a fork, though nothing competes with
  it, and \<open>ledger::forked_block\<close>, which \<open>node::process_fork\<close> then calls, fails its assertion.
\<close>

theorem misplaced_state_block_abort:
  assumes "reachable env g el l" "network_ok env g el"
    and "block_get (store l) (block_hash (digest env) (State_block b)) = None"
    and "signed_by env (state_account (hashables b)) (State_block b)"
    and "account_get (store l) (state_account (hashables b)) = Some i" "state_account (hashables b) \<noteq> 0"
    and "block_get_sideband (store l) (state_previous (hashables b)) = Some (c, sc)" "successor sc = 0"
    and "state_previous (hashables b) \<noteq> head i" "account_get (store l) (state_previous (hashables b)) = None"
    and "state_link (hashables b) \<noteq> epoch_link l"
  shows "(\<exists>r. process env l (State_block b) ver = Some (l, r) \<and> code r = Fork) \<and>
    forked_block (digest env) (store l) (State_block b) = None"
proof -
  have "chain_inv (digest env) (view (store l))" "blocks_ok (store l)"
    using network_good [OF assms(1,2)] by (simp_all add: good_def ledger_ok_def ledger_inv_def store_ok_def)
  from state_fork_abort [OF this _ _ assms(5-), of env] assms(3,4) show ?thesis
    by (simp add: block_get_view signed_by_def)
qed

definition ex_misplaced :: "state_hashables signed" where
  "ex_misplaced = \<lparr>hashables = \<lparr>state_account = 2, state_previous = 80, state_representative = 2, state_balance = 5,
     state_link = 7\<rparr>, signature = 0, work = 0\<rparr>"

theorem misplaced_state_block_abort_witness:
  "\<exists>l r. reachable ex_env ex_genesis 5 l \<and> process ex_env l (State_block ex_misplaced) Sv_unknown = Some (l, r) \<and>
    code r = Fork \<and> forked_block (digest ex_env) (store l) (State_block ex_misplaced) = None"
proof -
  obtain l where l: "reachable ex_env ex_genesis 5 l" "epoch_link l = 5" "account_get (store l) 80 = None"
    "block_get_sideband (store l) 177 = None" "\<exists>i. account_get (store l) 2 = Some i \<and> head i = 176"
    "\<exists>sb. block_get_sideband (store l) 80 = Some (ex_send_to 5, sb) \<and> successor sb = 0"
    by (rule ex_received)
  have f: "state_account (hashables ex_misplaced) = 2" "state_previous (hashables ex_misplaced) = 80"
    "state_link (hashables ex_misplaced) = 7" "block_hash (digest ex_env) (State_block ex_misplaced) = 177"
    by (simp_all add: ex_misplaced_def ex_hash)
  from l(4) have "block_get (store l) 177 = None" by (simp add: block_get_view)
  with misplaced_state_block_abort [OF l(1) ex_network_ok, of ex_misplaced] l ex_signed show ?thesis
    unfolding f by fastforce
qed

text \<open>
  C21. The representative visitor is right: from any stored block of a reachable ledger
  \<open>ledger::representative\<close> ends at a stored block that carries a representative, and from
  the head of an account it ends at the block the account record names.
\<close>

theorem representative_found:
  assumes "reachable env g el l" "network_ok env g el" "account_get (store l) a = Some i"
  shows "ledger_representative (digest env) (store l) (head i) = Some (rep_block i) \<and>
    (\<exists>b. block_get (store l) (rep_block i) = Some b \<and> type_of b \<in> {Bt_open, Bt_change, Bt_state})"
proof -
  have inv: "seen_as (lview l) (store l)" "chain_inv (digest env) (lview l)"
    using network_good [OF assms(1,2)] by (simp_all add: good_def ledger_ok_def ledger_inv_def seen_as_def)
  have rep: "rep_at (vblocks (lview l)) (head i) (rep_block i)"
    using chain_inv_account [OF inv(2), of a i] assms(3) by (simp add: account_inv_def)
  have "ledger_representative (digest env) (store l) (head i) = Some (rep_block i)"
    by (rule rep_reads [OF inv rep])
  moreover have "\<exists>b. block_get (store l) r = Some b \<and> type_of b \<in> {Bt_open, Bt_change, Bt_state}"
    if "rep_at (vblocks (lview l)) h r" for h r
    using that by (induction rule: rep_at.induct) (auto simp: block_get_view)
  ultimately show ?thesis using rep by blast
qed

theorem representative_found_witness:
  "ledger_representative (digest ex_env) ex_store 96 = Some 96"
  using representative_found [OF ex_reachable ex_network_ok, of 1] by (simp add: ex_store_get)



section \<open>Blocks, votes and statistics\<close>

text \<open>
  C23. Blocks survive the network and the database: reading a block from a stream succeeds
  exactly on the bytes that writing that block produces, and leaves the rest of the stream.
  So no two blocks are written the same, and no written block is a prefix of another.
\<close>

theorem block_roundtrip:
  "deserialize_block_stream s = Some (Some (b, r)) \<longleftrightarrow> s = serialize_block b @ r"
  by (rule deserialize_block_stream_iff)

text \<open>
  C24. Reading a block of a given type aborts exactly for the types that are no block, and
  reports an error exactly on a stream shorter than the size of the type; a block that is
  written has that size.
\<close>

theorem block_read_bounds:
  "(deserialize_block t s = None \<longleftrightarrow> t \<notin> {Bt_send, Bt_receive, Bt_open, Bt_change, Bt_state}) \<and>
   (deserialize_block t s = Some None \<longleftrightarrow>
      t \<in> {Bt_send, Bt_receive, Bt_open, Bt_change, Bt_state} \<and> length s < the (block_size t)) \<and>
   block_size (type_of b) = Some (length (serialize b))"
  using deserialize_block_null [of t s] length_serialize [of b] by (cases t) simp_all

lemma cleared_eq: "x\<lparr>work := 0, signature := 0\<rparr> = y\<lparr>work := 0, signature := 0\<rparr> \<longleftrightarrow> hashables x = hashables y"
  for x y :: "'h signed"
  by (cases x; cases y) auto

text \<open>
  C25. What is hashed identifies a block up to its signature and its work, with one exception:
  a receive block and a change block with the same predecessor hash the same bytes when
  the source of the one is the representative of the other.
\<close>

theorem hash_input_identifies:
  "hash_input a = hash_input b \<longleftrightarrow>
     signature_set 0 (block_work_set 0 a) = signature_set 0 (block_work_set 0 b) \<or>
     type_of a \<noteq> type_of b \<and> type_of a \<in> {Bt_receive, Bt_change} \<and> type_of b \<in> {Bt_receive, Bt_change} \<and>
     previous a = previous b \<and> source a + representative a = source b + representative b"
proof (cases "type_of a = type_of b")
  case True
  then show ?thesis by (cases a; cases b) (simp_all add: hashables_hash_inject cleared_eq)
next
  case False
  have "hash_input a \<noteq> hash_input b \<or> type_of a \<in> {Bt_receive, Bt_change} \<and> type_of b \<in> {Bt_receive, Bt_change}"
    using hash_input_type [of a b] False by blast
  moreover have "hash_input (Receive_block r) = hash_input (Change_block c) \<longleftrightarrow>
      receive_previous (hashables r) = change_previous (hashables c) \<and>
      receive_source (hashables r) = change_representative (hashables c)" for r c
    by (simp add: receive_change_hash)
  ultimately show ?thesis
    using False
    by (cases a; cases b) (simp_all del: hash_input.simps, (metis+)?)
qed

text \<open>
  C26. The equality operators of blocks, votes and account records compare every field.
\<close>

theorem equality_complete:
  "(blocks_equal a b \<longleftrightarrow> a = b) \<and> (vote_eq v w \<longleftrightarrow> v = w) \<and> (account_info_eq i j \<longleftrightarrow> i = j)"
  by (simp add: blocks_equal_eq vote_eq_eq account_info_eq_eq)




text \<open>
  C28. The sideband a block is stored with has the size of its type. Read back, it differs only
  in the fields that the type does not store, which the block itself holds; the height of an
  open block is 1.
\<close>

theorem sideband_roundtrip:
  assumes "sb_type b0 = sb_type b"
  shows "length (sideband_serialize b) = sideband_size (sb_type b) \<and>
    (\<exists>b1. sideband_deserialize b0 (sideband_serialize b @ r) = Some (b1, r) \<and>
      successor b1 = successor b \<and> timestamp b1 = timestamp b \<and>
      height b1 = (if sb_type b = Bt_open then 1 else height b) \<and>
      sb_account b1 = (if sb_type b \<in> {Bt_state, Bt_open} then sb_account b0 else sb_account b) \<and>
      sb_balance b1 = (if sb_type b \<in> {Bt_receive, Bt_change, Bt_open} then sb_balance b else sb_balance b0))"
  using sideband_deserialize_serialize [OF assms] by (simp add: length_sideband_serialize sideband_read_back_def)

theorem sideband_roundtrip_witness:
  "length (sideband_serialize (genesis_sideband ex_env)) = sideband_size Bt_open"
  using sideband_roundtrip [of "genesis_sideband ex_env" "genesis_sideband ex_env"] by (simp add: genesis_sideband_def)

text \<open>
  C29. Votes survive both of their formats: a vote with blocks comes back from the database
  format as it was, and in a \<open>confirm_ack\<close> message for hashes it comes back with every block
  replaced by its hash.
\<close>

theorem vote_roundtrip:
  assumes "vote_blocks v \<noteq> []"
  shows "vote_deserialize (vote_serialize v) = Some (Some v) \<and>
    (\<exists>s. vote_serialize_typed H Bt_not_a_block v = Some s \<and>
      vote_read Bt_not_a_block s =
        Some (Some (v\<lparr>vote_blocks := map (\<lambda>x. Vote_hash (item_hash H x)) (vote_blocks v)\<rparr>)))"
proof -
  obtain x xs where v: "vote_blocks v = x # xs" using assms by (cases "vote_blocks v") simp_all
  obtain s where s: "items_serialize_typed H Bt_not_a_block (vote_blocks v) = Some s"
    "items_read_typed Bt_not_a_block s = Some (Some (map (\<lambda>x. Vote_hash (item_hash H x)) (vote_blocks v)))"
    by (rule items_hashed_round)
  have hashed: "items_read_typed Bt_not_a_block s =
      Some (Some (Vote_hash (item_hash H x) # map (\<lambda>x. Vote_hash (item_hash H x)) xs))" using s(2) v by simp
  obtain s' where "vote_serialize_typed H Bt_not_a_block v = Some s'" "vote_read Bt_not_a_block s' =
      Some (Some (v\<lparr>vote_blocks := Vote_hash (item_hash H x) # map (\<lambda>x. Vote_hash (item_hash H x)) xs\<rparr>))"
    by (rule vote_read_typed [OF assms s(1) hashed])
  then show ?thesis using vote_deserialize_serialize [OF assms] v by simp
qed

definition ex_vote :: vote where
  "ex_vote = \<lparr>vote_sequence = 4, vote_blocks = [Vote_hash 3, Vote_block ex_send], vote_account = 1, vote_signature = 2\<rparr>"

theorem vote_roundtrip_witness:
  "vote_deserialize (vote_serialize ex_vote) = Some (Some ex_vote)"
  using vote_roundtrip [of ex_vote] by (simp add: ex_vote_def)



section \<open>The network protocol\<close>





text \<open>
  C33. The parser aborts on exactly these datagrams: a valid header of a \<open>publish\<close>, a
  \<open>confirm_req\<close> or a \<open>confirm_ack\<close> message (the last with at least one byte after the fixed
  part of its vote) whose extension bits name a type that is no block. Anyone can send one.
\<close>

theorem parser_aborts:
  "deserialize_buffer p s = None \<longleftrightarrow>
    (\<exists>h r. known_type (header_type h) \<and> s = header_serialize (parser_network p) h @ r \<and> length r \<le> 500 \<and>
      protocol_version_min \<le> version_using h \<and>
      (parser_network p = Nano_beta_network \<longrightarrow> protocol_version_reasonable_min \<le> version_using h) \<and>
      (header_type h = Mt_publish \<and> header_block_type h \<notin> block_types \<or>
       header_type h = Mt_confirm_req \<and> header_block_type h \<notin> insert Bt_not_a_block block_types \<or>
       header_type h = Mt_confirm_ack \<and> 104 < length r \<and> header_block_type h \<notin> insert Bt_not_a_block block_types))"
  unfolding buffer_abort fatal_def ..

theorem parser_aborts_witness:
  "deserialize_buffer ex_parser (header_serialize Nano_live_network
     (block_type_set (message_header_init Mt_publish) Bt_not_a_block)) = None"
proof -
  let ?h = "block_type_set (message_header_init Mt_publish) Bt_not_a_block"
  have "protocol_version_min \<le> version_using ?h" by (simp add: protocol_version_def protocol_version_min_def)
  then show ?thesis
    by (subst parser_aborts) (intro exI [of _ ?h] exI [of _ "[]"], simp add: ex_parser_def block_types_def)
qed

text \<open>
  C34. Two statuses of the parser say less than their names: a datagram longer than 508 bytes
  has the status \<open>success\<close> though nothing was parsed, and the statuses for a wrong magic
  number and a wrong network never occur (their tests look at constants of the program, and
  such a datagram has an invalid header).
\<close>

theorem parser_statuses:
  "(508 < length s \<longrightarrow> deserialize_buffer p s = Some (Success, None)) \<and>
   deserialize_buffer p s \<noteq> Some (Invalid_magic, m) \<and> deserialize_buffer p s \<noteq> Some (Invalid_network, m)"
proof -
  have "parse_header p h r \<noteq> Some (st, m)" if "st = Invalid_magic \<or> st = Invalid_network" for h r st
    using that unfolding parse_header_def parse_keepalive_def parse_publish_def parse_confirm_req_def parse_confirm_ack_def
      parse_node_id_handshake_def
    by (auto simp: bind_eq_Some_conv split: message_type.splits option.splits if_splits)
  then show ?thesis by (auto simp: deserialize_buffer_def max_safe_udp_message_size_def split: option.splits)
qed

theorem parser_statuses_witness: "deserialize_buffer ex_parser (replicate 509 0) = Some (Success, None)"
  using parser_statuses [of "replicate 509 0" ex_parser] by simp

text \<open>
  C35. The length a node expects after the header of a \<open>bulk_pull\<close> is the length of what is
  written, with or without a count, and the message is read back as it was.
\<close>

theorem bulk_pull_length:
  assumes "header_type (pull_header m) = Mt_bulk_pull" "is_count_present (pull_header m) \<longleftrightarrow> pull_count m \<noteq> 0"
  shows "\<exists>s. bulk_pull_serialize net m = Some (header_serialize net (pull_header m) @ s) \<and>
    bulk_pull_deserialize (pull_header m) (s @ r) = Some (Some (m, r)) \<and> payload_length_bytes (pull_header m) = Some (length s)"
  by (rule bulk_pull_round [OF assms]) blast

definition ex_pull :: bulk_pull where
  "ex_pull = \<lparr>pull_header = message_header_init Mt_bulk_pull, pull_start = 1, pull_end = 2, pull_count = 0\<rparr>"

theorem bulk_pull_length_witness:
  "\<exists>s. bulk_pull_deserialize (pull_header ex_pull) (s @ []) = Some (Some (ex_pull, [])) \<and>
    payload_length_bytes (pull_header ex_pull) = Some (length s)"
  using bulk_pull_length [of ex_pull] by (fastforce simp: ex_pull_def is_count_present_def)

section \<open>Text forms\<close>



text \<open>
  C37. \<open>decode_account\<close> aborts on some texts: exactly those of the right length and prefix in
  which the character 127 follows characters of the alphabet only. The range test lets that
  character pass, and \<open>account_decode\<close> then fails its assertion.
\<close>

theorem account_text_abort:
  "decode_account blake5 old s = None \<longleftrightarrow> length s = 64 \<and> take 3 s = ''flr'' \<and> (s ! 3 = CHR ''_'' \<or> s ! 3 = CHR ''-'') \<and>
     (s ! 4 = CHR ''1'' \<or> s ! 4 = CHR ''3'') \<and>
     (\<exists>ds rest. list_all (\<lambda>d. d < 32) ds \<and> drop 4 s = map ((!) account_lookup) ds @ delete_char # rest)"
proof -
  have "decode_account blake5 old s = None \<longleftrightarrow> length s = 64 \<and> take 3 s = ''flr'' \<and> (s ! 3 = CHR ''_'' \<or> s ! 3 = CHR ''-'') \<and>
     (s ! 4 = CHR ''1'' \<or> s ! 4 = CHR ''3'') \<and> decode_digits (drop 4 s) 0 = None"
    by (cases "decode_digits (drop 4 s) 0") (auto simp: decode_account_def Let_def split: prod.splits)
  then show ?thesis by (simp add: decode_digits_abort list_all_iff)
qed

text \<open>
  C38. \<open>format_dec\<close> prints every amount in full: what it prints, without the group separators,
  is the decimal representation. In particular the branch for more than 39 digits, which
  would print nothing, is never taken.
\<close>

theorem whole_part_printed:
  assumes "list_all (\<lambda>d. sep \<noteq> Some (digit_char d)) [0..<10]"
  shows "\<exists>t. format_dec v sep groupings = Some t \<and> filter (\<lambda>c. sep \<noteq> Some c) t = decimal (unat v)"
  using format_dec_digits [of sep v groupings] assms by (auto simp: list_all_iff)

theorem whole_part_printed_witness:
  "\<exists>t. format_dec 1234567 (Some CHR '','') [3] = Some t \<and> filter (\<lambda>c. Some CHR '','' \<noteq> Some c) t = decimal (unat (1234567 :: uint128))"
  by (rule whole_part_printed) (simp add: upt_rec digit_char_def char_of_def bit_0)

text \<open>
  C39. \<open>format_frac\<close> truncates correctly: for a scale of \<open>10\<^sup>k\<close> it prints the first digits of the
  fraction, at most \<open>precision\<close> of them; if it prints fewer, nothing is left over.
\<close>

theorem fraction_printed:
  assumes "k \<le> 38" "unat v < 10 ^ k"
  shows "\<exists>ds. format_frac v (word_of_nat (10 ^ k)) precision = Some (map digit_char ds) \<and> fraction_digits (unat v) k ds \<and>
    length ds \<le> nat precision \<and> (length ds = nat precision \<or> unat v mod 10 ^ (k - length ds) = 0)"
  by (rule format_frac_digits [OF assms])

theorem fraction_printed_witness:
  "\<exists>ds. format_frac 250 (word_of_nat (10 ^ 3)) 6 = Some (map digit_char ds) \<and> fraction_digits 250 3 ds \<and> length ds \<le> 6"
  using fraction_printed [of 3 250 6] by auto

section \<open>The block processor\<close>





text \<open>
  C12. The worker thread comes to an end when no new blocks arrive: it has no infinite run of
  steps, with or without \<open>fast_bootstrap\<close>, although a processed block can put others back
  into the queue and a winner of an election can take blocks off the ledger. And it has no step
  left exactly when all queues are empty or the next pass aborts.
\<close>

theorem worker_terminates:
  assumes "unchecked_ok ne (store_unchecked (run 0))" "max_verification_batch ne \<noteq> 0"
  shows "(\<exists>i. \<not> worker_step ne (run i) (run (Suc i))) \<and>
    ((\<nexists>st'. worker_step ne st st') \<longleftrightarrow> \<not> have_blocks st \<or>
       state_blocks st = [] \<and> (\<forall>t c recent. process_next (at_time ne t c recent) st = None))"
proof -
  have "(\<exists>st'. worker_step ne st st') \<longleftrightarrow> state_blocks st \<noteq> [] \<or>
      (blocks st \<noteq> [] \<or> forced st \<noteq> []) \<and> (\<exists>t c recent st'. process_next (at_time ne t c recent) st = Some st')"
    by (auto simp: worker_step.simps)
  then show ?thesis using worker_no_infinite_run [where run = run, OF assms] by (auto simp: have_blocks_def)
qed

theorem worker_terminates_witness:
  "unchecked_ok ex_node (store_unchecked ex_queued) \<and> \<not> worker_step ex_node ex_queued ex_queued \<and> have_blocks ex_queued \<and>
    (\<exists>st'. worker_step ex_node ex_queued st')"
proof -
  have ok: "unchecked_ok ex_node (store_unchecked ex_queued)" "max_verification_batch ex_node \<noteq> 0"
    by (simp_all add: ex_queued_def unchecked_ok_def max_verification_batch_def batch_size_def ex_node_def)
  have step: "\<not> (\<forall>t c recent. process_next (at_time ex_node t c recent) ex_queued = None)"
    using ex_gap_step ex_at_time by (metis option.distinct(1))
  have "have_blocks ex_queued" by (simp add: have_blocks_def) (simp add: ex_queued_def)
  then show ?thesis
    using worker_terminates [of ex_node "\<lambda>_. ex_queued" ex_queued] ok step by simp
qed

text \<open>
  C19. One bad signature shuts a block out. A state block that arrives with a bad signature is
  dropped when the batch is verified, but its hash, which does not cover the signature, stays
  in \<open>blocks_hashes\<close>. From then on, whatever the node does, \<open>add\<close> ignores every block with
  that hash, and so the genuine block with the good signature.
\<close>

theorem forged_signature_blocks:
  assumes "hashes_ok ne st" "hash_in ne forged \<notin> blocks_hashes st"
    and "type_of (unchecked_block forged) = Bt_state" "unchecked_info.verified forged = Sv_unknown"
      "\<not> has_epoch_link (node_ledger st) forged"
      "validate_message (node_ledger_env ne) (verify_account (node_ledger st) forged) (hash_in ne forged)
         (block_signature (unchecked_block forged))"
    and "add ne st forged = Some st1" "st1 \<noteq> st" "length (state_blocks st) < max_verification_batch ne"
    and "(processor_step ne)\<^sup>*\<^sup>* (verify_state_blocks ne st1 (max_verification_batch ne)) st2"
    and "hash_in ne genuine = hash_in ne forged"
      "\<not> work_validate (node_work ne) (node_network ne) (unchecked_block genuine)"
  shows "add ne st2 genuine = Some st2"
  using forged_stranded [OF assms(1-9)] stranded_run [OF assms(10)] stranded_ignored [OF _ assms(11,12)] by blast

theorem forged_signature_blocks_witness:
  "\<exists>st. add ex_keyed_node ex_start (ex_item (State_block (ex_signed_state 3)) 0) = Some st \<and>
    validate_message (node_ledger_env ex_keyed_node) 2 176 3 \<and> \<not> validate_message (node_ledger_env ex_keyed_node) 2 176 2 \<and>
    (let st2 = verify_state_blocks ex_keyed_node st (max_verification_batch ex_keyed_node)
     in add ex_keyed_node st2 (ex_item (State_block (ex_signed_state 2)) 0) = Some st2)"
proof -
  let ?forged = "ex_item (State_block (ex_signed_state 3)) 0"
  let ?genuine = "ex_item (State_block (ex_signed_state 2)) 0"
  let ?st = "ex_start\<lparr>state_blocks := [?forged], blocks_hashes := {176}\<rparr>"
  have hashes: "hash_in ex_keyed_node ?forged = 176" "hash_in ex_keyed_node ?genuine = 176"
    by (simp_all add: ex_item_def ex_keyed_hash)
  have "?st \<noteq> ex_start"
  proof
    assume "?st = ex_start"
    then have "state_blocks ?st = state_blocks ex_start" by (rule arg_cong)
    then show False by simp
  qed
  moreover have "validate_message (node_ledger_env ex_keyed_node) (verify_account ex_ledger ?forged) 176 3"
    by (simp add: ex_keyed_valid verify_account_def has_epoch_link_def ex_item_def ex_signed_state_def)
  ultimately have "add ex_keyed_node (verify_state_blocks ex_keyed_node ?st (max_verification_batch ex_keyed_node)) ?genuine =
      Some (verify_state_blocks ex_keyed_node ?st (max_verification_batch ex_keyed_node))"
    by (intro forged_signature_blocks [OF _ _ _ _ _ _ ex_keyed_add [of 3 0] _ _ rtranclp.rtrancl_refl])
      (simp_all add: hashes hashes_ok_def queued_def has_epoch_link_def ex_keyed_batch ex_has_work(2),
       simp_all add: ex_item_def ex_signed_state_def)
  then show ?thesis using ex_keyed_add [of 3 0] by (simp add: ex_keyed_valid Let_def)
qed

text \<open>
  C20. A peer can stop the node with a block pulled for another account. When the bootstrap
  hands over a state block with the account of the pull, the block processor checks the
  signature against that account and not against the one the block names. A state block of
  another account signed with the key of the pull's account is marked valid, and the
  next pass fails an assertion.
\<close>

theorem claimed_account_abort:
  assumes "blocks st = []" "state_blocks st = []" "forced st = []"
      "hash_in ne i \<notin> blocks_hashes st" "hash_in ne i \<notin> snd ` set (rolled_back st)"
    and "\<not> work_validate (node_work ne) (node_network ne) (unchecked_block i)" "unchecked_info.verified i = Sv_unknown"
      "unchecked_account i \<noteq> 0" "unchecked_block i = State_block b" "\<not> has_epoch_link (node_ledger st) i"
    and "\<not> block_exists_type (store (node_ledger st)) Bt_state (hash_in ne i)"
    and "\<not> validate_message (node_ledger_env ne) (unchecked_account i) (hash_in ne i) (signature b)"
      "validate_message (node_ledger_env ne) (state_account (hashables b)) (hash_in ne i) (signature b)"
    and "max_verification_batch ne \<noteq> 0"
  shows "\<exists>st1 st2. add ne st i = Some st1 \<and> worker_step ne st1 st2 \<and>
    (\<forall>t c recent. process_next (at_time ne t c recent) st2 = None)"
proof -
  let ?h = "hash_in ne i"
  let ?st1 = "st\<lparr>state_blocks := [i], blocks_hashes := insert ?h (blocks_hashes st)\<rparr>"
  let ?i = "i\<lparr>unchecked_info.verified := Sv_valid\<rparr>"
  let ?st2 = "st\<lparr>blocks := [?i], blocks_hashes := insert ?h (blocks_hashes st)\<rparr>"
  have "add ne st i = Some ?st1" using assms by (simp add: add_def)
  moreover have "verify_item ne (node_ledger st) i = Some ?i"
    by (rule claimed_block_marked) (use assms in simp_all)
  then have "verify_state_blocks ne ?st1 (max_verification_batch ne) = ?st2"
    using assms by (cases "max_verification_batch ne") (simp_all add: verify_state_blocks_def List.map_filter_def)
  then have "worker_step ne ?st1 ?st2" using worker_verify [of ?st1 ne] by simp
  moreover have "process_next (at_time ne t c recent) ?st2 = None" for t c recent
  proof -
    let ?ne = "at_time ne t c recent"
    have "process_one ?ne (?st2\<lparr>blocks := [], blocks_hashes := insert ?h (blocks_hashes st) - {?h}\<rparr>) ?i = None"
      by (rule claimed_block_aborts [where l = "node_ledger st" and b = b])
        (use assms in \<open>simp_all add: has_epoch_link_def env_at_time validate_message_def\<close>)
    then show ?thesis using assms(3) by (simp add: process_next_def next_block_def)
  qed
  ultimately show ?thesis by blast
qed

theorem claimed_account_abort_witness:
  "\<exists>st1 st2. add ex_keyed_node ex_start (ex_item (State_block (ex_signed_state 1)) 1) = Some st1 \<and>
    worker_step ex_keyed_node st1 st2 \<and> (\<forall>t c recent. process_next (at_time ex_keyed_node t c recent) st2 = None)"
  by (rule claimed_account_abort [where b = "ex_signed_state 1"])
    (use ex_fresh_state in \<open>simp_all add: ex_has_work(2) ex_keyed_batch ex_item_def ex_keyed_hash ex_keyed_valid
       has_epoch_link_def, simp_all add: ex_signed_state_def\<close>)

end
